(* ===== verification/Go_Prelude.thy ===== *)
theory Go_Prelude
  imports Main "HOL-Library.Word" "HOL-Library.Multiset" "HOL-Library.Monad_Syntax"
begin

text \<open>
  Shared vocabulary of the development: the machine integers of Go, generic reachability for the
  step relations of the components, the contract of a first-in first-out queue (implemented four
  times in the sources, each time differently) and the list lemmas the components share.
\<close>

section \<open>Go's types\<close>

type_synonym byte = "8 word"
type_synonym uint32 = "32 word"
type_synonym uint64 = "64 word"

text \<open>A Go \<open>int32\<close> is a 32-bit word read through \<open>sint\<close>; arithmetic on it wraps.\<close>

type_synonym int32 = "32 word"

named_theorems go_split \<open>case splits for results of Go calls\<close>

declare option.splits [go_split] sum.splits [go_split] prod.splits [go_split] if_splits [go_split]

section \<open>Reachability and invariants\<close>

inductive reach :: "('s \<Rightarrow> bool) \<Rightarrow> ('s \<Rightarrow> 's \<Rightarrow> bool) \<Rightarrow> 's \<Rightarrow> bool"
  for initial :: "'s \<Rightarrow> bool" and next_state :: "'s \<Rightarrow> 's \<Rightarrow> bool"
where
  reach_start: "initial s \<Longrightarrow> reach initial next_state s"
| reach_more: "reach initial next_state s \<Longrightarrow> next_state s t \<Longrightarrow> reach initial next_state t"

text \<open>
  The contract of a state machine with an inductive invariant. Every component with a step
  relation interprets it on its own relation.
\<close>

locale inductive_invariant =
  fixes initial :: "'s \<Rightarrow> bool"
    and next_state :: "'s \<Rightarrow> 's \<Rightarrow> bool"
    and inv :: "'s \<Rightarrow> bool"
  assumes inv_initial: "initial s \<Longrightarrow> inv s"
    and inv_next: "inv s \<Longrightarrow> next_state s t \<Longrightarrow> inv t"
begin

lemma reachable_inv: "reach initial next_state s \<Longrightarrow> inv s"
  by (induction rule: reach.induct) (auto intro: inv_initial inv_next)

lemma inv_star: "next_state\<^sup>*\<^sup>* s t \<Longrightarrow> inv s \<Longrightarrow> inv t"
  by (induction rule: rtranclp_induct) (auto intro: inv_next)

lemma reachable_step_inv:
  "reach initial next_state s \<Longrightarrow> next_state s t \<Longrightarrow> inv s \<and> inv t"
  using reachable_inv inv_next by blast

end

section \<open>First-in first-out queues\<close>

datatype 'a qop = Enq 'a | Deq

text \<open>Drive a queue through a sequence of operations, collecting what the dequeues return.\<close>

fun drive :: "('a \<Rightarrow> 'q \<Rightarrow> 'q) \<Rightarrow> ('q \<Rightarrow> 'a option \<times> 'q) \<Rightarrow> 'a qop list \<Rightarrow> 'q \<Rightarrow> 'a option list \<times> 'q" where
  "drive enq deq [] q = ([], q)"
| "drive enq deq (Enq x # ops) q = drive enq deq ops (enq x q)"
| "drive enq deq (Deq # ops) q =
     (let (r, q1) = deq q; (rs, q2) = drive enq deq ops q1 in (r # rs, q2))"

definition list_deq :: "'a list \<Rightarrow> 'a option \<times> 'a list" where
  "list_deq xs = (case xs of [] \<Rightarrow> (None, []) | x # ys \<Rightarrow> (Some x, ys))"

lemma list_deq_simps [simp]:
  "list_deq [] = (None, [])"
  "list_deq (x # xs) = (Some x, xs)"
  by (simp_all add: list_deq_def)

abbreviation drive_list :: "'a qop list \<Rightarrow> 'a list \<Rightarrow> 'a option list \<times> 'a list" where
  "drive_list \<equiv> drive (\<lambda>x xs. xs @ [x]) list_deq"

locale fifo_queue =
  fixes good :: "'q \<Rightarrow> bool"
    and items :: "'q \<Rightarrow> 'a list"
    and enq :: "'a \<Rightarrow> 'q \<Rightarrow> 'q"
    and deq :: "'q \<Rightarrow> 'a option \<times> 'q"
  assumes good_enq: "good q \<Longrightarrow> good (enq x q)"
    and items_enq: "good q \<Longrightarrow> items (enq x q) = items q @ [x]"
    and good_deq: "good q \<Longrightarrow> good (snd (deq q))"
    and items_deq: "good q \<Longrightarrow> list_deq (items q) = (fst (deq q), items (snd (deq q)))"
begin

lemma deq_empty: "good q \<Longrightarrow> items q = [] \<Longrightarrow> fst (deq q) = None \<and> items (snd (deq q)) = []"
  using items_deq [of q] by simp

lemma deq_cons:
  "good q \<Longrightarrow> items q = x # xs \<Longrightarrow> fst (deq q) = Some x \<and> items (snd (deq q)) = xs"
  using items_deq [of q] by simp

text \<open>Driving the implementation and driving the list give the same answers.\<close>

lemma drive_refines:
  assumes "good q"
  shows "good (snd (drive enq deq ops q)) \<and>
    drive_list ops (items q) = (fst (drive enq deq ops q), items (snd (drive enq deq ops q)))"
  using assms
proof (induction ops arbitrary: q)
  case Nil
  then show ?case by simp
next
  case (Cons p ops)
  show ?case
  proof (cases p)
    case (Enq x)
    then show ?thesis using Cons.IH [of "enq x q"] Cons.prems by (simp add: good_enq items_enq)
  next
    case Deq
    then show ?thesis using Cons.IH [of "snd (deq q)"] Cons.prems
      by (simp add: good_deq items_deq split: prod.splits) (metis fst_conv snd_conv)
  qed
qed

text \<open>Filling the queue and draining it returns the items in the order they were added.\<close>

lemma fill_drain:
  assumes "good q" and "items q = []"
  shows "fst (drive enq deq (map Enq xs @ replicate (length xs) Deq) q) = map Some xs"
proof -
  have fill: "fst (drive_list (map Enq xs @ ops) ys) = fst (drive_list ops (ys @ xs))"
    for ops ys and xs :: "'a list"
    by (induction xs arbitrary: ys) simp_all
  have drain: "fst (drive_list (replicate (length zs) Deq) zs) = map Some zs" for zs :: "'a list"
    by (induction zs) (simp_all split: prod.splits, metis fst_conv)
  show ?thesis
    using drive_refines [OF assms(1), of "map Enq xs @ replicate (length xs) Deq"] fill drain assms(2)
    by (metis append_Nil fst_conv)
qed

end

section \<open>Lists\<close>

lemma concat_take_drop: "concat (take n xss) @ concat (drop n xss) = concat xss"
  by (metis append_take_drop_id concat_append)

lemma distinct_remove1_notin: "distinct xs \<Longrightarrow> x \<notin> set (remove1 x xs)"
  by simp

end
