(* ===== verification/Flow_Control.thy ===== *)
theory Flow_Control
  imports Go_Prelude
begin

text \<open>
  Flow control (\<^verbatim>\<open>internal/transport/flowcontrol.go\<close>): the write quota a stream
  takes before it schedules data, the connection-level and the stream-level inbound windows.
  Integers keep their 32 bits. The window accounting is related to the credit a peer that obeys
  HTTP/2 flow control holds, and the write quota to the interleaving of a writing stream with
  the transport's writer.
\<close>

section \<open>Connection-level inbound window\<close>

record trInFlow =
  trLimit :: uint32
  trUnacked :: uint32
  effectiveWindowSize :: uint32

definition tr_updateEffectiveWindowSize :: "trInFlow \<Rightarrow> trInFlow" where
  "tr_updateEffectiveWindowSize f = f\<lparr>effectiveWindowSize := trLimit f - trUnacked f\<rparr>"

definition tr_newLimit :: "uint32 \<Rightarrow> trInFlow \<Rightarrow> uint32 \<times> trInFlow" where
  "tr_newLimit n f =
     (let d = n - trLimit f;
          f1 = f\<lparr>trLimit := n\<rparr>
      in (d, tr_updateEffectiveWindowSize f1))"

definition tr_reset :: "trInFlow \<Rightarrow> uint32 \<times> trInFlow" where
  "tr_reset f =
     (let w = trUnacked f;
          f1 = f\<lparr>trUnacked := 0\<rparr>
      in (w, tr_updateEffectiveWindowSize f1))"

definition tr_onData :: "uint32 \<Rightarrow> trInFlow \<Rightarrow> uint32 \<times> trInFlow" where
  "tr_onData n f =
     (let f1 = f\<lparr>trUnacked := trUnacked f + n\<rparr>
      in if trUnacked f1 < trLimit f1 div 4 then (0, tr_updateEffectiveWindowSize f1)
         else tr_reset f1)"

definition tr_getSize :: "trInFlow \<Rightarrow> uint32" where
  "tr_getSize f = effectiveWindowSize f"

section \<open>Stream-level inbound window\<close>

record inFlow =
  limit :: uint32
  pendingData :: uint32
  pendingUpdate :: uint32
  delta :: uint32

definition maxInt32 :: uint32 where
  "maxInt32 = 2147483647"

definition maxWindowSize :: uint32 where
  "maxWindowSize = maxInt32"

text \<open>The error of \<open>onData\<close> carries what its message prints: the bytes received, the limit.\<close>

datatype flow_error = ExceedsLimit uint32 uint32

definition if_newLimit :: "uint32 \<Rightarrow> inFlow \<Rightarrow> inFlow" where
  "if_newLimit n f = f\<lparr>limit := n\<rparr>"

definition if_maybeAdjust :: "uint32 \<Rightarrow> inFlow \<Rightarrow> uint32 \<times> inFlow" where
  "if_maybeAdjust n0 f =
     (let n = (if n0 > maxInt32 then maxInt32 else n0);
          estSenderQuota = sint (limit f - (pendingData f + pendingUpdate f));
          estUntransmittedData = sint (n - pendingData f)
      in if estUntransmittedData > estSenderQuota then
           (let d = (if limit f + n > maxWindowSize then maxWindowSize - limit f else n)
            in (d, f\<lparr>delta := d\<rparr>))
         else (0, f))"

definition if_onData :: "uint32 \<Rightarrow> inFlow \<Rightarrow> flow_error option \<times> inFlow" where
  "if_onData n f =
     (let f1 = f\<lparr>pendingData := pendingData f + n\<rparr>
      in if pendingData f1 + pendingUpdate f1 > limit f1 + delta f1
         then (Some (ExceedsLimit (pendingData f1 + pendingUpdate f1) (limit f1)), f1)
         else (None, f1))"

definition if_onRead :: "uint32 \<Rightarrow> inFlow \<Rightarrow> uint32 \<times> inFlow" where
  "if_onRead n0 f =
     (if pendingData f = 0 then (0, f)
      else
        let f1 = f\<lparr>pendingData := pendingData f - n0\<rparr>;
            (n, f2) = (if n0 > delta f1 then (n0 - delta f1, f1\<lparr>delta := 0\<rparr>)
                       else (0, f1\<lparr>delta := delta f1 - n0\<rparr>));
            f3 = f2\<lparr>pendingUpdate := pendingUpdate f2 + n\<rparr>
        in if pendingUpdate f3 \<ge> limit f3 div 4
           then (pendingUpdate f3, f3\<lparr>pendingUpdate := 0\<rparr>)
           else (0, f3))"

section \<open>A stream, its reader and a peer that obeys the window\<close>

text \<open>
  The accounting is exercised by three parties: the peer, which may send as long as it has window
  (\<open>credit\<close>); the application, which announces a read of \<open>n\<close> bytes (\<open>maybeAdjust\<close>)
  and then takes exactly those bytes in pieces (\<open>onRead\<close>) before it announces the next read;
  and the bandwidth estimator, which raises the limit. \<open>wanted\<close> is what the announced read still
  has to take.
\<close>

record flow_sys =
  flow :: inFlow
  credit :: nat
  wanted :: nat

inductive flow_step :: "flow_sys \<Rightarrow> flow_sys \<Rightarrow> bool" where
  announce: "wanted s = 0 \<Longrightarrow> if_maybeAdjust n (flow s) = (d, f') \<Longrightarrow>
     flow_step s (s\<lparr>flow := f', credit := credit s + unat d, wanted := unat n\<rparr>)"
| data: "unat n \<le> credit s \<Longrightarrow> if_onData n (flow s) = (r, f') \<Longrightarrow>
     flow_step s (s\<lparr>flow := f', credit := credit s - unat n\<rparr>)"
| consume: "unat n \<le> wanted s \<Longrightarrow> n \<le> pendingData (flow s) \<Longrightarrow> if_onRead n (flow s) = (w, f') \<Longrightarrow>
     flow_step s (s\<lparr>flow := f', credit := credit s + unat w, wanted := wanted s - unat n\<rparr>)"
| raise: "limit (flow s) \<le> m \<Longrightarrow> m \<le> maxWindowSize \<Longrightarrow>
     flow_step s (s\<lparr>flow := if_newLimit m (flow s), credit := credit s + unat (m - limit (flow s))\<rparr>)"

definition flow_initial :: "flow_sys \<Rightarrow> bool" where
  "flow_initial s \<longleftrightarrow>
     limit (flow s) \<le> maxWindowSize \<and> pendingData (flow s) = 0 \<and> pendingUpdate (flow s) = 0 \<and>
     delta (flow s) = 0 \<and> credit s = unat (limit (flow s)) \<and> wanted s = 0"

text \<open>
  The accounting identity: what the peer may still send, what is buffered and what has been read
  but not yet returned to the peer add up to the limit and the extra window of the active read.
\<close>

definition flow_inv :: "flow_sys \<Rightarrow> bool" where
  "flow_inv s \<longleftrightarrow>
     credit s + unat (pendingData (flow s)) + unat (pendingUpdate (flow s)) =
       unat (limit (flow s)) + unat (delta (flow s)) \<and>
     unat (delta (flow s)) \<le> wanted s \<and>
     unat (delta (flow s)) \<le> 2147483647 \<and>
     limit (flow s) \<le> maxWindowSize"

lemma unat_max [simp]: "unat maxWindowSize = 2147483647" "unat maxInt32 = 2147483647"
  by (simp_all add: maxWindowSize_def maxInt32_def)

lemma word_le_max: "(n :: uint32) \<le> maxWindowSize \<longleftrightarrow> unat n \<le> 2147483647"
  "(n :: uint32) > maxWindowSize \<longleftrightarrow> unat n > 2147483647"
  "(n :: uint32) > maxInt32 \<longleftrightarrow> unat n > 2147483647"
  by (simp_all add: word_le_nat_alt word_less_nat_alt)

lemma unat32_lt: "unat (n :: uint32) < 4294967296"
proof -
  have "unat n < 2 ^ LENGTH(32)" by (rule unsigned_less)
  then show ?thesis by simp
qed

lemma unat32_plus: "unat (a :: uint32) + unat b < 4294967296 \<Longrightarrow> unat (a + b) = unat a + unat b"
  by (simp add: unat_word_ariths)

lemma unat32_minus: "(b :: uint32) \<le> a \<Longrightarrow> unat (a - b) = unat a - unat b"
  by (rule unat_sub)

lemma sint32_small: "unat (a :: uint32) < 2147483648 \<Longrightarrow> sint a = int (unat a)"
  by (simp add: sint_uint signed_take_bit_int_eq_self_iff uint_nat del: of_nat_unat)

lemma sint32_diff:
  assumes "unat (a :: uint32) < 2147483648" and "unat (b :: uint32) < 2147483648"
  shows "sint (a - b) = int (unat a) - int (unat b)"
proof -
  have "sint (a - b) = signed_take_bit 31 (sint a - sint b)"
    by (simp add: sint_word_ariths)
  also have "sint a - sint b = int (unat a) - int (unat b)"
    using assms by (simp add: sint32_small)
  also have "signed_take_bit 31 (int (unat a) - int (unat b)) = int (unat a) - int (unat b)"
    using assms by (intro signed_take_bit_int_eq_self) (simp_all del: of_nat_unat)
  finally show ?thesis .
qed

lemma flow_inv_initial: "flow_initial s \<Longrightarrow> flow_inv s"
  by (simp add: flow_initial_def flow_inv_def)

lemma flow_inv_pending:
  assumes "flow_inv s"
  shows "unat (pendingData (flow s) + pendingUpdate (flow s)) =
      unat (pendingData (flow s)) + unat (pendingUpdate (flow s))"
    and "unat (limit (flow s) + delta (flow s)) = unat (limit (flow s)) + unat (delta (flow s))"
  using assms by (auto simp: flow_inv_def word_le_max intro!: unat32_plus)

text \<open>What \<open>maybeAdjust\<close> grants, when the previous read has been taken completely.\<close>

definition adjust_grant :: "nat \<Rightarrow> inFlow \<Rightarrow> nat" where
  "adjust_grant n f =
     (let m = min n 2147483647 in
      if unat (limit f) < m + unat (pendingUpdate f)
      then min m (2147483647 - unat (limit f)) else 0)"

lemma maybeAdjust_eq:
  assumes "limit f \<le> maxWindowSize"
    and "unat (pendingData f) + unat (pendingUpdate f) \<le> unat (limit f)" and "delta f = 0"
    and "if_maybeAdjust n f = (d, f')"
  shows "unat d = adjust_grant (unat n) f \<and> f' = f\<lparr>delta := d\<rparr>"
proof -
  define m where "m = (if n > maxInt32 then maxInt32 else n)"
  have m: "unat m = min (unat n) 2147483647"
    by (auto simp: m_def word_le_max)
  have lim: "unat (limit f) \<le> 2147483647" using assms(1) by (simp add: word_le_max)
  have pend: "unat (pendingData f + pendingUpdate f) = unat (pendingData f) + unat (pendingUpdate f)"
    using assms(2) lim by (intro unat32_plus) simp
  have q: "sint (limit f - (pendingData f + pendingUpdate f)) =
      int (unat (limit f)) - int (unat (pendingData f) + unat (pendingUpdate f))"
    using assms(2) lim by (subst sint32_diff) (simp_all add: pend)
  have u: "sint (m - pendingData f) = int (unat m) - int (unat (pendingData f))"
    using assms(2) lim m by (subst sint32_diff) simp_all
  have sum: "unat (limit f + m) = unat (limit f) + unat m"
    using lim m by (intro unat32_plus) simp
  have rest: "unat (maxWindowSize - limit f) = 2147483647 - unat (limit f)"
    using unat32_minus [OF assms(1)] by simp
  have g: "sint (m - pendingData f) > sint (limit f - (pendingData f + pendingUpdate f)) \<longleftrightarrow>
      unat (limit f) < unat m + unat (pendingUpdate f)"
    unfolding q u using assms(2) by linarith
  have delta0: "f\<lparr>delta := 0\<rparr> = f" using assms(3) by simp
  show ?thesis
    using assms(4) delta0 m
    unfolding if_maybeAdjust_def Let_def m_def [symmetric] g adjust_grant_def
    by (auto simp: word_le_max sum rest split: if_splits)
qed

lemma onRead_eq:
  assumes "n \<le> pendingData f" and "unat (pendingData f) + unat (pendingUpdate f) < 4294967296"
    and "if_onRead n f = (w, f')"
  shows "unat w + unat (pendingData f') + unat (pendingUpdate f') + min (unat n) (unat (delta f)) =
      unat (pendingData f) + unat (pendingUpdate f)
    \<and> unat (delta f') = unat (delta f) - unat n \<and> limit f' = limit f"
proof -
  have np: "unat n \<le> unat (pendingData f)" using assms(1) by (simp add: word_le_nat_alt)
  have pd: "unat (pendingData f - n) = unat (pendingData f) - unat n"
    using assms(1) by (rule unat32_minus)
  have dn: "n \<le> delta f \<Longrightarrow> unat (delta f - n) = unat (delta f) - unat n"
    by (rule unat32_minus)
  have nd: "delta f < n \<Longrightarrow> unat (n - delta f) = unat n - unat (delta f)"
    by (rule unat32_minus) simp
  have pu: "delta f < n \<Longrightarrow>
      unat (pendingUpdate f + (n - delta f)) = unat (pendingUpdate f) + (unat n - unat (delta f))"
    using assms(2) np nd by (subst unat32_plus) simp_all
  have zero: "pendingData f = 0 \<Longrightarrow> n = 0" using assms(1) by simp
  show ?thesis
  proof (cases "pendingData f = 0")
    case True
    then show ?thesis using assms(3) zero by (simp add: if_onRead_def)
  next
    case False
    show ?thesis
    proof (cases "delta f < n")
      case True
      then show ?thesis using assms(3) False np pd pu
        by (auto simp: if_onRead_def Let_def word_less_nat_alt split: if_splits)
    next
      case le: False
      then show ?thesis using assms(3) False np pd dn
        by (auto simp: if_onRead_def Let_def word_less_nat_alt word_le_nat_alt split: if_splits)
    qed
  qed
qed

lemma onData_accepts:
  assumes "flow_inv s" and "unat n \<le> credit s"
  shows "if_onData n (flow s) = (None, (flow s)\<lparr>pendingData := pendingData (flow s) + n\<rparr>)
    \<and> unat (pendingData (flow s) + n) = unat (pendingData (flow s)) + unat n"
proof -
  let ?f = "flow s"
  have sum: "unat (pendingData ?f) + unat n + unat (pendingUpdate ?f) \<le> unat (limit ?f) + unat (delta ?f)"
    and small: "unat (limit ?f) + unat (delta ?f) < 4294967296"
    using assms by (auto simp: flow_inv_def word_le_max)
  have pn: "unat (pendingData ?f + n) = unat (pendingData ?f) + unat n"
    using sum small by (intro unat32_plus) simp
  have "unat (pendingData ?f + n + pendingUpdate ?f) = unat (pendingData ?f) + unat n + unat (pendingUpdate ?f)"
    using sum small pn by (subst unat32_plus) simp_all
  then have "\<not> pendingData ?f + n + pendingUpdate ?f > limit ?f + delta ?f"
    using sum flow_inv_pending(2) [OF assms(1)] by (simp add: word_less_nat_alt)
  then show ?thesis using pn by (simp add: if_onData_def)
qed

lemma flow_inv_step: "flow_inv s \<Longrightarrow> flow_step s t \<Longrightarrow> flow_inv t"
proof -
  assume inv: "flow_inv s" and step: "flow_step s t"
  from step show "flow_inv t"
  proof (cases rule: flow_step.cases)
    case (announce n d f')
    have d0: "delta (flow s) = 0"
      using inv announce(2) by (simp add: flow_inv_def unat_eq_0)
    have "unat d = adjust_grant (unat n) (flow s) \<and> f' = (flow s)\<lparr>delta := d\<rparr>"
      using inv announce d0 by (intro maybeAdjust_eq) (auto simp: flow_inv_def)
    then show ?thesis using inv announce(1) d0
      by (auto simp: flow_inv_def adjust_grant_def Let_def)
  next
    case (data n r f')
    then show ?thesis using inv onData_accepts [OF inv data(2)] by (auto simp: flow_inv_def)
  next
    case (consume n w f')
    have small: "unat (pendingData (flow s)) + unat (pendingUpdate (flow s)) < 4294967296"
      using inv by (auto simp: flow_inv_def word_le_max)
    show ?thesis using inv consume(1,2) onRead_eq [OF consume(3) small consume(4)]
      by (auto simp: flow_inv_def min_def split: if_splits)
  next
    case (raise m)
    then show ?thesis using inv unat32_minus [OF raise(2)]
      by (auto simp: flow_inv_def if_newLimit_def word_le_nat_alt)
  qed
qed

interpretation flowinv: inductive_invariant flow_initial flow_step flow_inv
  by unfold_locales (auto intro: flow_inv_initial flow_inv_step)

subsection \<open>Properties of the inbound windows\<close>

text \<open>
  C14: A peer that obeys the stream window is never reported as violating it: in every reachable
  state of a stream, whatever was announced, received, read and raised before, data that fits the
  peer's remaining credit is accepted by \<open>inFlow.onData\<close>, and data that does not fit is refused
  (as long as the buffered byte count itself does not wrap).
\<close>

theorem onData_exact:
  assumes "reach flow_initial flow_step s"
    and "unat (pendingData (flow s)) + unat (pendingUpdate (flow s)) + unat n < 2 ^ 32"
  shows "fst (if_onData n (flow s)) = None \<longleftrightarrow> unat n \<le> credit s"
proof
  have inv: "flow_inv s" using assms(1) by (rule flowinv.reachable_inv)
  show "unat n \<le> credit s \<Longrightarrow> fst (if_onData n (flow s)) = None"
    using onData_accepts [OF inv] by simp
  have "unat (pendingData (flow s) + n) = unat (pendingData (flow s)) + unat n"
    using assms(2) by (intro unat32_plus) simp
  then have "unat (pendingData (flow s) + n + pendingUpdate (flow s)) =
      unat (pendingData (flow s)) + unat n + unat (pendingUpdate (flow s))"
    using assms(2) by (subst unat32_plus) simp_all
  then show "fst (if_onData n (flow s)) = None \<Longrightarrow> unat n \<le> credit s"
    using inv flow_inv_pending(2) [OF inv]
    by (auto simp: if_onData_def Let_def word_less_nat_alt flow_inv_def split: if_splits)
qed

definition flow_demo :: flow_sys where
  "flow_demo = \<lparr>flow = \<lparr>limit = 65535, pendingData = 0, pendingUpdate = 0, delta = 0\<rparr>,
     credit = 65535, wanted = 0\<rparr>"

lemma flow_demo_reach: "reach flow_initial flow_step flow_demo"
  by (rule reach_start) (simp add: flow_demo_def flow_initial_def word_le_max)

theorem onData_exact_witness:
  "fst (if_onData 65535 (flow flow_demo)) = None \<and> fst (if_onData 65536 (flow flow_demo)) \<noteq> None"
  using onData_exact [OF flow_demo_reach, of 65535] onData_exact [OF flow_demo_reach, of 65536]
  by (simp add: flow_demo_def)

text \<open>
  C15: An announced read can always be completed: right after \<open>maybeAdjust n\<close> the peer holds
  enough credit to send everything of the message that is not buffered yet, unless the window is
  already at the protocol maximum \<open>2\<^sup>3\<^sup>1 - 1\<close>, where the credit is all that HTTP/2
  allows. The sender is never left stuck behind a window smaller than the message.
\<close>

theorem announce_unblocks_sender:
  assumes "reach flow_initial flow_step s" and "wanted s = 0"
    and "if_maybeAdjust n (flow s) = (d, f')"
  shows "min (unat n) 2147483647 \<le> credit s + unat d + unat (pendingData f')
    \<or> credit s + unat d + unat (pendingData f') + unat (pendingUpdate f') = unat maxWindowSize"
proof -
  have inv: "flow_inv s" using assms(1) by (rule flowinv.reachable_inv)
  have d0: "delta (flow s) = 0"
    using inv assms(2) by (simp add: flow_inv_def unat_eq_0)
  have "unat d = adjust_grant (unat n) (flow s) \<and> f' = (flow s)\<lparr>delta := d\<rparr>"
    using inv d0 assms(3) by (intro maybeAdjust_eq) (auto simp: flow_inv_def)
  then show ?thesis using inv d0
    by (auto simp: flow_inv_def adjust_grant_def word_le_max Let_def)
qed

theorem announce_unblocks_sender_witness:
  "min 1000000 2147483647 \<le> credit flow_demo + unat (fst (if_maybeAdjust 1000000 (flow flow_demo)))"
  using announce_unblocks_sender [OF flow_demo_reach, of 1000000]
  by (simp add: flow_demo_def if_maybeAdjust_def maxInt32_def maxWindowSize_def)

section \<open>The connection window and its sender\<close>

text \<open>
  The connection-level counterpart: \<open>tr_sys\<close> is the inbound window with the credit of a peer.
  \<open>onData\<close> answers with the update to send back, \<open>newLimit\<close> with the difference of the limits.
\<close>

record tr_sys =
  tr :: trInFlow
  trCredit :: nat

inductive tr_step :: "tr_sys \<Rightarrow> tr_sys \<Rightarrow> bool" where
  tr_data: "unat n \<le> trCredit s \<Longrightarrow> tr_onData n (tr s) = (w, f') \<Longrightarrow>
     tr_step s (s\<lparr>tr := f', trCredit := trCredit s - unat n + unat w\<rparr>)"
| tr_flush: "tr_reset (tr s) = (w, f') \<Longrightarrow>
     tr_step s (s\<lparr>tr := f', trCredit := trCredit s + unat w\<rparr>)"
| tr_raise: "trLimit (tr s) \<le> n \<Longrightarrow> tr_newLimit n (tr s) = (d, f') \<Longrightarrow>
     tr_step s (s\<lparr>tr := f', trCredit := trCredit s + unat d\<rparr>)"

definition tr_initial :: "tr_sys \<Rightarrow> bool" where
  "tr_initial s \<longleftrightarrow> trUnacked (tr s) = 0 \<and> 4 \<le> trLimit (tr s) \<and>
     effectiveWindowSize (tr s) = trLimit (tr s) \<and> trCredit s = unat (trLimit (tr s))"

definition tr_inv :: "tr_sys \<Rightarrow> bool" where
  "tr_inv s \<longleftrightarrow> 4 \<le> trLimit (tr s) \<and> trCredit s + unat (trUnacked (tr s)) = unat (trLimit (tr s)) \<and>
     unat (trUnacked (tr s)) < unat (trLimit (tr s)) div 4 \<and>
     effectiveWindowSize (tr s) = trLimit (tr s) - trUnacked (tr s)"

lemma tr_inv_initial: "tr_initial s \<Longrightarrow> tr_inv s"
  by (auto simp: tr_initial_def tr_inv_def word_le_nat_alt)

lemma tr_inv_step: "tr_inv s \<Longrightarrow> tr_step s t \<Longrightarrow> tr_inv t"
proof -
  assume inv: "tr_inv s" and step: "tr_step s t"
  from step show "tr_inv t"
  proof (cases rule: tr_step.cases)
    case (tr_data n w f')
    have "unat (trUnacked (tr s)) + unat n \<le> unat (trLimit (tr s))"
      using inv tr_data(2) by (auto simp: tr_inv_def)
    then have sum: "unat (trUnacked (tr s) + n) = unat (trUnacked (tr s)) + unat n"
      using unat32_lt [of "trLimit (tr s)"] by (intro unat32_plus) simp
    have quarter: "unat (trLimit (tr s) div 4) = unat (trLimit (tr s)) div 4"
      by (simp add: unat_div)
    show ?thesis using inv tr_data sum
      by (auto simp: tr_inv_def tr_onData_def tr_reset_def tr_updateEffectiveWindowSize_def Let_def
          word_less_nat_alt word_le_nat_alt quarter split: if_splits)
  next
    case (tr_flush w f')
    then show ?thesis using inv
      by (auto simp: tr_inv_def tr_reset_def tr_updateEffectiveWindowSize_def Let_def word_le_nat_alt)
  next
    case (tr_raise n d f')
    then show ?thesis using inv unat32_minus [OF tr_raise(2)]
      by (auto simp: tr_inv_def tr_newLimit_def tr_updateEffectiveWindowSize_def Let_def word_le_nat_alt)
  qed
qed

interpretation trinv: inductive_invariant tr_initial tr_step tr_inv
  by unfold_locales (auto intro: tr_inv_initial tr_inv_step)

text \<open>
  C16: Connection-level updates are batched without ever starving the peer: in every reachable state
  the peer's credit plus the unacknowledged bytes is the limit, the published window is exactly the
  peer's credit, and that credit stays above three quarters of the limit.
\<close>

theorem connection_window_never_starves:
  assumes "reach tr_initial tr_step s"
  shows "unat (tr_getSize (tr s)) = trCredit s
    \<and> trCredit s + unat (trUnacked (tr s)) = unat (trLimit (tr s))
    \<and> 3 * unat (trLimit (tr s)) < 4 * trCredit s"
proof -
  have inv: "tr_inv s" using assms by (rule trinv.reachable_inv)
  then have "trUnacked (tr s) \<le> trLimit (tr s)"
    by (simp add: tr_inv_def word_le_nat_alt)
  from unat32_minus [OF this] inv show ?thesis
    by (auto simp: tr_inv_def tr_getSize_def)
qed

definition tr_demo :: tr_sys where
  "tr_demo = \<lparr>tr = \<lparr>trLimit = 65535, trUnacked = 0, effectiveWindowSize = 65535\<rparr>, trCredit = 65535\<rparr>"

definition tr_demo2 :: tr_sys where
  "tr_demo2 = tr_demo\<lparr>tr := snd (tr_onData 16000 (tr tr_demo)), trCredit := 49535\<rparr>"

theorem connection_window_never_starves_witness:
  "unat (tr_getSize (tr tr_demo2)) = 49535 \<and> 3 * unat (trLimit (tr tr_demo2)) < 4 * trCredit tr_demo2"
proof -
  have "reach tr_initial tr_step tr_demo"
    by (rule reach_start) (simp add: tr_demo_def tr_initial_def)
  moreover have "tr_step tr_demo tr_demo2"
    unfolding tr_demo2_def
    using tr_data [of 16000 tr_demo 0 "snd (tr_onData 16000 (tr tr_demo))"]
    by (simp add: tr_demo_def tr_onData_def Let_def)
  ultimately have "reach tr_initial tr_step tr_demo2" by (rule reach_more)
  from connection_window_never_starves [OF this] show ?thesis
    by (simp add: tr_demo2_def tr_demo_def)
qed

section \<open>Write quota\<close>

text \<open>
  \<open>writeQuota\<close> is shared by the goroutine that writes a stream (\<open>get\<close>) and the transport's
  writer (\<open>replenish\<close>). \<open>ch\<close> is the channel of capacity one, so it holds at most one token;
  \<open>wqDone\<close> says that the stream's done channel is closed. Each atomic action of the two
  functions is one step: \<open>getPc\<close> and \<open>repPc\<close> say which action is next.
\<close>

record writeQuota =
  quota :: int32
  ch :: bool
  wqDone :: bool

definition wq_init :: "int32 \<Rightarrow> bool \<Rightarrow> writeQuota" where
  "wq_init sz done = \<lparr>quota = sz, ch = False, wqDone = done\<rparr>"

text \<open>\<open>atomic.LoadInt32(&w.quota) > 0\<close>\<close>

definition wq_positive :: "writeQuota \<Rightarrow> bool" where
  "wq_positive w \<longleftrightarrow> sint (quota w) > 0"

text \<open>The two halves of \<open>replenish\<close>: the atomic addition, which decides whether to signal, and the
  non-blocking send.\<close>

definition wq_replenish_add :: "int \<Rightarrow> writeQuota \<Rightarrow> bool \<times> writeQuota" where
  "wq_replenish_add n w =
     (let sz = (word_of_int n :: int32);
          newQuota = quota w + sz;
          previousQuota = newQuota - sz
      in (sint previousQuota \<le> 0 \<and> sint newQuota > 0, w\<lparr>quota := newQuota\<rparr>))"

definition wq_signal :: "writeQuota \<Rightarrow> writeQuota" where
  "wq_signal w = w\<lparr>ch := True\<rparr>"

definition wq_replenish :: "int \<Rightarrow> writeQuota \<Rightarrow> writeQuota" where
  "wq_replenish n w = (case wq_replenish_add n w of (sig, w') \<Rightarrow> if sig then wq_signal w' else w')"

datatype getPc = GetIdle | GetLoad int32 | GetAdd int32 | GetSelect int32 | GetErrStreamDone
datatype repPc = RepIdle | RepSend

record wq_sys =
  wq :: writeQuota
  getter :: getPc
  replenisher :: repPc

inductive wq_step :: "wq_sys \<Rightarrow> wq_sys \<Rightarrow> bool" where
  get_call: "getter s = GetIdle \<Longrightarrow> wq_step s (s\<lparr>getter := GetLoad sz\<rparr>)"
| get_load_pos: "getter s = GetLoad sz \<Longrightarrow> wq_positive (wq s) \<Longrightarrow>
     wq_step s (s\<lparr>getter := GetAdd sz\<rparr>)"
| get_load_none: "getter s = GetLoad sz \<Longrightarrow> \<not> wq_positive (wq s) \<Longrightarrow>
     wq_step s (s\<lparr>getter := GetSelect sz\<rparr>)"
| get_add: "getter s = GetAdd sz \<Longrightarrow>
     wq_step s (s\<lparr>wq := (wq s)\<lparr>quota := quota (wq s) + - sz\<rparr>, getter := GetIdle\<rparr>)"
| get_token: "getter s = GetSelect sz \<Longrightarrow> ch (wq s) \<Longrightarrow>
     wq_step s (s\<lparr>wq := (wq s)\<lparr>ch := False\<rparr>, getter := GetLoad sz\<rparr>)"
| get_done: "getter s = GetSelect sz \<Longrightarrow> wqDone (wq s) \<Longrightarrow>
     wq_step s (s\<lparr>getter := GetErrStreamDone\<rparr>)"
| rep_add: "replenisher s = RepIdle \<Longrightarrow> wq_replenish_add n (wq s) = (sig, w') \<Longrightarrow>
     wq_step s (s\<lparr>wq := w', replenisher := (if sig then RepSend else RepIdle)\<rparr>)"
| rep_send: "replenisher s = RepSend \<Longrightarrow>
     wq_step s (s\<lparr>wq := wq_signal (wq s), replenisher := RepIdle\<rparr>)"
| stream_done: "wq_step s (s\<lparr>wq := (wq s)\<lparr>wqDone := True\<rparr>\<rparr>)"

definition wq_initial :: "wq_sys \<Rightarrow> bool" where
  "wq_initial s \<longleftrightarrow> getter s = GetIdle \<and> replenisher s = RepIdle \<and> (\<exists>sz. wq s = wq_init sz False)"

text \<open>A getter that waits although there is quota has been, or is about to be, signalled.\<close>

definition wq_inv :: "wq_sys \<Rightarrow> bool" where
  "wq_inv s \<longleftrightarrow>
     (\<forall>sz. getter s = GetSelect sz \<and> wq_positive (wq s) \<longrightarrow> ch (wq s) \<or> replenisher s = RepSend)"

lemma wq_inv_step: "wq_inv s \<Longrightarrow> wq_step s t \<Longrightarrow> wq_inv t"
proof -
  assume inv: "wq_inv s" and step: "wq_step s t"
  from step show "wq_inv t"
  proof (cases rule: wq_step.cases)
    case (rep_add n sig w')
    then have "sig \<longleftrightarrow> \<not> wq_positive (wq s) \<and> wq_positive w'" "ch w' = ch (wq s)"
      by (auto simp: wq_replenish_add_def wq_positive_def Let_def)
    with inv rep_add show ?thesis by (auto simp: wq_inv_def)
  qed (use inv in \<open>auto simp: wq_inv_def wq_positive_def wq_signal_def\<close>)
qed

interpretation wqinv: inductive_invariant wq_initial wq_step wq_inv
  by unfold_locales (simp add: wq_initial_def wq_inv_def, erule (1) wq_inv_step)

text \<open>
  C17: No wake-up is lost between a stream waiting for write quota and the transport replenishing it:
  whenever the getter is blocked in its \<open>select\<close> while the quota is positive and no replenish call
  is half way through, the token that lets it continue is in the channel.
\<close>

theorem write_quota_no_lost_wakeup:
  assumes "reach wq_initial wq_step s"
    and "getter s = GetSelect sz" and "wq_positive (wq s)" and "replenisher s = RepIdle"
  shows "wq_step s (s\<lparr>wq := (wq s)\<lparr>ch := False\<rparr>, getter := GetLoad sz\<rparr>)"
proof -
  have "wq_inv s" using assms(1) by (rule wqinv.reachable_inv)
  then have "ch (wq s)" using assms by (auto simp: wq_inv_def)
  then show ?thesis using assms(2) by (intro wq_step.get_token)
qed

definition wq_demo :: "nat \<Rightarrow> wq_sys" where
  "wq_demo k =
     (let w = wq_init 0 False in
      [\<lparr>wq = w, getter = GetIdle, replenisher = RepIdle\<rparr>,
       \<lparr>wq = w, getter = GetLoad 7, replenisher = RepIdle\<rparr>,
       \<lparr>wq = w, getter = GetSelect 7, replenisher = RepIdle\<rparr>,
       \<lparr>wq = w\<lparr>quota := 10\<rparr>, getter = GetSelect 7, replenisher = RepSend\<rparr>,
       \<lparr>wq = w\<lparr>quota := 10, ch := True\<rparr>, getter = GetSelect 7, replenisher = RepIdle\<rparr>] ! k)"

lemma wq_demo_reach: "reach wq_initial wq_step (wq_demo 4)"
proof -
  have "reach wq_initial wq_step (wq_demo 0)"
    by (rule reach_start) (auto simp: wq_demo_def wq_initial_def Let_def)
  moreover have "wq_step (wq_demo 0) (wq_demo 1)"
    using get_call [of "wq_demo 0" 7] by (simp add: wq_demo_def Let_def)
  moreover have "wq_step (wq_demo 1) (wq_demo 2)"
    using get_load_none [of "wq_demo 1" 7] by (simp add: wq_demo_def Let_def wq_positive_def wq_init_def)
  moreover have "wq_step (wq_demo 2) (wq_demo 3)"
    using rep_add [of "wq_demo 2" 10 True "(wq_init 0 False)\<lparr>quota := 10\<rparr>"]
    by (simp add: wq_demo_def Let_def wq_replenish_add_def wq_init_def)
  moreover have "wq_step (wq_demo 3) (wq_demo 4)"
    using rep_send [of "wq_demo 3"] by (simp add: wq_demo_def Let_def wq_signal_def)
  ultimately show ?thesis by (blast intro: reach_more)
qed

theorem write_quota_no_lost_wakeup_witness:
  "wq_step (wq_demo 4) ((wq_demo 4)\<lparr>wq := (wq (wq_demo 4))\<lparr>ch := False\<rparr>, getter := GetLoad 7\<rparr>)"
  by (rule write_quota_no_lost_wakeup [OF wq_demo_reach])
    (simp_all add: wq_demo_def Let_def wq_positive_def wq_init_def)

end
