(* ===== verification/Item_List.thy ===== *)
theory Item_List
  imports Go_Prelude
begin

text \<open>
  The control buffer's queue (\<^verbatim>\<open>itemList\<close> in
  \<^verbatim>\<open>internal/transport/controlbuf.go\<close>): a ring buffer whose length is zero or a power
  of two, so that indices wrap with a bit mask, which doubles when full and is halved when a
  quarter full. The element type's zero value is the parameter \<open>zero\<close>. The queue satisfies the
  contract \<open>fifo_queue\<close>; it keeps no dequeued item alive and its capacity follows its length.
\<close>

unbundle bit_operations_syntax

section \<open>The ring buffer\<close>

definition itemListInitialCapacity :: nat where
  "itemListInitialCapacity = 4"

definition itemListShrinkFloor :: nat where
  "itemListShrinkFloor = 64"

record 'a itemList =
  il_buf :: "'a list"
  il_head :: nat
  il_count :: nat

definition emptyItemList :: "'a itemList" where
  "emptyItemList = \<lparr>il_buf = [], il_head = 0, il_count = 0\<rparr>"

text \<open>Go's \<open>copy\<close>, and \<open>copy\<close> into the slice of \<open>dst\<close> from \<open>n\<close> on.\<close>

definition go_copy :: "'a list \<Rightarrow> 'a list \<Rightarrow> 'a list" where
  "go_copy dst src = take (length dst) src @ drop (length src) dst"

definition go_copy_from :: "nat \<Rightarrow> 'a list \<Rightarrow> 'a list \<Rightarrow> 'a list" where
  "go_copy_from n dst src = take n dst @ go_copy (drop n dst) src"

definition il_resize :: "'a \<Rightarrow> nat \<Rightarrow> 'a itemList \<Rightarrow> 'a itemList" where
  "il_resize zero capacity il =
     (let new = replicate capacity zero;
          new' = (if il_head il + il_count il \<le> length (il_buf il)
                  then go_copy new (take (il_count il) (drop (il_head il) (il_buf il)))
                  else let n = min capacity (length (il_buf il) - il_head il)
                       in go_copy_from n (go_copy new (drop (il_head il) (il_buf il)))
                            (take (il_count il - n) (il_buf il)))
      in il\<lparr>il_buf := new', il_head := 0\<rparr>)"

definition il_enqueue :: "'a \<Rightarrow> 'a \<Rightarrow> 'a itemList \<Rightarrow> 'a itemList" where
  "il_enqueue zero i il0 =
     (let il = (if il_count il0 = length (il_buf il0)
                then il_resize zero (max itemListInitialCapacity (2 * il_count il0)) il0 else il0)
      in il\<lparr>il_buf := (il_buf il)[(il_head il + il_count il) AND (length (il_buf il) - 1) := i],
            il_count := il_count il + 1\<rparr>)"

definition il_peek :: "'a \<Rightarrow> 'a itemList \<Rightarrow> 'a" where
  "il_peek zero il = (if il_count il = 0 then zero else il_buf il ! il_head il)"

definition il_isEmpty :: "'a itemList \<Rightarrow> bool" where
  "il_isEmpty il \<longleftrightarrow> il_count il = 0"

definition il_dequeue :: "'a \<Rightarrow> 'a itemList \<Rightarrow> 'a \<times> 'a itemList" where
  "il_dequeue zero il =
     (if il_count il = 0 then (zero, il)
      else
        let ret = il_buf il ! il_head il;
            il1 = il\<lparr>il_buf := (il_buf il)[il_head il := zero],
                     il_head := (il_head il + 1) AND (length (il_buf il) - 1),
                     il_count := il_count il - 1\<rparr>
        in (ret,
            if length (il_buf il1) > itemListShrinkFloor \<and> il_count il1 * 4 = length (il_buf il1)
            then il_resize zero (length (il_buf il1) div 2) il1 else il1))"

text \<open>\<open>dequeueAll\<close> with the callback \<open>f\<close> as a state transformer.\<close>

definition il_dequeueAll :: "('a \<Rightarrow> 's \<Rightarrow> 's) \<Rightarrow> 'a itemList \<Rightarrow> 's \<Rightarrow> 's \<times> 'a itemList" where
  "il_dequeueAll f il s =
     (fold (\<lambda>i. f (il_buf il ! ((il_head il + i) AND (length (il_buf il) - 1)))) [0..<il_count il] s,
      emptyItemList)"

section \<open>Abstraction and invariant\<close>

definition slot :: "'a itemList \<Rightarrow> nat \<Rightarrow> nat" where
  "slot il i = (il_head il + i) mod length (il_buf il)"

definition il_items :: "'a itemList \<Rightarrow> 'a list" where
  "il_items il = map (\<lambda>i. il_buf il ! slot il i) [0..<il_count il]"

definition il_good :: "'a \<Rightarrow> 'a itemList \<Rightarrow> bool" where
  "il_good zero il \<longleftrightarrow>
     (il_buf il = [] \<and> il_head il = 0 \<or> (\<exists>k\<ge>2. length (il_buf il) = 2 ^ k) \<and> il_head il < length (il_buf il)) \<and>
     il_count il \<le> length (il_buf il) \<and>
     (itemListShrinkFloor < length (il_buf il) \<longrightarrow> length (il_buf il) < 4 * il_count il) \<and>
     (\<forall>i. il_count il \<le> i \<and> i < length (il_buf il) \<longrightarrow> il_buf il ! slot il i = zero)"

lemma and_mask: "n AND (2 ^ k - 1) = n mod (2 ^ k :: nat)"
proof -
  have "n AND (2 ^ k - 1) = n AND mask k" by (simp only: mask_eq_exp_minus_1)
  also have "\<dots> = n mod 2 ^ k" by (simp only: take_bit_eq_mask [symmetric] take_bit_eq_mod)
  finally show ?thesis .
qed

lemmas and_mask_Suc = and_mask [unfolded One_nat_def]

lemma il_good_empty [simp]: "il_good zero emptyItemList"
  by (simp add: il_good_def emptyItemList_def itemListShrinkFloor_def)

lemma il_items_empty [simp]: "il_items emptyItemList = []"
  by (simp add: il_items_def emptyItemList_def)

lemma length_il_items [simp]: "length (il_items il) = il_count il"
  by (simp add: il_items_def)

lemma nth_il_items: "i < il_count il \<Longrightarrow> il_items il ! i = il_buf il ! slot il i"
  by (simp add: il_items_def)

lemma slot_less: "il_buf il \<noteq> [] \<Longrightarrow> slot il i < length (il_buf il)"
  by (simp add: slot_def)

lemma slot_inj:
  assumes "slot il i = slot il j" and "i < length (il_buf il)" and "j < length (il_buf il)"
  shows "i = j"
proof -
  have *: "a = b" if "a \<le> b" "b < length (il_buf il)" "slot il a = slot il b" for a b
  proof -
    have "length (il_buf il) dvd (il_head il + b) - (il_head il + a)"
      using that by (subst mod_eq_dvd_iff_nat [symmetric]) (auto simp: slot_def)
    then have "length (il_buf il) dvd b - a" by simp
    then show ?thesis using that by (auto dest: dvd_imp_le)
  qed
  show ?thesis using *[of i j] *[of j i] assms by (cases "i \<le> j") auto
qed

lemma go_copy_eq: "length src \<le> length dst \<Longrightarrow> go_copy dst src = src @ drop (length src) dst"
  by (simp add: go_copy_def)

lemma items_straight:
  assumes "il_head il + il_count il \<le> length (il_buf il)"
  shows "il_items il = take (il_count il) (drop (il_head il) (il_buf il))"
proof (rule nth_equalityI)
  fix i assume "i < length (il_items il)"
  then have i: "i < il_count il" by simp
  then have "il_head il + i < length (il_buf il)" using assms by simp
  then show "il_items il ! i = take (il_count il) (drop (il_head il) (il_buf il)) ! i"
    using i assms by (simp add: nth_il_items slot_def)
qed (use assms in simp)

lemma items_wrapped:
  assumes "length (il_buf il) < il_head il + il_count il" and "il_count il \<le> length (il_buf il)"
    and "il_head il < length (il_buf il)"
  shows "il_items il = drop (il_head il) (il_buf il) @ take (il_count il - (length (il_buf il) - il_head il)) (il_buf il)"
proof (rule nth_equalityI)
  fix i assume "i < length (il_items il)"
  then have i: "i < il_count il" by simp
  show "il_items il ! i =
      (drop (il_head il) (il_buf il) @ take (il_count il - (length (il_buf il) - il_head il)) (il_buf il)) ! i"
  proof (cases "il_head il + i < length (il_buf il)")
    case True
    then have "i < length (il_buf il) - il_head il" by simp
    with True show ?thesis using i by (simp add: nth_il_items slot_def nth_append)
  next
    case False
    then have "(il_head il + i) mod length (il_buf il) = il_head il + i - length (il_buf il)"
      using assms i by (subst mod_if) auto
    moreover have "\<not> i < length (il_buf il) - il_head il" using False by simp
    ultimately show ?thesis using i False assms
      by (simp add: nth_il_items slot_def nth_append add.commute)
  qed
qed (use assms in simp)

lemma il_resize_eq:
  assumes "il_count il \<le> length (il_buf il)"
    and "il_buf il = [] \<and> il_head il = 0 \<or> il_head il < length (il_buf il)"
    and "il_count il \<le> capacity"
  shows "il_resize zero capacity il =
    il\<lparr>il_buf := il_items il @ replicate (capacity - il_count il) zero, il_head := 0\<rparr>"
proof (cases "il_head il + il_count il \<le> length (il_buf il)")
  case True
  then show ?thesis using assms
    by (simp add: il_resize_def items_straight go_copy_eq)
next
  case False
  let ?n = "length (il_buf il) - il_head il"
  have il_head: "il_head il < length (il_buf il)" using False assms by auto
  have n: "min capacity ?n = ?n" using False assms by simp
  show ?thesis using False assms il_head n
    by (simp add: il_resize_def items_wrapped go_copy_eq go_copy_from_def)
qed

lemma items_front: "il_count il \<le> length (il_buf il) \<Longrightarrow> il_head il = 0 \<Longrightarrow> il_items il = take (il_count il) (il_buf il)"
  using items_straight [of il] by simp

lemma il_good_index:
  assumes "il_good zero il" and "il_buf il \<noteq> []"
  shows "n AND (length (il_buf il) - 1) = n mod length (il_buf il)"
  using assms and_mask by (auto simp: il_good_def)

definition il_ok :: "'a itemList \<Rightarrow> bool" where
  "il_ok il \<longleftrightarrow> il_count il \<le> length (il_buf il) \<and>
     (il_buf il = [] \<and> il_head il = 0 \<or> il_head il < length (il_buf il))"

lemma il_good_ok: "il_good zero il \<Longrightarrow> il_ok il"
  by (auto simp: il_good_def il_ok_def)

lemma resize_ok_eq:
  "il_ok il \<Longrightarrow> il_count il \<le> capacity \<Longrightarrow>
   il_resize zero capacity il = il\<lparr>il_buf := il_items il @ replicate (capacity - il_count il) zero, il_head := 0\<rparr>"
  by (rule il_resize_eq) (auto simp: il_ok_def)

lemma resize_items:
  assumes "il_ok il" and "il_count il \<le> capacity"
  shows "il_items (il_resize zero capacity il) = il_items il"
    and "length (il_buf (il_resize zero capacity il)) = capacity"
    and "il_head (il_resize zero capacity il) = 0"
    and "il_count (il_resize zero capacity il) = il_count il"
  using resize_ok_eq [OF assms, of zero] assms(2) by (simp_all add: items_front)

text \<open>The slots that hold no item are zero after a resize as well.\<close>

lemma resize_zero:
  assumes "il_ok il" and "il_count il \<le> i" and "i < capacity" and "il_count il \<le> capacity"
  shows "il_buf (il_resize zero capacity il) ! slot (il_resize zero capacity il) i = zero"
  using resize_ok_eq [OF assms(1,4), of zero] assms(2,3) by (simp add: slot_def nth_append)

text \<open>Putting an item into the first free slot.\<close>

definition il_push :: "'a \<Rightarrow> 'a itemList \<Rightarrow> 'a itemList" where
  "il_push i il = il\<lparr>il_buf := (il_buf il)[slot il (il_count il) := i], il_count := il_count il + 1\<rparr>"

lemma items_push:
  assumes "il_count il < length (il_buf il)"
  shows "il_items (il_push i il) = il_items il @ [i]"
proof (rule nth_equalityI)
  have ne: "il_buf il \<noteq> []" using assms by auto
  fix j assume "j < length (il_items (il_push i il))"
  then have j: "j < il_count il + 1" by (simp add: il_push_def)
  have "slot (il_push i il) j = slot il j" by (simp add: slot_def il_push_def)
  moreover have "j < il_count il \<Longrightarrow> slot il (il_count il) \<noteq> slot il j"
    using assms slot_inj [of il j "il_count il"] by auto
  ultimately show "il_items (il_push i il) ! j = (il_items il @ [i]) ! j"
    using j slot_less [OF ne, of j]
    by (cases "j < il_count il") (auto simp: nth_il_items nth_append il_push_def less_Suc_eq)
qed (simp add: il_push_def)

lemma enqueue_eq_push:
  assumes "il_good zero il0"
  shows "il_enqueue zero i il0 = il_push i (if il_count il0 = length (il_buf il0)
      then il_resize zero (max itemListInitialCapacity (2 * il_count il0)) il0 else il0)"
proof (cases "il_count il0 = length (il_buf il0)")
  case True
  let ?c = "max itemListInitialCapacity (2 * il_count il0)"
  have pow: "\<exists>k. ?c = 2 ^ k"
  proof (cases "il_buf il0 = []")
    case True
    then show ?thesis using \<open>il_count il0 = _\<close>
      by (simp add: itemListInitialCapacity_def) (rule exI [of _ 2], simp)
  next
    case False
    then obtain k where k: "2 \<le> k" "length (il_buf il0) = 2 ^ k" using assms by (auto simp: il_good_def)
    have "(2::nat) ^ 2 \<le> 2 ^ k" using k(1) by (intro power_increasing) simp_all
    then have "?c = 2 ^ Suc k" using True k by (simp add: itemListInitialCapacity_def)
    then show ?thesis by blast
  qed
  then obtain k where "?c = 2 ^ k" by blast
  moreover have "length (il_buf (il_resize zero ?c il0)) = ?c"
    using il_good_ok [OF assms] by (intro resize_items) simp_all
  ultimately show ?thesis using True
    by (simp add: il_enqueue_def il_push_def slot_def Let_def and_mask_Suc)
next
  case False
  then have "il_buf il0 \<noteq> []" using assms by (auto simp: il_good_def)
  then show ?thesis using False il_good_index [OF assms]
    by (simp add: il_enqueue_def il_push_def slot_def Let_def)
qed

lemma good_push:
  assumes "il_good zero il" and "il_count il < length (il_buf il)"
  shows "il_good zero (il_push i il)"
proof -
  have "il_buf il \<noteq> []" using assms(2) by auto
  moreover have "slot il (il_count il) \<noteq> slot il j" if "il_count il < j" "j < length (il_buf il)" for j
    using slot_inj [of il "il_count il" j] that assms(2) by auto
  moreover have "slot (il_push i il) j = slot il j" for j by (simp add: slot_def il_push_def)
  ultimately show ?thesis using assms slot_less [of il]
    by (auto simp: il_good_def il_push_def)
qed

lemma good_grow:
  assumes "il_good zero il" and "il_count il = length (il_buf il)"
    and il': "il' = il_resize zero (max itemListInitialCapacity (2 * il_count il)) il"
  shows "il_items (il_push i il') = il_items il @ [i]" and "il_good zero (il_push i il')"
proof -
  let ?c = "max itemListInitialCapacity (2 * il_count il)"
  have le: "il_count il \<le> ?c" by simp
  note r = resize_items [OF il_good_ok [OF assms(1)] le, of zero, folded il']
  have room: "il_count il' < length (il_buf il')" using r by (simp add: itemListInitialCapacity_def)
  show "il_items (il_push i il') = il_items il @ [i]" using items_push [OF room] r by simp
  have ne: "il_buf il' \<noteq> []" using room by auto
  have pow: "\<exists>k\<ge>2. ?c = 2 ^ k"
  proof (cases "il_buf il = []")
    case True
    then show ?thesis using assms(2)
      by (simp add: itemListInitialCapacity_def) (rule exI [of _ 2], simp)
  next
    case False
    then obtain k where k: "2 \<le> k" "length (il_buf il) = 2 ^ k" using assms by (auto simp: il_good_def)
    have "(2::nat) ^ 2 \<le> 2 ^ k" using k(1) by (intro power_increasing) simp_all
    then have "?c = 2 ^ Suc k" using assms(2) k by (simp add: itemListInitialCapacity_def)
    then show ?thesis using k(1) by (intro exI [of _ "Suc k"]) simp
  qed
  have zero: "\<forall>j. il_count il' \<le> j \<and> j < length (il_buf il') \<longrightarrow> il_buf il' ! slot il' j = zero"
    using resize_zero [OF il_good_ok [OF assms(1)] _ _ le, of _ zero, folded il'] r by simp
  have other: "slot il' (il_count il') \<noteq> slot il' j" if "il_count il' < j" "j < length (il_buf il')" for j
    using slot_inj [of il' "il_count il'" j] that room by auto
  have same: "slot (il_push i il') j = slot il' j" for j by (simp add: slot_def il_push_def)
  show "il_good zero (il_push i il')"
    unfolding il_good_def same
    using r room pow zero other ne slot_less [OF ne]
    by (auto simp: il_push_def itemListShrinkFloor_def itemListInitialCapacity_def)
qed

lemma enqueue_correct:
  assumes "il_good zero il"
  shows "il_items (il_enqueue zero i il) = il_items il @ [i]" and "il_good zero (il_enqueue zero i il)"
proof -
  have "il_count il \<le> length (il_buf il)" using assms by (simp add: il_good_def)
  then show "il_items (il_enqueue zero i il) = il_items il @ [i]" and "il_good zero (il_enqueue zero i il)"
    using enqueue_eq_push [OF assms, of i] good_grow [OF assms _ refl, of i]
      items_push [of il i] good_push [OF assms, of i]
    by (auto split: if_splits)
qed

text \<open>Taking the first item out, before the ring is shrunk.\<close>

definition il_pop :: "'a \<Rightarrow> 'a itemList \<Rightarrow> 'a itemList" where
  "il_pop zero il = il\<lparr>il_buf := (il_buf il)[il_head il := zero], il_head := slot il 1,
     il_count := il_count il - 1\<rparr>"

lemma slot_pop:
  assumes "il_buf il \<noteq> []"
  shows "slot (il_pop zero il) j = slot il (Suc j)"
  by (simp add: slot_def il_pop_def mod_add_left_eq)

lemma pop_correct:
  assumes "il_good zero il" and "il_count il \<noteq> 0"
  shows "il_items il = il_buf il ! il_head il # il_items (il_pop zero il)"
    and "\<forall>j. il_count (il_pop zero il) \<le> j \<and> j < length (il_buf (il_pop zero il)) \<longrightarrow>
      il_buf (il_pop zero il) ! slot (il_pop zero il) j = zero"
    and "il_head (il_pop zero il) < length (il_buf (il_pop zero il))"
proof -
  have ne: "il_buf il \<noteq> []" and cl: "il_count il \<le> length (il_buf il)"
    and hd: "il_head il < length (il_buf il)"
    using assms by (auto simp: il_good_def)
  have h0: "slot il 0 = il_head il" using hd by (simp add: slot_def)
  have other: "slot il (Suc j) \<noteq> il_head il" if "Suc j < length (il_buf il)" for j
    using slot_inj [of il "Suc j" 0] that h0 ne by auto
  have wrap: "slot il (length (il_buf il)) = il_head il" using hd by (simp add: slot_def)
  show "il_items il = il_buf il ! il_head il # il_items (il_pop zero il)"
  proof (rule nth_equalityI)
    fix j assume "j < length (il_items il)"
    then have j: "j < il_count il" by simp
    show "il_items il ! j = (il_buf il ! il_head il # il_items (il_pop zero il)) ! j"
    proof (cases j)
      case 0
      then show ?thesis using j h0 by (simp add: nth_il_items)
    next
      case (Suc k)
      then have "k < il_count (il_pop zero il)" using j by (simp add: il_pop_def)
      then show ?thesis using Suc j other [of k] cl
        by (simp add: nth_il_items slot_pop [OF ne]) (simp add: il_pop_def)
    qed
  qed (use assms(2) in \<open>simp add: il_pop_def\<close>)
  show "\<forall>j. il_count (il_pop zero il) \<le> j \<and> j < length (il_buf (il_pop zero il)) \<longrightarrow>
      il_buf (il_pop zero il) ! slot (il_pop zero il) j = zero"
  proof (intro allI impI)
    fix j assume "il_count (il_pop zero il) \<le> j \<and> j < length (il_buf (il_pop zero il))"
    then have j: "il_count il \<le> Suc j" "j < length (il_buf il)" by (auto simp: il_pop_def)
    show "il_buf (il_pop zero il) ! slot (il_pop zero il) j = zero"
    proof (cases "Suc j = length (il_buf il)")
      case True
      then show ?thesis using wrap hd by (simp add: slot_pop [OF ne]) (simp add: il_pop_def)
    next
      case False
      then have "Suc j < length (il_buf il)" using j by simp
      then show ?thesis using assms(1) j other [of j]
        by (simp add: slot_pop [OF ne] il_good_def) (simp add: il_pop_def)
    qed
  qed
  show "il_head (il_pop zero il) < length (il_buf (il_pop zero il))"
    using slot_less [OF ne] by (simp add: il_pop_def)
qed

lemma good_shrink:
  assumes "il_good zero il" and "il_count il \<noteq> 0"
    and "itemListShrinkFloor < length (il_buf il)" and "(il_count il - 1) * 4 = length (il_buf il)"
    and il': "il' = il_resize zero (length (il_buf il) div 2) (il_pop zero il)"
  shows "il_items il' = il_items (il_pop zero il)" and "il_good zero il'"
proof -
  obtain k where k: "2 \<le> k" "length (il_buf il) = 2 ^ k"
    using assms(1,3) by (auto simp: il_good_def)
  have "k \<noteq> 2" using k assms(3) by (auto simp: itemListShrinkFloor_def)
  then obtain m where m: "k = Suc m" "2 \<le> m" using k(1) by (cases k) auto
  have half: "length (il_buf il) div 2 = 2 ^ m" using k m by simp
  have ok: "il_ok (il_pop zero il)"
    using pop_correct(3) [OF assms(1,2)] assms(1) by (auto simp: il_ok_def il_pop_def il_good_def)
  have cnt: "il_count (il_pop zero il) = il_count il - 1" by (simp add: il_pop_def)
  have le: "il_count (il_pop zero il) \<le> length (il_buf il) div 2"
    using assms(4) by (simp add: cnt)
  note r = resize_items [OF ok le, of zero, folded il']
  show "il_items il' = il_items (il_pop zero il)" by (rule r)
  have zero: "\<forall>j. il_count il' \<le> j \<and> j < length (il_buf il') \<longrightarrow> il_buf il' ! slot il' j = zero"
    using resize_zero [OF ok _ _ le, of _ zero, folded il'] r by simp
  have "il_head il' < length (il_buf il')" using r half by simp
  moreover have "length (il_buf il') = 2 ^ m" using r half by simp
  moreover have "il_count il' \<le> length (il_buf il')" using r le by simp
  moreover have "length (il_buf il') < 4 * il_count il'"
    using r assms(3,4) by (simp add: cnt)
  ultimately show "il_good zero il'" using m zero by (auto simp: il_good_def)
qed

lemma dequeue_eq_pop:
  assumes "il_good zero il" and "il_count il \<noteq> 0"
  shows "il_dequeue zero il = (il_buf il ! il_head il,
    if itemListShrinkFloor < length (il_buf il) \<and> (il_count il - 1) * 4 = length (il_buf il)
    then il_resize zero (length (il_buf il) div 2) (il_pop zero il) else il_pop zero il)"
proof -
  have "il_buf il \<noteq> []" using assms by (auto simp: il_good_def)
  from il_good_index [OF assms(1) this, of "il_head il + 1"] assms(2) show ?thesis
    by (simp add: il_dequeue_def il_pop_def slot_def Let_def)
qed

lemma good_pop:
  assumes "il_good zero il" and "il_count il \<noteq> 0"
    and "\<not> (itemListShrinkFloor < length (il_buf il) \<and> (il_count il - 1) * 4 = length (il_buf il))"
  shows "il_good zero (il_pop zero il)"
proof -
  have pow: "\<exists>k\<ge>2. length (il_buf il) = 2 ^ k" and four: "itemListShrinkFloor < length (il_buf il) \<longrightarrow>
      length (il_buf il) < 4 * il_count il"
    and cl: "il_count il \<le> length (il_buf il)"
    using assms(1,2) by (auto simp: il_good_def)
  obtain k where k: "2 \<le> k" "length (il_buf il) = 2 ^ k" using pow by blast
  then obtain q where "length (il_buf il) = 4 * q"
    by (metis dvd_def le_imp_power_dvd power2_eq_square mult_2 numeral_Bit0 numeral_One one_add_one)
  then have "itemListShrinkFloor < length (il_buf il) \<longrightarrow> length (il_buf il) < 4 * (il_count il - 1)"
    using four assms(3) by auto
  then show ?thesis using pop_correct(2,3) [OF assms(1,2)] pow cl
    unfolding il_good_def by (auto simp: il_pop_def)
qed

lemma dequeue_correct:
  assumes "il_good zero il" and "il_count il \<noteq> 0"
  shows "il_items il = fst (il_dequeue zero il) # il_items (snd (il_dequeue zero il))"
    and "il_good zero (snd (il_dequeue zero il))"
  using dequeue_eq_pop [OF assms] pop_correct(1) [OF assms] good_shrink [OF assms _ _ refl]
    good_pop [OF assms]
  by (auto split: if_splits)

lemma dequeueAll_correct:
  assumes "il_good zero il"
  shows "il_dequeueAll f il s = (fold f (il_items il) s, emptyItemList)"
proof -
  have "fold (\<lambda>i. f (il_buf il ! (il_head il + i AND length (il_buf il) - 1))) [0..<il_count il] s =
      fold f (map (\<lambda>i. il_buf il ! slot il i) [0..<il_count il]) s"
  proof (cases "il_buf il = []")
    case True
    then show ?thesis using assms by (simp add: il_good_def)
  next
    case False
    then show ?thesis using il_good_index [OF assms] by (simp add: fold_map slot_def o_def)
  qed
  then show ?thesis by (simp add: il_dequeueAll_def il_items_def)
qed

lemma peek_correct: "il_good zero il \<Longrightarrow> il_peek zero il = (if il_items il = [] then zero else hd (il_items il))"
  by (auto simp: il_peek_def il_items_def hd_map il_good_def slot_def)

text \<open>The queue as callers see it: a dequeue of an empty list gives nothing.\<close>

definition il_deq :: "'a \<Rightarrow> 'a itemList \<Rightarrow> 'a option \<times> 'a itemList" where
  "il_deq zero il = (if il_isEmpty il then (None, il)
     else (Some (fst (il_dequeue zero il)), snd (il_dequeue zero il)))"

interpretation ilq: fifo_queue "il_good zero" il_items "il_enqueue zero" "il_deq zero" for zero
proof unfold_locales
  fix q :: "'a itemList" and zero assume good: "il_good zero q"
  show "il_good zero (snd (il_deq zero q))"
    using good dequeue_correct(2) [OF good] by (auto simp: il_deq_def il_isEmpty_def)
  show "list_deq (il_items q) = (fst (il_deq zero q), il_items (snd (il_deq zero q)))"
  proof (cases "il_count q = 0")
    case True
    then have "il_items q = []" by (simp add: il_items_def)
    with True show ?thesis by (simp add: il_deq_def il_isEmpty_def)
  next
    case False
    then show ?thesis using dequeue_correct(1) [OF good False]
      by (simp add: il_deq_def il_isEmpty_def)
  qed
qed (auto simp: enqueue_correct)

section \<open>Properties\<close>

abbreviation il_run :: "'a \<Rightarrow> 'a qop list \<Rightarrow> 'a option list \<times> 'a itemList" where
  "il_run zero ops \<equiv> drive (il_enqueue zero) (il_deq zero) ops emptyItemList"

text \<open>
  C18: The ring buffer is a first-in first-out queue: for every sequence of enqueues and dequeues on
  the zero value of \<open>itemList\<close>, through any growing, wrapping and shrinking of the ring, the
  dequeues return what they return on a plain list, the remaining items are the same, and
  \<open>dequeueAll\<close> then calls its function on exactly those items in order.
\<close>

theorem itemList_is_fifo:
  "drive_list ops [] = (fst (il_run zero ops), il_items (snd (il_run zero ops))) \<and>
   il_dequeueAll f (snd (il_run zero ops)) s = (fold f (snd (drive_list ops [])) s, emptyItemList)"
proof -
  have run: "il_good zero (snd (il_run zero ops)) \<and>
      drive_list ops (il_items emptyItemList) = (fst (il_run zero ops), il_items (snd (il_run zero ops)))"
    by (rule ilq.drive_refines) simp
  then show ?thesis using dequeueAll_correct [of zero "snd (il_run zero ops)" f s] by simp
qed

text \<open>
  C19: A burst of queued items pins no memory: after any sequence of operations the ring's length is
  zero or a power of two, indices stay inside it, a ring longer than \<open>itemListShrinkFloor\<close> is more
  than a quarter full, and every slot that holds no queued item has been reset to the zero value.
\<close>

theorem itemList_memory_bounded:
  fixes zero :: 'a and ops :: "'a qop list"
  defines "il \<equiv> snd (il_run zero ops)"
  shows "(il_buf il = [] \<or> (\<exists>k. length (il_buf il) = 2 ^ k) \<and> il_head il < length (il_buf il))
    \<and> (length (il_buf il) \<le> itemListShrinkFloor \<or> length (il_buf il) < 4 * length (il_items il))
    \<and> (\<forall>j < length (il_buf il). j \<in> slot il ` {..<il_count il} \<or> il_buf il ! j = zero)"
proof -
  have good: "il_good zero il"
    unfolding il_def using ilq.drive_refines [of zero emptyItemList ops] by simp
  have onto: "\<exists>i < length (il_buf il). slot il i = j" if "j < length (il_buf il)" for j
  proof -
    have hd: "il_head il < length (il_buf il)" using good that by (auto simp: il_good_def)
    show ?thesis
    proof (cases "il_head il \<le> j")
      case True
      then show ?thesis using that hd by (intro exI [of _ "j - il_head il"]) (simp add: slot_def)
    next
      case False
      then show ?thesis using that hd
        by (intro exI [of _ "length (il_buf il) + j - il_head il"]) (simp add: slot_def)
    qed
  qed
  have "j \<in> slot il ` {..<il_count il} \<or> il_buf il ! j = zero" if j: "j < length (il_buf il)" for j
  proof -
    obtain i where i: "i < length (il_buf il)" "slot il i = j" using onto [OF j] by blast
    show ?thesis
    proof (cases "i < il_count il")
      case True
      then show ?thesis using i by auto
    next
      case False
      then show ?thesis using good i by (auto simp: il_good_def)
    qed
  qed
  then show ?thesis using good by (auto simp: il_good_def)
qed

lemma il_demo:
  "snd (il_run 0 [Enq (7::nat), Enq 9, Deq]) = \<lparr>il_buf = [0, 9, 0, 0], il_head = 1, il_count = 1\<rparr>"
  by code_simp

theorem itemList_memory_bounded_witness:
  "il_buf (snd (il_run 0 [Enq (7::nat), Enq 9, Deq])) = [0, 9, 0, 0] \<and>
   2 \<notin> slot (snd (il_run 0 [Enq (7::nat), Enq 9, Deq])) ` {..<1} \<and>
   length (il_buf (snd (il_run 0 [Enq (7::nat), Enq 9, Deq]))) \<le> itemListShrinkFloor"
  using itemList_memory_bounded [of 0 "[Enq (7::nat), Enq 9, Deq]", unfolded il_demo]
  unfolding il_demo by (simp add: slot_def itemListShrinkFloor_def lessThan_Suc)

end
