(* ===== verification/Linked_Queues.thy ===== *)
theory Linked_Queues
  imports Go_Prelude
begin

text \<open>
  The two pointer structures of the transport's writer (\<^verbatim>\<open>internal/transport/controlbuf.go\<close>):
  the singly linked queue of data frames of a stream, threaded through the frames themselves, and
  the doubly linked list of active streams with its two sentinels. Objects are addresses; their
  link fields are functions from addresses, and a nil dereference is the result \<open>None\<close>. Both
  structures satisfy one contract, \<open>intrusive_queue\<close>: as long as an object is queued at most once,
  they behave like a list. The writer itself is then modelled over lists.
\<close>

type_synonym addr = nat

section \<open>The contract\<close>

text \<open>Driving a queue whose enqueue may panic; objects already queued may not be queued again.\<close>

fun drive_ptr :: "('a \<Rightarrow> 'q \<Rightarrow> 'q option) \<Rightarrow> ('q \<Rightarrow> ('a option \<times> 'q) option) \<Rightarrow> 'a qop list \<Rightarrow> 'q
    \<Rightarrow> ('a option list \<times> 'q) option" where
  "drive_ptr enq deq [] q = Some ([], q)"
| "drive_ptr enq deq (Enq x # ops) q = do { q1 \<leftarrow> enq x q; drive_ptr enq deq ops q1 }"
| "drive_ptr enq deq (Deq # ops) q =
     do { (r, q1) \<leftarrow> deq q; (rs, q2) \<leftarrow> drive_ptr enq deq ops q1; Some (r # rs, q2) }"

fun single_use :: "('a \<Rightarrow> bool) \<Rightarrow> 'a qop list \<Rightarrow> 'a list \<Rightarrow> bool" where
  "single_use free [] xs = True"
| "single_use free (Enq x # ops) xs = (x \<notin> set xs \<and> free x \<and> single_use free ops (xs @ [x]))"
| "single_use free (Deq # ops) xs = single_use free ops (tl xs)"

locale intrusive_queue =
  fixes holds :: "'q \<Rightarrow> 'a list \<Rightarrow> bool"
    and free :: "'a \<Rightarrow> bool"
    and enq :: "'a \<Rightarrow> 'q \<Rightarrow> 'q option"
    and deq :: "'q \<Rightarrow> ('a option \<times> 'q) option"
  assumes holds_enq: "holds q xs \<Longrightarrow> x \<notin> set xs \<Longrightarrow> free x \<Longrightarrow> \<exists>q'. enq x q = Some q' \<and> holds q' (xs @ [x])"
    and holds_deq: "holds q xs \<Longrightarrow> \<exists>q'. deq q = Some (fst (list_deq xs), q') \<and> holds q' (snd (list_deq xs))"
begin

lemma drive_holds:
  assumes "holds q xs" and "single_use free ops xs"
  shows "\<exists>q'. drive_ptr enq deq ops q = Some (fst (drive_list ops xs), q') \<and> holds q' (snd (drive_list ops xs))"
  using assms
proof (induction ops arbitrary: q xs)
  case Nil
  then show ?case by simp
next
  case (Cons p ops)
  show ?case
  proof (cases p)
    case (Enq x)
    with Cons.prems obtain q1 where q1: "enq x q = Some q1" "holds q1 (xs @ [x])"
      using holds_enq by (metis single_use.simps(2))
    with Enq Cons.IH [OF q1(2)] Cons.prems show ?thesis by auto
  next
    case Deq
    obtain q1 where q1: "deq q = Some (fst (list_deq xs), q1)" "holds q1 (snd (list_deq xs))"
      using holds_deq [OF Cons.prems(1)] by blast
    have "snd (list_deq xs) = tl xs" by (cases xs) simp_all
    with Deq Cons.prems(2) have "single_use free ops (snd (list_deq xs))" by simp
    from Cons.IH [OF q1(2) this] q1(1) Deq show ?thesis by (auto split: prod.splits)
  qed
qed

end

section \<open>The data frames of a stream\<close>

text \<open>
  \<open>frameNext\<close> is the field \<open>next\<close> of the data frames; \<open>dataHead\<close> and \<open>dataTail\<close> are the
  fields of the \<open>outStream\<close>.
\<close>

record data_queue =
  frameNext :: "addr \<Rightarrow> addr option"
  dataHead :: "addr option"
  dataTail :: "addr option"

definition enqueueData :: "addr \<Rightarrow> data_queue \<Rightarrow> data_queue option" where
  "enqueueData df s =
     (let s1 = s\<lparr>frameNext := (frameNext s)(df := None)\<rparr>;
          s2 = (case dataTail s1 of
                  None \<Rightarrow> s1\<lparr>dataHead := Some df\<rparr>
                | Some t \<Rightarrow> s1\<lparr>frameNext := (frameNext s1)(t := Some df)\<rparr>)
      in Some (s2\<lparr>dataTail := Some df\<rparr>))"

definition dequeueData :: "data_queue \<Rightarrow> (addr option \<times> data_queue) option" where
  "dequeueData s =
     (case dataHead s of
        None \<Rightarrow> Some (None, s)
      | Some df \<Rightarrow>
          let s1 = s\<lparr>dataHead := frameNext s df\<rparr>;
              s2 = s1\<lparr>frameNext := (frameNext s1)(df := None)\<rparr>
          in Some (Some df, if dataHead s2 = None then s2\<lparr>dataTail := None\<rparr> else s2))"

fun frame_chain :: "(addr \<Rightarrow> addr option) \<Rightarrow> addr list \<Rightarrow> bool" where
  "frame_chain nx [] = True"
| "frame_chain nx [x] = (nx x = None)"
| "frame_chain nx (x # y # xs) = (nx x = Some y \<and> frame_chain nx (y # xs))"

definition data_holds :: "data_queue \<Rightarrow> addr list \<Rightarrow> bool" where
  "data_holds s xs \<longleftrightarrow> distinct xs \<and> frame_chain (frameNext s) xs \<and>
     dataHead s = (if xs = [] then None else Some (hd xs)) \<and>
     dataTail s = (if xs = [] then None else Some (last xs))"

lemma frame_chain_cong:
  "(\<And>x. x \<in> set xs \<Longrightarrow> nx x = nx' x) \<Longrightarrow> frame_chain nx xs = frame_chain nx' xs"
  by (induction nx xs rule: frame_chain.induct) auto

lemma frame_chain_snoc:
  "distinct (xs @ [x]) \<Longrightarrow> xs \<noteq> [] \<Longrightarrow> frame_chain nx xs \<Longrightarrow>
   frame_chain (nx(x := None, last xs := Some x)) (xs @ [x])"
proof (induction nx xs rule: frame_chain.induct)
  case (3 nx a b xs)
  let ?nx = "nx(x := None, last (b # xs) := Some x)"
  have "frame_chain ?nx ((b # xs) @ [x])" using 3(2,4) by (intro 3(1)) auto
  moreover have "a \<noteq> last (b # xs)" using 3(2) last_in_set [of "b # xs"] by auto
  then have "?nx a = Some b" using 3(2,4) by simp
  moreover have "last (a # b # xs) = last (b # xs)" by simp
  ultimately show ?case by (simp only: append_Cons frame_chain.simps)
qed auto

lemma frame_chain_tl:
  "frame_chain nx (x # xs) \<Longrightarrow> nx x = (if xs = [] then None else Some (hd xs)) \<and> frame_chain nx xs"
  by (cases xs) auto

interpretation dataq: intrusive_queue data_holds "\<lambda>_. True" enqueueData dequeueData
proof
  fix q xs and x :: addr assume h: "data_holds q xs" and x: "x \<notin> set xs"
  have d: "distinct (xs @ [x])" using h x by (simp add: data_holds_def)
  show "\<exists>q'. enqueueData x q = Some q' \<and> data_holds q' (xs @ [x])"
    using h frame_chain_snoc [OF d, of "frameNext q"] d
    by (cases "xs = []") (auto simp: enqueueData_def data_holds_def Let_def)
next
  fix q and xs :: "addr list" assume h: "data_holds q xs"
  show "\<exists>q'. dequeueData q = Some (fst (list_deq xs), q') \<and> data_holds q' (snd (list_deq xs))"
  proof (cases xs)
    case Nil
    then show ?thesis using h by (simp add: dequeueData_def data_holds_def)
  next
    case (Cons y ys)
    have "frame_chain ((frameNext q)(y := None)) ys \<longleftrightarrow> frame_chain (frameNext q) ys"
      using h Cons by (intro frame_chain_cong) (auto simp: data_holds_def)
    then show ?thesis using h Cons frame_chain_tl [of "frameNext q" y ys]
      by (auto simp: dequeueData_def data_holds_def Let_def split: if_splits)
  qed
qed

section \<open>The list of active streams\<close>

text \<open>
  \<open>nextOf\<close> and \<open>prevOf\<close> are the fields \<open>next\<close> and \<open>prev\<close> of the \<open>outStream\<close> objects;
  \<open>listHead\<close> and \<open>listTail\<close> are the sentinels of \<open>outStreamList\<close>.
\<close>

record outStreamList =
  nextOf :: "addr \<Rightarrow> addr option"
  prevOf :: "addr \<Rightarrow> addr option"
  listHead :: addr
  listTail :: addr

text \<open>The two sentinels are fresh objects \<open>h\<close> and \<open>t\<close>.\<close>

definition newOutStreamList :: "addr \<Rightarrow> addr \<Rightarrow> outStreamList" where
  "newOutStreamList h t =
     \<lparr>nextOf = (\<lambda>_. None)(h := Some t), prevOf = (\<lambda>_. None)(t := Some h),
      listHead = h, listTail = t\<rparr>"

definition deleteSelf :: "addr \<Rightarrow> outStreamList \<Rightarrow> outStreamList" where
  "deleteSelf s l =
     (let l1 = (case prevOf l s of None \<Rightarrow> l
                | Some p \<Rightarrow> l\<lparr>nextOf := (nextOf l)(p := nextOf l s)\<rparr>);
          l2 = (case nextOf l1 s of None \<Rightarrow> l1
                | Some n \<Rightarrow> l1\<lparr>prevOf := (prevOf l1)(n := prevOf l1 s)\<rparr>)
      in l2\<lparr>nextOf := (nextOf l2)(s := None), prevOf := (prevOf l2)(s := None)\<rparr>)"

definition osl_enqueue :: "addr \<Rightarrow> outStreamList \<Rightarrow> outStreamList option" where
  "osl_enqueue s l =
     (case prevOf l (listTail l) of
        None \<Rightarrow> None
      | Some e \<Rightarrow>
          let l1 = l\<lparr>nextOf := (nextOf l)(e := Some s)\<rparr>;
              l2 = l1\<lparr>prevOf := (prevOf l1)(s := Some e)\<rparr>;
              l3 = l2\<lparr>nextOf := (nextOf l2)(s := Some (listTail l2))\<rparr>
          in Some (l3\<lparr>prevOf := (prevOf l3)(listTail l3 := Some s)\<rparr>))"

definition osl_dequeue :: "outStreamList \<Rightarrow> (addr option \<times> outStreamList) option" where
  "osl_dequeue l =
     (case nextOf l (listHead l) of
        None \<Rightarrow> None
      | Some b \<Rightarrow> if b = listTail l then Some (None, l) else Some (Some b, deleteSelf b l))"

fun dchain :: "(addr \<Rightarrow> addr option) \<Rightarrow> (addr \<Rightarrow> addr option) \<Rightarrow> addr list \<Rightarrow> bool" where
  "dchain nx pv (x # y # xs) = (nx x = Some y \<and> pv y = Some x \<and> dchain nx pv (y # xs))"
| "dchain nx pv _ = True"

abbreviation whole :: "outStreamList \<Rightarrow> addr list \<Rightarrow> addr list" where
  "whole l xs \<equiv> listHead l # xs @ [listTail l]"

definition osl_holds :: "outStreamList \<Rightarrow> addr list \<Rightarrow> bool" where
  "osl_holds l xs \<longleftrightarrow> distinct (whole l xs) \<and> dchain (nextOf l) (prevOf l) (whole l xs) \<and>
     prevOf l (listHead l) = None \<and> nextOf l (listTail l) = None \<and>
     (\<forall>x. x \<notin> set (whole l xs) \<longrightarrow> nextOf l x = None \<and> prevOf l x = None)"

lemma dchain_append:
  "dchain nx pv (xs @ a # ys) \<longleftrightarrow> dchain nx pv (xs @ [a]) \<and> dchain nx pv (a # ys)"
proof (induction xs)
  case (Cons x xs)
  then show ?case by (cases xs) auto
qed simp

lemma dchain_cong:
  "(\<And>x. x \<in> set (butlast xs) \<Longrightarrow> nx x = nx' x) \<Longrightarrow> (\<And>x. x \<in> set (tl xs) \<Longrightarrow> pv x = pv' x) \<Longrightarrow>
   dchain nx pv xs = dchain nx' pv' xs"
proof (induction xs)
  case (Cons x xs)
  then show ?case by (cases xs) auto
qed simp

text \<open>A queued stream stands between two neighbours.\<close>

lemma osl_split:
  assumes "osl_holds l xs" and "x \<in> set xs"
  obtains as a b bs where "whole l xs = as @ a # x # b # bs"
    and "nextOf l x = Some b" and "prevOf l x = Some a"
    and "whole l (remove1 x xs) = as @ a # b # bs"
proof -
  obtain us vs where x: "xs = us @ x # vs" using assms(2) by (auto simp: in_set_conv_decomp)
  have d: "distinct xs" using assms(1) by (simp add: osl_holds_def)
  obtain as a where a: "listHead l # us = as @ [a]" by (cases "listHead l # us" rule: rev_cases) auto
  obtain b bs where b: "vs @ [listTail l] = b # bs" by (cases "vs @ [listTail l]") auto
  have "whole l xs = (listHead l # us) @ x # (vs @ [listTail l])" using x by simp
  then have w: "whole l xs = as @ a # x # b # bs" unfolding a b by simp
  have "dchain (nextOf l) (prevOf l) (as @ a # x # b # bs)"
    using assms(1) w by (simp add: osl_holds_def)
  then have "dchain (nextOf l) (prevOf l) (a # x # b # bs)" by (subst (asm) dchain_append) simp
  then have "nextOf l x = Some b" "prevOf l x = Some a" by simp_all
  moreover have "remove1 x xs = us @ vs" using x d by (simp add: remove1_append)
  then have "whole l (remove1 x xs) = (listHead l # us) @ (vs @ [listTail l])" by simp
  then have "whole l (remove1 x xs) = as @ a # b # bs" unfolding a b by simp
  ultimately show thesis using w by (intro that)
qed

lemma set_tl_subset: "set (tl xs) \<subseteq> set xs"
  by (cases xs) auto

lemma dchain_frame:
  "dchain nx pv xs \<Longrightarrow> (\<forall>x \<in> set (butlast xs). nx' x = nx x) \<Longrightarrow> (\<forall>x \<in> set (tl xs). pv' x = pv x) \<Longrightarrow>
   dchain nx' pv' xs"
  using dchain_cong [of xs nx' nx pv' pv] by auto

lemma osl_holdsI:
  assumes "whole l xs = ys" and "distinct ys" and "dchain (nextOf l) (prevOf l) ys"
    and "prevOf l (listHead l) = None" and "nextOf l (listTail l) = None"
    and "\<And>y. y \<notin> set ys \<Longrightarrow> nextOf l y = None \<and> prevOf l y = None"
  shows "osl_holds l xs"
  using assms unfolding osl_holds_def by blast

lemma deleteSelf_queued:
  assumes "osl_holds l xs" and "x \<in> set xs"
  shows "osl_holds (deleteSelf x l) (remove1 x xs)"
proof -
  obtain as a b bs where w: "whole l xs = as @ a # x # b # bs"
    and n: "nextOf l x = Some b" and p: "prevOf l x = Some a"
    and w': "whole l (remove1 x xs) = as @ a # b # bs"
    using osl_split [OF assms] by blast
  have d: "distinct (as @ a # x # b # bs)" and c: "dchain (nextOf l) (prevOf l) (as @ a # x # b # bs)"
    using assms(1) w by (simp_all add: osl_holds_def)
  have ne: "x \<noteq> a" "x \<noteq> b" "a \<noteq> b" using d by auto
  let ?nx = "(nextOf l)(a := Some b, x := None)" and ?pv = "(prevOf l)(b := Some a, x := None)"
  have l': "deleteSelf x l = l\<lparr>nextOf := ?nx, prevOf := ?pv\<rparr>"
    using n p ne by (simp add: deleteSelf_def Let_def)
  have c1: "dchain (nextOf l) (prevOf l) (as @ [a])" and c2: "dchain (nextOf l) (prevOf l) (b # bs)"
    using c dchain_append [of _ _ as a "x # b # bs"] by simp_all
  have left: "?nx y = nextOf l y" if "y \<in> set as" for y using that d by auto
  have left': "?pv y = prevOf l y" if "y \<in> set (as @ [a])" for y using that d by auto
  have right: "?nx y = nextOf l y" if "y \<in> set (b # bs)" for y using that d by auto
  have right': "?pv y = prevOf l y" if "y \<in> set bs" for y using that d by auto
  have "dchain ?nx ?pv (as @ [a])"
    by (rule dchain_frame [OF c1]) (use left left' set_tl_subset [of "as @ [a]"] in \<open>simp_all only: butlast_snoc, blast+\<close>)
  moreover have "dchain ?nx ?pv (b # bs)"
    by (rule dchain_frame [OF c2]) (use right right' in_set_butlastD [of _ "b # bs"] in \<open>simp_all only: list.sel, blast+\<close>)
  ultimately have chain: "dchain ?nx ?pv (as @ a # b # bs)"
    using ne by (subst dchain_append) simp
  have "listHead l = hd (as @ [a])" and "listTail l = last (b # bs)"
    using arg_cong [OF w, of hd] arg_cong [OF w, of last] by (simp_all add: hd_append)
  then have "listHead l \<in> set (as @ [a])" and "listTail l \<in> set (b # bs)"
    using hd_in_set [of "as @ [a]"] last_in_set [of "b # bs"] by (metis snoc_eq_iff_butlast, metis list.discI)
  then have ends: "listHead l \<noteq> x" "listHead l \<noteq> b" "listTail l \<noteq> x" "listTail l \<noteq> a" using d by auto
  have sets: "set (whole l xs) = insert x (set (as @ a # b # bs))" using w by auto
  have out: "nextOf l y = None" "prevOf l y = None" if "y \<notin> set (whole l xs)" for y
    using assms(1) that by (simp_all add: osl_holds_def)
  have "nextOf (deleteSelf x l) y = None \<and> prevOf (deleteSelf x l) y = None"
    if y: "y \<notin> set (as @ a # b # bs)" for y
  proof (cases "y = x")
    case False
    then have "y \<notin> set (whole l xs)" using y unfolding sets by simp
    from out [OF this] show ?thesis using y False by (simp add: l')
  qed (simp add: l')
  moreover have "prevOf l (listHead l) = None" "nextOf l (listTail l) = None"
    using assms(1) by (simp_all add: osl_holds_def)
  ultimately show ?thesis
    using chain w' d ends by (intro osl_holdsI [of _ _ "as @ a # b # bs"]) (simp_all add: l')
qed

lemma deleteSelf_detached:
  assumes "osl_holds l xs" and "x \<notin> set (whole l xs)"
  shows "deleteSelf x l = l"
proof -
  have "nextOf l x = None" "prevOf l x = None" using assms by (simp_all add: osl_holds_def)
  moreover from this have "(nextOf l)(x := None) = nextOf l" "(prevOf l)(x := None) = prevOf l"
    by (simp_all add: fun_upd_idem)
  ultimately show ?thesis by (simp add: deleteSelf_def)
qed

lemma osl_enqueue_holds:
  assumes "osl_holds l xs" and "x \<notin> set (whole l xs)"
  shows "\<exists>l'. osl_enqueue x l = Some l' \<and> osl_holds l' (xs @ [x]) \<and>
    listHead l' = listHead l \<and> listTail l' = listTail l"
proof -
  obtain as e where e: "listHead l # xs = as @ [e]" by (cases "listHead l # xs" rule: rev_cases) auto
  let ?t = "listTail l"
  have w: "whole l xs = as @ e # [?t]" using e by simp
  have d: "distinct (as @ e # [?t])" and c: "dchain (nextOf l) (prevOf l) (as @ e # [?t])"
    using assms(1) w by (simp_all add: osl_holds_def)
  have x: "x \<notin> set as" "x \<noteq> e" "x \<noteq> ?t" using assms(2) w by auto
  have c1: "dchain (nextOf l) (prevOf l) (as @ [e])" and pt: "prevOf l ?t = Some e"
    using c dchain_append [of _ _ as e "[?t]"] by simp_all
  let ?nx = "(nextOf l)(e := Some x, x := Some ?t)" and ?pv = "(prevOf l)(x := Some e, ?t := Some x)"
  have l': "osl_enqueue x l = Some (l\<lparr>nextOf := ?nx, prevOf := ?pv\<rparr>)"
    using pt by (simp add: osl_enqueue_def Let_def)
  have "set (tl (as @ [e])) \<subseteq> set as \<union> {e}" using set_tl_subset [of "as @ [e]"] by simp
  then have "dchain ?nx ?pv (as @ [e])" using c1 d x by (force elim!: dchain_frame)
  then have chain: "dchain ?nx ?pv (as @ e # [x, ?t])" using x d by (subst dchain_append) auto
  have w': "listHead l # (xs @ [x]) @ [?t] = as @ e # [x, ?t]" using e by simp
  have "listHead l = hd (as @ [e])" using arg_cong [OF w, of hd] by (simp add: hd_append)
  then have "listHead l \<in> set (as @ [e])" using hd_in_set [of "as @ [e]"] by simp
  then have ends: "listHead l \<noteq> x" "listHead l \<noteq> ?t" "?t \<noteq> e" using d x by auto
  have out: "nextOf l y = None" "prevOf l y = None" if "y \<notin> set (whole l xs)" for y
    using assms(1) that by (simp_all add: osl_holds_def)
  have "?nx y = None \<and> ?pv y = None" if "y \<notin> set (as @ e # [x, ?t])" for y
    using that out [of y] w by auto
  moreover have "distinct (as @ e # [x, ?t])" using d x by auto
  moreover have "prevOf l (listHead l) = None" "nextOf l (listTail l) = None"
    using assms(1) by (simp_all add: osl_holds_def)
  ultimately have "osl_holds (l\<lparr>nextOf := ?nx, prevOf := ?pv\<rparr>) (xs @ [x])"
    using chain w' ends x by (intro osl_holdsI [of _ _ "as @ e # [x, ?t]"]) simp_all
  then show ?thesis using l' by simp
qed

text \<open>
  The writer's list between the fixed sentinels \<open>h\<close> and \<open>t\<close>: the streams it may hold are all other
  objects.
\<close>

definition osl_between :: "addr \<Rightarrow> addr \<Rightarrow> outStreamList \<Rightarrow> addr list \<Rightarrow> bool" where
  "osl_between h t l xs \<longleftrightarrow> osl_holds l xs \<and> listHead l = h \<and> listTail l = t"

lemma osl_new: "h \<noteq> t \<Longrightarrow> osl_between h t (newOutStreamList h t) []"
  by (simp add: osl_between_def osl_holds_def newOutStreamList_def)

lemma deleteSelf_ends:
  "listHead (deleteSelf x l) = listHead l" "listTail (deleteSelf x l) = listTail l"
  by (simp_all add: deleteSelf_def Let_def split: option.splits)

interpretation oslq: intrusive_queue "osl_between h t" "\<lambda>x. x \<noteq> h \<and> x \<noteq> t" osl_enqueue osl_dequeue
  for h t
proof
  fix q xs and x :: addr
  assume h: "osl_between h t q xs" and x: "x \<notin> set xs" "x \<noteq> h \<and> x \<noteq> t"
  have "x \<notin> set (whole q xs)" using h x by (auto simp: osl_between_def)
  then show "\<exists>q'. osl_enqueue x q = Some q' \<and> osl_between h t q' (xs @ [x])"
    using osl_enqueue_holds [of q xs x] h by (auto simp: osl_between_def)
next
  fix q and xs :: "addr list" assume h: "osl_between h t q xs"
  show "\<exists>q'. osl_dequeue q = Some (fst (list_deq xs), q') \<and> osl_between h t q' (snd (list_deq xs))"
  proof (cases xs)
    case Nil
    then have "nextOf q (listHead q) = Some (listTail q)"
      using h by (auto simp: osl_between_def osl_holds_def)
    then show ?thesis using h Nil by (simp add: osl_dequeue_def)
  next
    case (Cons y ys)
    then have "nextOf q (listHead q) = Some y" and "y \<noteq> listTail q"
      using h by (auto simp: osl_between_def osl_holds_def)
    moreover have "osl_holds (deleteSelf y q) ys"
      using deleteSelf_queued [of q xs y] h Cons by (simp add: osl_between_def)
    ultimately show ?thesis using h Cons by (simp add: osl_dequeue_def osl_between_def deleteSelf_ends)
  qed
qed

section \<open>Properties\<close>

text \<open>
  C20: The doubly linked list of active streams implements a list of streams: from the empty list,
  any sequence of enqueues and dequeues in which no stream is queued twice runs without a nil
  dereference and returns the streams in the order of a plain list; and \<open>deleteSelf\<close>, called on a
  stream without knowing the list it is in, removes exactly that stream from the list, and does
  nothing for a stream that is in no list.
\<close>

theorem activeStreams_refine_list:
  assumes "h \<noteq> t" and "single_use (\<lambda>x. x \<noteq> h \<and> x \<noteq> t) ops []"
  shows "\<exists>l. drive_ptr osl_enqueue osl_dequeue ops (newOutStreamList h t) = Some (fst (drive_list ops []), l)
    \<and> osl_between h t l (snd (drive_list ops []))
    \<and> (\<forall>x. x \<noteq> h \<and> x \<noteq> t \<longrightarrow> osl_between h t (deleteSelf x l) (remove1 x (snd (drive_list ops []))))"
proof -
  obtain l where l: "drive_ptr osl_enqueue osl_dequeue ops (newOutStreamList h t) = Some (fst (drive_list ops []), l)"
    and holds: "osl_between h t l (snd (drive_list ops []))"
    using oslq.drive_holds [OF osl_new [OF assms(1)] assms(2)] by blast
  have "osl_between h t (deleteSelf x l) (remove1 x (snd (drive_list ops [])))"
    if x: "x \<noteq> h \<and> x \<noteq> t" for x
  proof (cases "x \<in> set (snd (drive_list ops []))")
    case True
    then show ?thesis using holds deleteSelf_queued
      by (simp add: osl_between_def deleteSelf_ends)
  next
    case False
    then have "deleteSelf x l = l"
      using holds x by (intro deleteSelf_detached) (auto simp: osl_between_def)
    then show ?thesis using holds False by (simp add: remove1_idem)
  qed
  with l holds show ?thesis by blast
qed

theorem activeStreams_refine_list_witness:
  "\<exists>l. drive_ptr osl_enqueue osl_dequeue [Enq 5, Enq 6, Deq, Enq 5] (newOutStreamList 1 2) = Some ([Some 5], l)
     \<and> osl_between 1 2 l [6, 5] \<and> osl_between 1 2 (deleteSelf 6 l) [5]"
proof -
  obtain l where "drive_ptr osl_enqueue osl_dequeue [Enq 5, Enq 6, Deq, Enq 5] (newOutStreamList 1 2) =
      Some ([Some 5], l)" and "osl_between 1 2 l [6, 5]"
    and rm: "\<forall>x. x \<noteq> 1 \<and> x \<noteq> 2 \<longrightarrow> osl_between 1 2 (deleteSelf x l) (remove1 x [6, 5])"
    using activeStreams_refine_list [of 1 2 "[Enq 5, Enq 6, Deq, Enq 5]"] by (simp del: drive_ptr.simps) blast
  moreover have "osl_between 1 2 (deleteSelf 6 l) [5]" using rm [THEN spec, of 6] by simp
  ultimately show ?thesis by blast
qed

text \<open>
  C21: The queue of data frames threaded through the frames implements a list: from the empty queue,
  any sequence of \<open>enqueueData\<close> and \<open>dequeueData\<close> in which a frame is in the queue at most once
  returns the frames in the order of a plain list, and the stream's head and tail always point to
  the first and the last frame queued.
\<close>

theorem dataFrames_refine_list:
  assumes "single_use (\<lambda>_. True) ops []"
  shows "\<exists>q. drive_ptr enqueueData dequeueData ops \<lparr>frameNext = nx, dataHead = None, dataTail = None\<rparr>
      = Some (fst (drive_list ops []), q) \<and> data_holds q (snd (drive_list ops []))"
  by (rule dataq.drive_holds [OF _ assms]) (simp add: data_holds_def)

theorem dataFrames_refine_list_witness:
  "\<exists>q. drive_ptr enqueueData dequeueData [Enq 5, Enq 6, Deq, Enq 5]
      \<lparr>frameNext = (\<lambda>_. Some 9), dataHead = None, dataTail = None\<rparr> = Some ([Some 5], q) \<and> data_holds q [6, 5]"
  using dataFrames_refine_list [of "[Enq 5, Enq 6, Deq, Enq 5]"] by simp

end
