(* ===== verification/Mem_Buffers.thy ===== *)
theory Mem_Buffers
  imports Linked_Queues
begin

text \<open>
  Reference-counted byte buffers (\<^verbatim>\<open>mem/buffers.go\<close>). Buffer objects live at addresses;
  a view made by \<open>Slice\<close> or \<open>split\<close> keeps its root alive through the root's reference count, and
  the root returns its slice to the pool when the count reaches zero. Panics are the result
  \<open>None\<close>. Freed objects go back to an object pool; every operation that takes an object from it
  has the address it was given as its first argument, so the lemmas hold for every reuse of
  freed objects.
\<close>

section \<open>Slices\<close>

text \<open>
  A Go slice of bytes is its backing array from the slice's start to its capacity, and its length.
  Slicing checks its upper bound against the capacity, not the length.
\<close>

record goslice =
  backing :: "byte list"
  slen :: nat

definition sbytes :: "goslice \<Rightarrow> byte list" where
  "sbytes s = take (slen s) (backing s)"

abbreviation scap :: "goslice \<Rightarrow> nat" where
  "scap s \<equiv> length (backing s)"

definition swf :: "goslice \<Rightarrow> bool" where
  "swf s \<longleftrightarrow> slen s \<le> scap s"

definition nilslice :: goslice where
  "nilslice = \<lparr>backing = [], slen = 0\<rparr>"

definition of_bytes :: "byte list \<Rightarrow> goslice" where
  "of_bytes xs = \<lparr>backing = xs, slen = length xs\<rparr>"

text \<open>\<open>s[i:j]\<close> and \<open>s[i:]\<close>\<close>

definition reslice :: "nat \<Rightarrow> nat \<Rightarrow> goslice \<Rightarrow> goslice option" where
  "reslice i j s = (if i \<le> j \<and> j \<le> scap s then Some \<lparr>backing = drop i (backing s), slen = j - i\<rparr> else None)"

definition reslice_from :: "nat \<Rightarrow> goslice \<Rightarrow> goslice option" where
  "reslice_from i s = (if i \<le> slen s then Some \<lparr>backing = drop i (backing s), slen = slen s - i\<rparr> else None)"

lemma length_sbytes: "swf s \<Longrightarrow> length (sbytes s) = slen s"
  by (simp add: sbytes_def swf_def)

lemma sbytes_nil [simp]: "sbytes nilslice = []"
  by (simp add: sbytes_def nilslice_def)

lemma sbytes_of_bytes [simp]: "sbytes (of_bytes xs) = xs" "swf (of_bytes xs)"
  by (simp_all add: sbytes_def of_bytes_def swf_def)

lemma reslice_inside:
  "swf s \<Longrightarrow> i \<le> j \<Longrightarrow> j \<le> slen s \<Longrightarrow>
   \<exists>t. reslice i j s = Some t \<and> swf t \<and> sbytes t = take (j - i) (drop i (sbytes s))"
  by (auto simp: reslice_def swf_def sbytes_def drop_take)

lemma reslice_from_inside:
  "swf s \<Longrightarrow> i \<le> slen s \<Longrightarrow> \<exists>t. reslice_from i s = Some t \<and> swf t \<and> sbytes t = drop i (sbytes s)"
  by (auto simp: reslice_from_def swf_def sbytes_def drop_take)

section \<open>Buffer objects\<close>

text \<open>A slice handed out by a buffer pool has an identity, which the pool gets back.\<close>

record poolslice =
  sliceId :: nat
  pslice :: goslice

text \<open>The 32-bit counter is an integer here: it would take \<open>2\<^sup>3\<^sup>1\<close> references to wrap it.\<close>

record buffer =
  refs :: int
  bdata :: goslice
  rootBuf :: "addr option"
  origData :: "nat option"
  bpool :: "nat option"

definition blank :: buffer where
  "blank = \<lparr>refs = 0, bdata = nilslice, rootBuf = None, origData = None, bpool = None\<rparr>"

text \<open>\<open>puts\<close> records the slices returned to buffer pools, as pairs of pool and slice.\<close>

record mem =
  objs :: "addr \<Rightarrow> buffer"
  puts :: "(nat \<times> nat option) list"

datatype Buffer = EmptyBuffer | SliceBuffer goslice | BufferRef addr

definition upd :: "addr \<Rightarrow> (buffer \<Rightarrow> buffer) \<Rightarrow> mem \<Rightarrow> mem" where
  "upd a f m = m\<lparr>objs := (objs m)(a := f (objs m a))\<rparr>"

definition BufferPoolingThreshold :: nat where
  "BufferPoolingThreshold = 1024"

definition IsBelowBufferPoolingThreshold :: "nat \<Rightarrow> bool" where
  "IsBelowBufferPoolingThreshold sz \<longleftrightarrow> sz \<le> BufferPoolingThreshold"

definition NewBuffer :: "addr \<Rightarrow> poolslice \<Rightarrow> nat option \<Rightarrow> mem \<Rightarrow> Buffer \<times> mem" where
  "NewBuffer a data pool m =
     (if pool = None \<or> IsBelowBufferPoolingThreshold (scap (pslice data))
      then (SliceBuffer (pslice data), m)
      else (BufferRef a,
            upd a (\<lambda>b. b\<lparr>origData := Some (sliceId data), bdata := pslice data, bpool := pool,
                         rootBuf := Some a, refs := 1\<rparr>) m))"

text \<open>\<open>Copy\<close>; \<open>get n\<close> is the slice the pool hands out for \<open>n\<close> bytes.\<close>

definition Copy :: "addr \<Rightarrow> (nat \<Rightarrow> poolslice) \<Rightarrow> byte list \<Rightarrow> nat option \<Rightarrow> mem \<Rightarrow> Buffer \<times> mem" where
  "Copy a get data pool m =
     (if IsBelowBufferPoolingThreshold (length data) then (SliceBuffer (of_bytes data), m)
      else
        let buf = get (length data);
            s = pslice buf;
            filled = s\<lparr>backing := take (slen s) data @ drop (length (take (slen s) data)) (backing s)\<rparr>
        in NewBuffer a (buf\<lparr>pslice := filled\<rparr>) pool m)"

definition buf_ReadOnlyData :: "addr \<Rightarrow> mem \<Rightarrow> goslice option" where
  "buf_ReadOnlyData a m = (if rootBuf (objs m a) = None then None else Some (bdata (objs m a)))"

definition buf_Ref :: "addr \<Rightarrow> mem \<Rightarrow> mem option" where
  "buf_Ref a m =
     (let m1 = upd a (\<lambda>b. b\<lparr>refs := refs b + 1\<rparr>) m
      in if refs (objs m1 a) \<le> 1 then None else Some m1)"

partial_function (option) buf_Free :: "addr \<Rightarrow> mem \<Rightarrow> mem option" where
  "buf_Free a m =
     (let m1 = upd a (\<lambda>b. b\<lparr>refs := refs b - 1\<rparr>) m;
          n = refs (objs m1 a)
      in if n < 0 then None
         else if n > 0 then Some m1
         else
           let m2 = upd a (\<lambda>b. b\<lparr>bdata := nilslice\<rparr>) m1;
               o2 = objs m2 a
           in if rootBuf o2 = Some a then
                let m3 = (case bpool o2 of
                            None \<Rightarrow> m2
                          | Some p \<Rightarrow> upd a (\<lambda>b. b\<lparr>bpool := None\<rparr>)
                              (m2\<lparr>puts := puts m2 @ [(p, origData o2)]\<rparr>))
                in Some (upd a (\<lambda>b. b\<lparr>origData := None, rootBuf := None\<rparr>) m3)
              else
                (case rootBuf o2 of
                   None \<Rightarrow> None
                 | Some r \<Rightarrow> do { m3 \<leftarrow> buf_Free r m2; Some (upd a (\<lambda>b. b\<lparr>rootBuf := None\<rparr>) m3) }))"

definition buf_Slice :: "addr \<Rightarrow> addr \<Rightarrow> nat \<Rightarrow> nat \<Rightarrow> mem \<Rightarrow> (Buffer \<times> mem) option" where
  "buf_Slice s a start fin m =
     (case rootBuf (objs m a) of
        None \<Rightarrow> None
      | Some r \<Rightarrow> do {
          data \<leftarrow> reslice start fin (bdata (objs m a));
          if slen data = 0 then Some (EmptyBuffer, m)
          else if slen data = slen (bdata (objs m a)) then do { m1 \<leftarrow> buf_Ref a m; Some (BufferRef a, m1) }
          else do {
            m1 \<leftarrow> buf_Ref r m;
            Some (BufferRef s, upd s (\<lambda>b. b\<lparr>bdata := data, rootBuf := rootBuf (objs m1 a), refs := 1\<rparr>) m1)
          }
        })"

definition buf_split :: "addr \<Rightarrow> addr \<Rightarrow> nat \<Rightarrow> mem \<Rightarrow> (Buffer \<times> Buffer \<times> mem) option" where
  "buf_split s a n m =
     (case rootBuf (objs m a) of
        None \<Rightarrow> None
      | Some r \<Rightarrow>
          let m1 = upd r (\<lambda>b. b\<lparr>refs := refs b + 1\<rparr>) m
          in if refs (objs m1 r) \<le> 1 then None
             else do {
               right \<leftarrow> reslice_from n (bdata (objs m1 a));
               let m2 = upd s (\<lambda>b. b\<lparr>bdata := right, rootBuf := rootBuf (objs m1 a), refs := 1\<rparr>) m1;
               left \<leftarrow> reslice 0 n (bdata (objs m2 a));
               Some (BufferRef a, BufferRef s, upd a (\<lambda>b. b\<lparr>bdata := left\<rparr>) m2)
             })"

text \<open>\<open>read\<close> into a destination of \<open>len\<close> bytes: the bytes copied, and the buffer that is left.\<close>

definition buf_read :: "nat \<Rightarrow> addr \<Rightarrow> mem \<Rightarrow> (byte list \<times> Buffer option \<times> mem) option" where
  "buf_read len a m =
     (if rootBuf (objs m a) = None then None
      else
        let data = bdata (objs m a); n = min len (slen data)
        in if n = slen data then do { m1 \<leftarrow> buf_Free a m; Some (take n (sbytes data), None, m1) }
           else do {
             rest \<leftarrow> reslice_from n data;
             Some (take n (sbytes data), Some (BufferRef a), upd a (\<lambda>b. b\<lparr>bdata := rest\<rparr>) m)
           })"

section \<open>The interface\<close>

fun ReadOnlyData :: "Buffer \<Rightarrow> mem \<Rightarrow> goslice option" where
  "ReadOnlyData EmptyBuffer m = Some nilslice"
| "ReadOnlyData (SliceBuffer s) m = Some s"
| "ReadOnlyData (BufferRef a) m = buf_ReadOnlyData a m"

fun Ref :: "Buffer \<Rightarrow> mem \<Rightarrow> mem option" where
  "Ref (BufferRef a) m = buf_Ref a m"
| "Ref _ m = Some m"

fun Free :: "Buffer \<Rightarrow> mem \<Rightarrow> mem option" where
  "Free (BufferRef a) m = buf_Free a m"
| "Free _ m = Some m"

definition Len :: "Buffer \<Rightarrow> mem \<Rightarrow> nat option" where
  "Len b m = map_option slen (ReadOnlyData b m)"

fun Slice :: "addr \<Rightarrow> Buffer \<Rightarrow> nat \<Rightarrow> nat \<Rightarrow> mem \<Rightarrow> (Buffer \<times> mem) option" where
  "Slice s EmptyBuffer i j m = (if i \<noteq> 0 \<or> j \<noteq> 0 then None else Some (EmptyBuffer, m))"
| "Slice s (SliceBuffer d) i j m = map_option (\<lambda>t. (SliceBuffer t, m)) (reslice i j d)"
| "Slice s (BufferRef a) i j m = buf_Slice s a i j m"

fun SplitUnsafe :: "addr \<Rightarrow> Buffer \<Rightarrow> nat \<Rightarrow> mem \<Rightarrow> (Buffer \<times> Buffer \<times> mem) option" where
  "SplitUnsafe s EmptyBuffer n m = Some (EmptyBuffer, EmptyBuffer, m)"
| "SplitUnsafe s (SliceBuffer d) n m =
     do { l \<leftarrow> reslice 0 n d; r \<leftarrow> reslice_from n d; Some (SliceBuffer l, SliceBuffer r, m) }"
| "SplitUnsafe s (BufferRef a) n m = buf_split s a n m"

fun ReadUnsafe :: "nat \<Rightarrow> Buffer \<Rightarrow> mem \<Rightarrow> (byte list \<times> Buffer option \<times> mem) option" where
  "ReadUnsafe len EmptyBuffer m = Some ([], Some EmptyBuffer, m)"
| "ReadUnsafe len (SliceBuffer d) m =
     (let n = min len (slen d)
      in if n = slen d then Some (take n (sbytes d), None, m)
         else do { rest \<leftarrow> reslice_from n d; Some (take n (sbytes d), Some (SliceBuffer rest), m) })"
| "ReadUnsafe len (BufferRef a) m = buf_read len a m"

section \<open>Ownership\<close>

text \<open>
  \<open>held\<close> is the multiset of references the program holds to buffer objects (each obtained from a
  constructor, \<open>Ref\<close>, \<open>Slice\<close> or \<open>split\<close> and not freed yet). The heap agrees with it when a
  live object's counter is the number of references held plus the number of live views of it,
  and everything else is blank, as the object pool expects.
\<close>

definition views :: "mem \<Rightarrow> addr \<Rightarrow> addr set" where
  "views m a = {c. c \<noteq> a \<and> rootBuf (objs m c) = Some a}"

definition live :: "mem \<Rightarrow> addr \<Rightarrow> bool" where
  "live m a \<longleftrightarrow> rootBuf (objs m a) \<noteq> None"

definition holders :: "mem \<Rightarrow> addr multiset \<Rightarrow> addr \<Rightarrow> nat" where
  "holders m held a = count held a + card (views m a)"

text \<open>Only root objects have a pool and a slice to return.\<close>

definition pooled :: "buffer \<Rightarrow> bool" where
  "pooled b \<longleftrightarrow> bpool b \<noteq> None \<and> origData b \<noteq> None"

definition unpooled :: "buffer \<Rightarrow> bool" where
  "unpooled b \<longleftrightarrow> bpool b = None \<and> origData b = None"

definition obj_ok :: "mem \<Rightarrow> addr multiset \<Rightarrow> addr \<Rightarrow> bool" where
  "obj_ok m held a \<longleftrightarrow>
     (case rootBuf (objs m a) of
        None \<Rightarrow> objs m a = blank \<and> a \<notin># held
      | Some r \<Rightarrow>
          rootBuf (objs m r) = Some r \<and> swf (bdata (objs m a)) \<and>
          refs (objs m a) = int (holders m held a) \<and> 0 < holders m held a \<and>
          (if a = r then pooled (objs m a) else unpooled (objs m a)))"

definition mem_ok :: "mem \<Rightarrow> addr multiset \<Rightarrow> bool" where
  "mem_ok m held \<longleftrightarrow> finite {a. live m a} \<and> (\<forall>a. obj_ok m held a)"

lemma objs_upd [simp]: "objs (upd a f m) b = (if b = a then f (objs m a) else objs m b)"
  by (simp add: upd_def)

lemma puts_upd [simp]: "puts (upd a f m) = puts m"
  by (simp add: upd_def)

lemma mem_okD: "mem_ok m held \<Longrightarrow> obj_ok m held a"
  by (simp add: mem_ok_def)

lemma obj_ok_live:
  "obj_ok m held a \<Longrightarrow> rootBuf (objs m a) = Some r \<Longrightarrow>
     rootBuf (objs m r) = Some r \<and> swf (bdata (objs m a)) \<and>
     refs (objs m a) = int (holders m held a) \<and> 0 < holders m held a \<and>
     (if a = r then pooled (objs m a) else unpooled (objs m a))"
  by (auto simp: obj_ok_def)

lemma mem_ok_root: "mem_ok m held \<Longrightarrow> rootBuf (objs m a) = Some r \<Longrightarrow> rootBuf (objs m r) = Some r"
  using obj_ok_live [OF mem_okD] by blast

lemma views_of_view: "mem_ok m held \<Longrightarrow> rootBuf (objs m a) = Some r \<Longrightarrow> a \<noteq> r \<Longrightarrow> views m a = {}"
  using mem_ok_root by (fastforce simp: views_def)

lemma finite_views: "mem_ok m held \<Longrightarrow> finite (views m a)"
  by (rule finite_subset [of _ "{a. live m a}"]) (auto simp: mem_ok_def views_def live_def)

lemma mem_ok_held_live: "mem_ok m held \<Longrightarrow> a \<in># held \<Longrightarrow> live m a"
  using mem_okD [of m held a] by (auto simp: obj_ok_def live_def split: option.splits)

text \<open>An update that keeps the roots keeps who is live and who views whom.\<close>

lemma same_roots:
  assumes "\<And>b. rootBuf (objs m' b) = rootBuf (objs m b)"
  shows "views m' = views m" and "live m' = live m"
  using assms by (auto simp: views_def live_def fun_eq_iff)

text \<open>Changing only the counter of a live object, together with what is held.\<close>

lemma mem_ok_recount:
  assumes "mem_ok m held" and "rootBuf (objs m a) = Some r"
    and "\<And>b. b \<noteq> a \<Longrightarrow> count held' b = count held b"
    and "0 < holders m held' a"
    and m': "m' = upd a (\<lambda>b. b\<lparr>refs := int (holders m held' a)\<rparr>) m"
  shows "mem_ok m' held'"
proof -
  have root: "rootBuf (objs m' b) = rootBuf (objs m b)" for b by (simp add: m')
  note same = same_roots [of m' m, OF root]
  have hold: "holders m' held' b = (if b = a then holders m held' a else holders m held b)" for b
    using assms(3) by (simp add: holders_def same)
  have pool: "pooled (objs m' b) = pooled (objs m b)" "unpooled (objs m' b) = unpooled (objs m b)" for b
    by (simp_all add: m' pooled_def unpooled_def)
  have "obj_ok m' held' b" for b
  proof (cases "b = a")
    case True
    then show ?thesis using obj_ok_live [OF mem_okD [OF assms(1)] assms(2)] assms(2,4)
      unfolding obj_ok_def root hold pool by (auto simp: m')
  next
    case False
    then have "b \<in># held' \<longleftrightarrow> b \<in># held" using assms(3) by (metis count_eq_zero_iff)
    then show ?thesis using mem_okD [OF assms(1), of b] False
      unfolding obj_ok_def root hold pool by (auto simp: m' split: option.splits)
  qed
  then show ?thesis using assms(1) by (simp add: mem_ok_def same)
qed

lemma mem_ok_Ref:
  assumes "mem_ok m held" and "live m a"
  shows "\<exists>m'. buf_Ref a m = Some m' \<and> mem_ok m' (add_mset a held) \<and>
    m' = upd a (\<lambda>b. b\<lparr>refs := refs b + 1\<rparr>) m"
proof -
  obtain r where r: "rootBuf (objs m a) = Some r" using assms(2) by (auto simp: live_def)
  note ok = obj_ok_live [OF mem_okD [OF assms(1)] r]
  have "holders m (add_mset a held) a = holders m held a + 1" by (simp add: holders_def)
  then have "upd a (\<lambda>b. b\<lparr>refs := refs b + 1\<rparr>) m =
      upd a (\<lambda>b. b\<lparr>refs := int (holders m (add_mset a held) a)\<rparr>) m"
    using ok by (simp add: upd_def add.commute)
  then have "mem_ok (upd a (\<lambda>b. b\<lparr>refs := refs b + 1\<rparr>) m) (add_mset a held)"
    using ok by (intro mem_ok_recount [OF assms(1) r, of "add_mset a held"]) (auto simp: holders_def)
  then show ?thesis using ok by (simp add: buf_Ref_def)
qed

text \<open>Changing only the data of a live object.\<close>

lemma mem_ok_redata:
  assumes "mem_ok m held" and "live m a" and "swf d"
  shows "mem_ok (upd a (\<lambda>b. b\<lparr>bdata := d\<rparr>) m) held"
proof -
  let ?m = "upd a (\<lambda>b. b\<lparr>bdata := d\<rparr>) m"
  have root: "rootBuf (objs ?m b) = rootBuf (objs m b)" for b by simp
  note same = same_roots [of ?m m, OF root]
  have hold: "holders ?m held = holders m held" by (simp add: holders_def same fun_eq_iff)
  have pool: "pooled (objs ?m b) = pooled (objs m b)" "unpooled (objs ?m b) = unpooled (objs m b)" for b
    by (simp_all add: pooled_def unpooled_def)
  have "obj_ok ?m held b" for b
    using mem_okD [OF assms(1), of b] assms(2,3)
    unfolding obj_ok_def root hold pool by (auto simp: live_def split: option.splits)
  then show ?thesis using assms(1) by (simp add: mem_ok_def same)
qed

text \<open>A fresh view of the root \<open>r\<close> at the blank object \<open>s\<close>.\<close>

lemma mem_ok_new_view:
  assumes "mem_ok m held" and "rootBuf (objs m r) = Some r" and "\<not> live m s" and "swf d"
    and m': "m' = upd s (\<lambda>b. b\<lparr>bdata := d, rootBuf := Some r, refs := 1\<rparr>)
      (upd r (\<lambda>b. b\<lparr>refs := refs b + 1\<rparr>) m)"
  shows "mem_ok m' (add_mset s held)"
proof -
  have ne: "s \<noteq> r" using assms(2,3) by (auto simp: live_def)
  have blank: "objs m s = blank" and unheld: "s \<notin># held"
    using mem_okD [OF assms(1), of s] assms(3) by (auto simp: obj_ok_def live_def split: option.splits)
  have root: "rootBuf (objs m' b) = (if b = s then Some r else rootBuf (objs m b))" for b
    using ne by (simp add: m')
  have views: "views m' b = (if b = r then insert s (views m r) else views m b)" for b
    using ne assms(3) by (auto simp: views_def root live_def)
  have noviews: "views m s = {}"
  proof -
    have "rootBuf (objs m c) \<noteq> Some s" for c
      using mem_ok_root [OF assms(1), of c s] assms(3) by (auto simp: live_def)
    then show ?thesis by (auto simp: views_def)
  qed
  have s: "s \<notin> views m r" using assms(3) by (auto simp: views_def live_def)
  have "card (views m' r) = card (views m r) + 1"
    using finite_views [OF assms(1)] s by (simp add: views)
  then have hold: "holders m' (add_mset s held) b =
      (if b = s then 1 else if b = r then holders m held r + 1 else holders m held b)" for b
    using ne unheld noviews by (simp add: holders_def views not_in_iff)
  have "obj_ok m' (add_mset s held) b" for b
  proof -
    consider "b = s" | "b = r" | "b \<noteq> s" "b \<noteq> r" by blast
    then show ?thesis
    proof cases
      case 1
      then show ?thesis using ne assms(2,4) blank
        unfolding obj_ok_def root hold by (simp add: m' unpooled_def blank_def)
    next
      case 2
      then show ?thesis using ne obj_ok_live [OF mem_okD [OF assms(1)] assms(2)] assms(2)
        unfolding obj_ok_def root hold by (simp add: m' pooled_def)
    next
      case 3
      then show ?thesis using mem_okD [OF assms(1), of b] assms(3)
        unfolding obj_ok_def root hold by (auto simp: m' live_def split: option.splits)
    qed
  qed
  moreover have "{a. live m' a} = insert s {a. live m a}" by (auto simp: live_def root)
  ultimately show ?thesis using assms(1) by (simp add: mem_ok_def)
qed

text \<open>Freeing the last reference to a root: the object is blank again and its slice is returned.\<close>

definition buried :: "addr \<Rightarrow> mem \<Rightarrow> mem" where
  "buried a m = m\<lparr>objs := (objs m)(a := blank)\<rparr>"

lemma objs_buried [simp]: "objs (buried a m) b = (if b = a then blank else objs m b)"
  "puts (buried a m) = puts m"
  by (simp_all add: buried_def)

lemma mem_ok_bury:
  assumes "mem_ok m held" and "views m a = {}" and "count held a = 1"
    and "rootBuf (objs m a) = Some r"
    and m': "m' = (if a = r then buried a m else buried a (upd r (\<lambda>b. b\<lparr>refs := refs b - 1\<rparr>) m))"
    and "a = r \<or> 1 < holders m held r"
    and same: "\<And>b. objs m'' b = objs m' b"
  shows "mem_ok m'' (held - {#a#})"
proof -
  have root: "rootBuf (objs m'' b) = (if b = a then None else rootBuf (objs m b))" for b
    by (simp add: same m' blank_def)
  have views: "views m'' b = views m b - {a}" for b
    by (auto simp: views_def root)
  have hold: "holders m'' (held - {#a#}) b =
      (if b = a then 0 else if b = r then holders m held r - 1 else holders m held b)" for b
  proof -
    have fin: "finite (views m b)" by (rule finite_views [OF assms(1)])
    have "a \<in> views m b \<longleftrightarrow> b = r \<and> b \<noteq> a" using assms(4) by (auto simp: views_def)
    moreover from fin have "a \<in> views m b \<Longrightarrow> 0 < card (views m b)" by (auto simp: card_gt_0_iff)
    ultimately show ?thesis using assms(2,3) fin by (auto simp: holders_def views card_Diff_singleton)
  qed
  have "obj_ok m'' (held - {#a#}) b" for b
  proof -
    consider "b = a" | "b \<noteq> a" "b = r" | "b \<noteq> a" "b \<noteq> r" by blast
    then show ?thesis
    proof cases
      case 1
      then show ?thesis using assms(3)
        unfolding obj_ok_def root hold by (simp add: same m' not_in_iff)
    next
      case 2
      note ok = obj_ok_live [OF mem_okD [OF assms(1)], of r]
      have "rootBuf (objs m r) = Some r" using mem_ok_root [OF assms(1,4)] .
      with 2 ok assms(6) show ?thesis
        unfolding obj_ok_def root hold by (auto simp: same m' pooled_def)
    next
      case 3
      have "r \<noteq> a \<or> rootBuf (objs m b) \<noteq> Some a"
        using 3 assms(2) by (auto simp: views_def)
      moreover have "rootBuf (objs m b) = Some a \<Longrightarrow> False"
        using 3 assms(2) by (auto simp: views_def)
      ultimately show ?thesis using 3 mem_okD [OF assms(1), of b]
        unfolding obj_ok_def root hold by (auto simp: same m' split: option.splits dest: in_diffD)
    qed
  qed
  moreover have "{b. live m'' b} \<subseteq> {b. live m b}" by (auto simp: live_def root)
  then have "finite {b. live m'' b}"
    using assms(1) by (auto simp: mem_ok_def intro: finite_subset)
  ultimately show ?thesis by (simp add: mem_ok_def)
qed

text \<open>Whether anything that is held is, or views, the root \<open>r\<close>.\<close>

definition in_use :: "mem \<Rightarrow> addr multiset \<Rightarrow> addr \<Rightarrow> bool" where
  "in_use m held r \<longleftrightarrow> (\<exists>b \<in># held. rootBuf (objs m b) = Some r)"

lemma view_held:
  assumes "mem_ok m held" and "rootBuf (objs m c) = Some r" and "c \<noteq> r"
  shows "c \<in># held"
  using obj_ok_live [OF mem_okD [OF assms(1)] assms(2)] views_of_view [OF assms]
  by (simp add: holders_def)

lemma root_in_use:
  assumes "mem_ok m held" and "rootBuf (objs m r) = Some r"
  shows "in_use m held r"
proof (cases "r \<in># held")
  case True
  then show ?thesis using assms(2) by (auto simp: in_use_def)
next
  case False
  then have "0 < card (views m r)"
    using obj_ok_live [OF mem_okD [OF assms(1)] assms(2)] by (simp add: holders_def not_in_iff)
  then obtain c where "c \<in> views m r" by (metis card.empty ex_in_conv less_irrefl)
  then have c: "c \<noteq> r" "rootBuf (objs m c) = Some r" by (auto simp: views_def)
  then show ?thesis using view_held [OF assms(1) c(2,1)] by (auto simp: in_use_def)
qed

lemma buf_Free_dec:
  "1 < refs (objs m a) \<Longrightarrow> buf_Free a m = Some (upd a (\<lambda>b. b\<lparr>refs := refs b - 1\<rparr>) m)"
  by (subst buf_Free.simps) (simp add: Let_def)

lemma buf_Free_root:
  assumes "refs (objs m a) = 1" and "rootBuf (objs m a) = Some a" and "bpool (objs m a) = Some p"
  shows "\<exists>m'. buf_Free a m = Some m' \<and> objs m' = objs (buried a m) \<and>
    puts m' = puts m @ [(p, origData (objs m a))]"
  using assms by (subst buf_Free.simps) (auto simp: Let_def upd_def buried_def blank_def fun_eq_iff)

lemma buf_Free_view:
  assumes "refs (objs m a) = 1" and "rootBuf (objs m a) = Some r" and "r \<noteq> a"
  shows "buf_Free a m =
    do { m3 \<leftarrow> buf_Free r (upd a (\<lambda>b. b\<lparr>refs := 0, bdata := nilslice\<rparr>) m);
         Some (upd a (\<lambda>b. b\<lparr>rootBuf := None\<rparr>) m3) }"
proof -
  have "upd a (\<lambda>b. b\<lparr>bdata := nilslice\<rparr>) (upd a (\<lambda>b. b\<lparr>refs := refs b - 1\<rparr>) m) =
      upd a (\<lambda>b. b\<lparr>refs := 0, bdata := nilslice\<rparr>) m"
    using assms(1) by (simp add: upd_def)
  then show ?thesis using assms by (subst buf_Free.simps) (simp add: Let_def)
qed

text \<open>What a released reference leaves behind: every other live object as it was.\<close>

definition kept :: "mem \<Rightarrow> mem \<Rightarrow> bool" where
  "kept m m' \<longleftrightarrow> (\<forall>b. live m' b \<longrightarrow> rootBuf (objs m' b) = rootBuf (objs m b) \<and> bdata (objs m' b) = bdata (objs m b))"

definition returned :: "mem \<Rightarrow> addr multiset \<Rightarrow> addr \<Rightarrow> (nat \<times> nat option) list" where
  "returned m held r =
     (if in_use m held r then [] else [(the (bpool (objs m r)), origData (objs m r))])"

abbreviation free_ok :: "addr \<Rightarrow> addr \<Rightarrow> mem \<Rightarrow> addr multiset \<Rightarrow> bool" where
  "free_ok a r m held \<equiv> \<exists>m'. buf_Free a m = Some m' \<and> mem_ok m' (held - {#a#}) \<and> kept m m' \<and>
     puts m' = puts m @ returned m (held - {#a#}) r"

lemma Free_shared:
  assumes "mem_ok m held" and "a \<in># held" and root: "rootBuf (objs m a) = Some r"
    and "1 < holders m held a"
  shows "free_ok a r m held"
proof -
  note ok = obj_ok_live [OF mem_okD [OF assms(1)] root]
  have rr: "rootBuf (objs m r) = Some r" using mem_ok_root [OF assms(1) root] .
  have "1 \<le> count held a" using assms(2) by (simp add: Suc_le_eq)
  then have h: "holders m (held - {#a#}) a = holders m held a - 1" by (simp add: holders_def)
  have eq: "upd a (\<lambda>b. b\<lparr>refs := refs b - 1\<rparr>) m = upd a (\<lambda>b. b\<lparr>refs := int (holders m (held - {#a#}) a)\<rparr>) m"
    using ok assms(4) by (simp add: upd_def h of_nat_diff)
  have ok': "mem_ok (upd a (\<lambda>b. b\<lparr>refs := refs b - 1\<rparr>) m) (held - {#a#})" (is "mem_ok ?m _")
    by (rule mem_ok_recount [OF assms(1) root _ _ eq]) (use assms(4) h in auto)
  have "in_use ?m (held - {#a#}) r"
    using rr by (intro root_in_use [OF ok']) auto
  then have "in_use m (held - {#a#}) r" by (auto simp: in_use_def split: if_splits)
  then show ?thesis using ok assms(4) ok' by (auto simp: buf_Free_dec returned_def kept_def)
qed

lemma last_reference:
  assumes "mem_ok m held" and "a \<in># held" and "rootBuf (objs m a) = Some r"
    and "\<not> 1 < holders m held a"
  shows "count held a = 1" and "views m a = {}" and "refs (objs m a) = 1"
proof -
  note ok = obj_ok_live [OF mem_okD [OF assms(1)] assms(3)]
  have "1 \<le> count held a" using assms(2) by (simp only: count_greater_eq_one_iff)
  with assms(4) have c: "count held a = 1" "card (views m a) = 0" unfolding holders_def by linarith+
  then show "count held a = 1" "views m a = {}" "refs (objs m a) = 1"
    using ok finite_views [OF assms(1), of a] by (simp_all add: holders_def)
qed

lemma Free_last_root:
  assumes "mem_ok m held" and "a \<in># held" and root: "rootBuf (objs m a) = Some a"
    and "\<not> 1 < holders m held a"
  shows "free_ok a a m held"
proof -
  note one = last_reference [OF assms]
  obtain p where p: "bpool (objs m a) = Some p"
    using obj_ok_live [OF mem_okD [OF assms(1)] root] by (auto simp: pooled_def)
  obtain m' where m': "buf_Free a m = Some m'" "objs m' = objs (buried a m)"
    "puts m' = puts m @ [(p, origData (objs m a))]"
    using buf_Free_root [OF one(3) root p] by blast
  have "mem_ok m' (held - {#a#})"
    by (rule mem_ok_bury [OF assms(1) one(2,1) root refl]) (use m' in auto)
  moreover have "\<not> in_use m (held - {#a#}) a"
    using one by (auto simp: in_use_def views_def in_diff_count split: if_splits)
  ultimately show ?thesis using m' p by (auto simp: returned_def kept_def live_def blank_def)
qed

text \<open>Freeing the last reference to a view of a root that has other holders.\<close>

lemma Free_last_view:
  assumes "mem_ok m held" and "a \<in># held" and root: "rootBuf (objs m a) = Some r" and "a \<noteq> r"
    and "\<not> 1 < holders m held a" and "1 < holders m held r"
  shows "free_ok a r m held"
proof -
  note one = last_reference [OF assms(1,2,3,5)]
  have rr: "rootBuf (objs m r) = Some r" using mem_ok_root [OF assms(1) root] .
  define m2 where "m2 = upd a (\<lambda>b. b\<lparr>refs := 0, bdata := nilslice\<rparr>) m"
  let ?m = "upd a (\<lambda>b. b\<lparr>rootBuf := None\<rparr>) (upd r (\<lambda>b. b\<lparr>refs := refs b - 1\<rparr>) m2)"
  have "1 < refs (objs m2 r)"
    using obj_ok_live [OF mem_okD [OF assms(1)] rr] assms(4,6) by (simp add: m2_def)
  then have go: "buf_Free a m = Some ?m"
    using buf_Free_view [OF one(3) root] buf_Free_dec [of m2 r] assms(4) by (simp add: m2_def)
  have "unpooled (objs m a)" using obj_ok_live [OF mem_okD [OF assms(1)] root] assms(4) by simp
  then have same: "objs ?m b = objs (buried a (upd r (\<lambda>b. b\<lparr>refs := refs b - 1\<rparr>) m)) b" for b
    using assms(4) by (simp add: m2_def blank_def unpooled_def)
  have ok': "mem_ok ?m (held - {#a#})"
    by (rule mem_ok_bury [OF assms(1) one(2,1) root refl]) (use assms(4,6) same in auto)
  have "in_use ?m (held - {#a#}) r"
    using rr assms(4) by (intro root_in_use [OF ok']) (simp add: m2_def)
  then have "in_use m (held - {#a#}) r"
    unfolding in_use_def by (auto simp: m2_def split: if_splits)
  then show ?thesis using go ok' by (auto simp: returned_def kept_def live_def m2_def split: if_splits)
qed

text \<open>
  Freeing the only view of a root that is not held itself: both objects die and the slice is
  returned. The invariant follows by first pretending to hold the root, then burying the view and
  the root.
\<close>

lemma bury_both:
  assumes "mem_ok m held" and "a \<in># held" and root: "rootBuf (objs m a) = Some r" and "a \<noteq> r"
    and "\<not> 1 < holders m held a" and "\<not> 1 < holders m held r"
    and same: "objs m'' = objs (buried r (buried a m))"
  shows "mem_ok m'' (held - {#a#})" and "\<not> in_use m (held - {#a#}) r" and "refs (objs m r) = 1"
proof -
  note one = last_reference [OF assms(1,2,3,5)]
  have rr: "rootBuf (objs m r) = Some r" using mem_ok_root [OF assms(1) root] .
  have av: "a \<in> views m r" using root assms(4) by (simp add: views_def)
  have "0 < card (views m r)" using av finite_views [OF assms(1)] by (auto simp: card_gt_0_iff)
  then have hr: "count held r = 0" "card (views m r) = 1" using assms(6) by (auto simp: holders_def)
  then have vr: "views m r = {a}" using av by (auto simp: card_1_singleton_iff)
  show "refs (objs m r) = 1"
    using obj_ok_live [OF mem_okD [OF assms(1)] rr] hr by (simp add: holders_def)
  show "\<not> in_use m (held - {#a#}) r"
  proof
    assume "in_use m (held - {#a#}) r"
    then obtain b where b: "b \<in># held - {#a#}" "rootBuf (objs m b) = Some r" by (auto simp: in_use_def)
    have "b \<noteq> a" using b(1) one(1) by (auto simp: in_diff_count)
    moreover have "b \<noteq> r" using b(1) hr(1) by (auto simp: in_diff_count)
    ultimately show False using b(2) vr by (auto simp: views_def)
  qed
  obtain m0 where m0: "mem_ok m0 (add_mset r held)" "m0 = upd r (\<lambda>b. b\<lparr>refs := refs b + 1\<rparr>) m"
    using mem_ok_Ref [OF assms(1), of r] rr by (auto simp: live_def)
  have root0: "rootBuf (objs m0 b) = rootBuf (objs m b)" for b by (simp add: m0)
  note same0 = same_roots [of m0 m, OF root0]
  let ?m1 = "buried a (upd r (\<lambda>b. b\<lparr>refs := refs b - 1\<rparr>) m0)"
  have ok1: "mem_ok ?m1 (add_mset r held - {#a#})"
    by (rule mem_ok_bury [OF m0(1), of a r])
      (use assms(4) one root hr in \<open>auto simp: same0 root0 holders_def\<close>)
  have "views ?m1 r = views m r - {a}" by (auto simp: views_def m0 blank_def)
  then have v1: "views ?m1 r = {}" using vr by simp
  have "mem_ok m'' ((add_mset r held - {#a#}) - {#r#})"
    by (rule mem_ok_bury [OF ok1 v1, of r]) (use assms(4) hr rr in \<open>auto simp: m0 same blank_def\<close>)
  then show "mem_ok m'' (held - {#a#})" by (simp add: diff_right_commute)
qed

lemma Free_last_view_last:
  assumes "mem_ok m held" and "a \<in># held" and root: "rootBuf (objs m a) = Some r" and "a \<noteq> r"
    and "\<not> 1 < holders m held a" and "\<not> 1 < holders m held r"
  shows "free_ok a r m held"
proof -
  note one = last_reference [OF assms(1,2,3,5)]
  have rr: "rootBuf (objs m r) = Some r" using mem_ok_root [OF assms(1) root] .
  define m2 where "m2 = upd a (\<lambda>b. b\<lparr>refs := 0, bdata := nilslice\<rparr>) m"
  obtain p where p: "bpool (objs m r) = Some p"
    using obj_ok_live [OF mem_okD [OF assms(1)] rr] by (auto simp: pooled_def)
  have "refs (objs m2 r) = 1" "rootBuf (objs m2 r) = Some r" "bpool (objs m2 r) = Some p"
    using bury_both(3) [OF assms refl] rr p assms(4) by (simp_all add: m2_def)
  then obtain m3 where m3: "buf_Free r m2 = Some m3" "objs m3 = objs (buried r m2)"
    "puts m3 = puts m2 @ [(p, origData (objs m2 r))]"
    using buf_Free_root by blast
  let ?m = "upd a (\<lambda>b. b\<lparr>rootBuf := None\<rparr>) m3"
  have go: "buf_Free a m = Some ?m"
    using buf_Free_view [OF one(3) root] m3(1) assms(4) by (simp add: m2_def)
  have "unpooled (objs m a)" using obj_ok_live [OF mem_okD [OF assms(1)] root] assms(4) by simp
  then have same: "objs ?m = objs (buried r (buried a m))"
    using m3(2) assms(4) by (auto simp: m2_def blank_def unpooled_def fun_eq_iff)
  have "kept m ?m" using same by (simp add: kept_def live_def blank_def)
  then show ?thesis using go m3(3) p assms(4) bury_both(1,2) [OF assms same]
    by (simp add: returned_def m2_def)
qed

lemma mem_ok_Free:
  assumes "mem_ok m held" and "a \<in># held" and root: "rootBuf (objs m a) = Some r"
  shows "free_ok a r m held"
  using Free_shared [OF assms] Free_last_root [OF assms(1,2)] Free_last_view [OF assms]
    Free_last_view_last [OF assms] root
  by blast

section \<open>Properties\<close>

text \<open>The operations a program performs on the buffers it holds, with the objects the pool hands out.\<close>

datatype buf_op =
    OpNew addr poolslice nat
  | OpRef addr
  | OpFree addr
  | OpSlice addr addr nat nat
  | OpSplit addr addr nat

text \<open>
  A program step: the heap after the operation and the references held after it. \<open>None\<close> is a panic.
  \<open>buf_legal\<close> is what the documentation asks of the caller: it operates on references it holds,
  and slices within the length of the buffer; the object pool hands out objects that are not in use.
\<close>

fun buf_legal :: "mem \<Rightarrow> addr multiset \<Rightarrow> buf_op \<Rightarrow> bool" where
  "buf_legal m held (OpNew a d p) = (\<not> live m a \<and> swf (pslice d) \<and> BufferPoolingThreshold < scap (pslice d))"
| "buf_legal m held (OpRef a) = (a \<in># held)"
| "buf_legal m held (OpFree a) = (a \<in># held)"
| "buf_legal m held (OpSlice s a i j) = (a \<in># held \<and> \<not> live m s \<and> i \<le> j \<and> j \<le> slen (bdata (objs m a)))"
| "buf_legal m held (OpSplit s a n) = (a \<in># held \<and> \<not> live m s \<and> n \<le> slen (bdata (objs m a)))"

fun refs_of :: "Buffer \<Rightarrow> addr multiset" where
  "refs_of (BufferRef a) = {#a#}"
| "refs_of _ = {#}"

fun buf_exec :: "buf_op \<Rightarrow> mem \<times> addr multiset \<Rightarrow> (mem \<times> addr multiset) option" where
  "buf_exec (OpNew a d p) (m, held) =
     (let (b, m') = NewBuffer a d (Some p) m in Some (m', held + refs_of b))"
| "buf_exec (OpRef a) (m, held) = do { m' \<leftarrow> Ref (BufferRef a) m; Some (m', add_mset a held) }"
| "buf_exec (OpFree a) (m, held) = do { m' \<leftarrow> Free (BufferRef a) m; Some (m', held - {#a#}) }"
| "buf_exec (OpSlice s a i j) (m, held) =
     do { (b, m') \<leftarrow> Slice s (BufferRef a) i j m; Some (m', held + refs_of b) }"
| "buf_exec (OpSplit s a n) (m, held) =
     do { (l, r, m') \<leftarrow> SplitUnsafe s (BufferRef a) n m; Some (m', held + refs_of r) }"

lemma mem_ok_New:
  assumes "mem_ok m held" and "\<not> live m a" and "swf (pslice d)"
    and "BufferPoolingThreshold < scap (pslice d)"
  shows "mem_ok (snd (NewBuffer a d (Some p) m)) (add_mset a held)"
    and "fst (NewBuffer a d (Some p) m) = BufferRef a"
proof -
  let ?m = "snd (NewBuffer a d (Some p) m)"
  have m': "?m = upd a (\<lambda>b. b\<lparr>origData := Some (sliceId d), bdata := pslice d, bpool := Some p,
      rootBuf := Some a, refs := 1\<rparr>) m"
    and "fst (NewBuffer a d (Some p) m) = BufferRef a"
    using assms(4) by (simp_all add: NewBuffer_def IsBelowBufferPoolingThreshold_def)
  then show "fst (NewBuffer a d (Some p) m) = BufferRef a" by simp
  have norefs: "rootBuf (objs m c) \<noteq> Some a" for c
    using mem_ok_root [OF assms(1), of c a] assms(2) by (auto simp: live_def)
  have root: "rootBuf (objs ?m b) = (if b = a then Some a else rootBuf (objs m b))" for b by (simp add: m')
  have views: "views ?m b = (if b = a then {} else views m b)" for b
    using norefs assms(2) by (auto simp: views_def root live_def)
  have unheld: "a \<notin># held" using mem_ok_held_live [OF assms(1)] assms(2) by blast
  have hold: "holders ?m (add_mset a held) b = (if b = a then 1 else holders m held b)" for b
    using unheld by (simp add: holders_def views not_in_iff)
  have "obj_ok ?m (add_mset a held) b" for b
  proof (cases "b = a")
    case True
    then show ?thesis using assms(3) unfolding obj_ok_def root hold by (simp add: m' pooled_def)
  next
    case False
    then show ?thesis using mem_okD [OF assms(1), of b] norefs
      unfolding obj_ok_def root hold by (auto simp: m' split: option.splits)
  qed
  moreover have "{b. live ?m b} = insert a {b. live m b}" by (auto simp: live_def root)
  ultimately show "mem_ok ?m (add_mset a held)" using assms(1) by (simp add: mem_ok_def)
qed

lemma mem_ok_Slice:
  assumes "mem_ok m held" and "a \<in># held" and "\<not> live m s" and "i \<le> j" and "j \<le> slen (bdata (objs m a))"
  shows "\<exists>b m'. buf_Slice s a i j m = Some (b, m') \<and> mem_ok m' (held + refs_of b) \<and> puts m' = puts m \<and>
    (\<exists>d. ReadOnlyData b m' = Some d \<and> sbytes d = take (j - i) (drop i (sbytes (bdata (objs m a)))))"
proof -
  obtain r where r: "rootBuf (objs m a) = Some r"
    using mem_ok_held_live [OF assms(1,2)] by (auto simp: live_def)
  have rr: "rootBuf (objs m r) = Some r" and wf: "swf (bdata (objs m a))"
    using obj_ok_live [OF mem_okD [OF assms(1)] r] by auto
  obtain d where d: "reslice i j (bdata (objs m a)) = Some d" "swf d"
    "sbytes d = take (j - i) (drop i (sbytes (bdata (objs m a))))"
    using reslice_inside [OF wf assms(4,5)] by blast
  have sl: "slen d = j - i" using d(1) by (auto simp: reslice_def split: if_splits)
  have ne: "s \<noteq> a" "s \<noteq> r" using assms(3) r rr by (auto simp: live_def)
  consider "j - i = 0" | "j - i \<noteq> 0" "j - i = slen (bdata (objs m a))"
    | "j - i \<noteq> 0" "j - i \<noteq> slen (bdata (objs m a))" by blast
  then show ?thesis
  proof cases
    case 1
    then show ?thesis using r d sl assms(1) by (simp add: buf_Slice_def)
  next
    case 2
    then have "i = 0" using assms(4,5) by simp
    then have "sbytes d = sbytes (bdata (objs m a))" using d(3) 2 wf by (simp add: length_sbytes)
    moreover obtain m1 where "buf_Ref a m = Some m1" "mem_ok m1 (add_mset a held)"
      "m1 = upd a (\<lambda>b. b\<lparr>refs := refs b + 1\<rparr>) m"
      using mem_ok_Ref [OF assms(1), of a] r by (auto simp: live_def)
    ultimately show ?thesis using r d sl 2 by (simp add: buf_Slice_def buf_ReadOnlyData_def)
  next
    case 3
    obtain m1 where m1: "buf_Ref r m = Some m1" "m1 = upd r (\<lambda>b. b\<lparr>refs := refs b + 1\<rparr>) m"
      using mem_ok_Ref [OF assms(1), of r] rr by (auto simp: live_def)
    have "mem_ok (upd s (\<lambda>b. b\<lparr>bdata := d, rootBuf := Some r, refs := 1\<rparr>) m1) (add_mset s held)"
      using mem_ok_new_view [OF assms(1) rr assms(3) d(2)] m1(2) by simp
    then show ?thesis using r rr d sl 3 m1 ne
      by (cases "a = r") (simp_all add: buf_Slice_def buf_ReadOnlyData_def)
  qed
qed

lemma mem_ok_split:
  assumes "mem_ok m held" and "a \<in># held" and "\<not> live m s" and "n \<le> slen (bdata (objs m a))"
  shows "\<exists>m'. buf_split s a n m = Some (BufferRef a, BufferRef s, m') \<and> mem_ok m' (add_mset s held) \<and>
    puts m' = puts m \<and>
    sbytes (bdata (objs m' a)) @ sbytes (bdata (objs m' s)) = sbytes (bdata (objs m a))"
proof -
  obtain r where r: "rootBuf (objs m a) = Some r"
    using mem_ok_held_live [OF assms(1,2)] by (auto simp: live_def)
  have rr: "rootBuf (objs m r) = Some r" and wf: "swf (bdata (objs m a))"
    using obj_ok_live [OF mem_okD [OF assms(1)] r] by auto
  have ne: "s \<noteq> a" "s \<noteq> r" using assms(3) r rr by (auto simp: live_def)
  have pos: "0 < refs (objs m r)" using obj_ok_live [OF mem_okD [OF assms(1)] rr] by simp
  obtain d where d: "reslice_from n (bdata (objs m a)) = Some d" "swf d"
    "sbytes d = drop n (sbytes (bdata (objs m a)))"
    using reslice_from_inside [OF wf assms(4)] by blast
  obtain e where e: "reslice 0 n (bdata (objs m a)) = Some e" "swf e"
    "sbytes e = take n (sbytes (bdata (objs m a)))"
    using reslice_inside [OF wf _ assms(4), of 0] by auto
  let ?m1 = "upd r (\<lambda>b. b\<lparr>refs := refs b + 1\<rparr>) m"
  let ?m2 = "upd s (\<lambda>b. b\<lparr>bdata := d, rootBuf := Some r, refs := 1\<rparr>) ?m1"
  have "mem_ok ?m2 (add_mset s held)" using mem_ok_new_view [OF assms(1) rr assms(3) d(2)] by simp
  then have "mem_ok (upd a (\<lambda>b. b\<lparr>bdata := e\<rparr>) ?m2) (add_mset s held)"
    by (rule mem_ok_redata) (use r ne e in \<open>auto simp: live_def\<close>)
  moreover have "rootBuf (objs ?m1 a) = Some r" "bdata (objs ?m1 a) = bdata (objs m a)" using r by auto
  ultimately show ?thesis using r rr pos d e ne by (cases "a = r") (simp_all add: buf_split_def Let_def)
qed

definition mem0 :: mem where
  "mem0 = \<lparr>objs = (\<lambda>_. blank), puts = []\<rparr>"

definition buf_initial :: "mem \<times> addr multiset \<Rightarrow> bool" where
  "buf_initial s \<longleftrightarrow> s = (mem0, {#})"

inductive buf_step :: "mem \<times> addr multiset \<Rightarrow> mem \<times> addr multiset \<Rightarrow> bool" where
  "buf_legal m held p \<Longrightarrow> buf_exec p (m, held) = Some s' \<Longrightarrow> buf_step (m, held) s'"

lemma buf_exec_ok:
  assumes "mem_ok m held" and "buf_legal m held p"
  shows "\<exists>m' held'. buf_exec p (m, held) = Some (m', held') \<and> mem_ok m' held'"
proof (cases p)
  case (OpNew a d q)
  then show ?thesis using assms mem_ok_New [OF assms(1), of a d q] by (auto split: prod.splits)
next
  case (OpRef a)
  then show ?thesis using assms mem_ok_Ref [OF assms(1) mem_ok_held_live [OF assms(1)], of a] by auto
next
  case (OpFree a)
  then obtain r where "rootBuf (objs m a) = Some r"
    using assms mem_ok_held_live [OF assms(1), of a] by (auto simp: live_def)
  then show ?thesis using OpFree assms mem_ok_Free [OF assms(1), of a r] by auto
next
  case (OpSlice s a i j)
  then show ?thesis using assms mem_ok_Slice [OF assms(1), of a s i j] by auto
next
  case (OpSplit s a n)
  then show ?thesis using assms mem_ok_split [OF assms(1), of a s n] by auto
qed

interpretation bufinv: inductive_invariant buf_initial buf_step "\<lambda>(m, held). mem_ok m held"
proof
  fix s assume "buf_initial s"
  then show "case s of (m, held) \<Rightarrow> mem_ok m held"
    by (simp add: buf_initial_def mem0_def mem_ok_def obj_ok_def live_def blank_def)
next
  fix s t assume "case s of (m, held) \<Rightarrow> mem_ok m held" and "buf_step s t"
  then show "case t of (m, held) \<Rightarrow> mem_ok m held"
    by (auto elim!: buf_step.cases dest: buf_exec_ok)
qed


definition page :: poolslice where
  "page = \<lparr>sliceId = 7, pslice = \<lparr>backing = replicate 2000 1, slen = 3\<rparr>\<rparr>"

definition demo_new :: mem where
  "demo_new = snd (NewBuffer 3 page (Some 0) mem0)"

lemma demo_reach: "reach buf_initial buf_step (demo_new, {#3#})"
proof -
  have legal: "buf_legal mem0 {#} (OpNew 3 page 0)"
    by (simp add: mem0_def live_def blank_def page_def swf_def BufferPoolingThreshold_def)
  have "buf_exec (OpNew 3 page 0) (mem0, {#}) = Some (demo_new, {#3#})"
    by (simp add: demo_new_def NewBuffer_def IsBelowBufferPoolingThreshold_def
        BufferPoolingThreshold_def page_def)
  with legal have "buf_step (mem0, {#}) (demo_new, {#3#})" by (rule buf_step.intros)
  then show ?thesis by (rule reach_more [OF reach_start, rotated]) (simp add: buf_initial_def)
qed


text \<open>
  C23: A pooled slice is returned exactly when its last user is gone: freeing a reference leaves every
  other buffer's bytes readable as they were, and puts the slice of the freed buffer's root back
  into its pool if and only if no reference to the root or to any view of it is held any more.
\<close>

theorem slice_returned_exactly_when_unused:
  assumes "reach buf_initial buf_step (m, held)" and "a \<in># held" and "rootBuf (objs m a) = Some r"
  shows "\<exists>m'. Free (BufferRef a) m = Some m' \<and>
    (\<forall>b \<in># held - {#a#}. ReadOnlyData (BufferRef b) m' = ReadOnlyData (BufferRef b) m \<and>
       ReadOnlyData (BufferRef b) m \<noteq> None) \<and>
    puts m' = puts m @ (if \<exists>b \<in># held - {#a#}. rootBuf (objs m b) = Some r then []
                        else [(the (bpool (objs m r)), origData (objs m r))]) \<and>
    bpool (objs m r) \<noteq> None"
proof -
  have ok: "mem_ok m held" using bufinv.reachable_inv [OF assms(1)] by simp
  obtain m' where m': "buf_Free a m = Some m'" "mem_ok m' (held - {#a#})" "kept m m'"
    "puts m' = puts m @ returned m (held - {#a#}) r"
    using mem_ok_Free [OF ok assms(2,3)] by blast
  have "ReadOnlyData (BufferRef b) m' = ReadOnlyData (BufferRef b) m \<and> ReadOnlyData (BufferRef b) m \<noteq> None"
    if "b \<in># held - {#a#}" for b
    using mem_ok_held_live [OF m'(2) that] m'(3)
    by (auto simp: kept_def live_def buf_ReadOnlyData_def)
  moreover have "bpool (objs m r) \<noteq> None"
    using obj_ok_live [OF mem_okD [OF ok] mem_ok_root [OF ok assms(3)]] by (auto simp: pooled_def)
  ultimately show ?thesis using m' by (auto simp: returned_def in_use_def)
qed

theorem slice_returned_exactly_when_unused_witness:
  "\<exists>m'. Free (BufferRef 3) demo_new = Some m' \<and> puts m' = [(0, Some 7)]"
  using slice_returned_exactly_when_unused [OF demo_reach, of 3 3]
  by (auto simp: demo_new_def NewBuffer_def IsBelowBufferPoolingThreshold_def
      BufferPoolingThreshold_def page_def mem0_def)

end
