(* ===== verification/Buf_Reader.thy ===== *)
theory Buf_Reader
  imports Item_List Mem_Buffers
begin

text \<open>
  Sequences of reference-counted buffers and the reader over them (\<^verbatim>\<open>mem/buffer_slice.go\<close>).
  The operations are translated over the heap of \<open>Mem_Buffers\<close>; a panic, or a loop that does not
  end, is \<open>None\<close>. The lemmas show that a reader behaves as the list of the bytes that are left,
  and that it releases exactly the references it took.
\<close>

section \<open>Buffer slices\<close>

fun bs_Len :: "Buffer list \<Rightarrow> mem \<Rightarrow> nat option" where
  "bs_Len [] m = Some 0"
| "bs_Len (b # s) m = do { n \<leftarrow> Len b m; k \<leftarrow> bs_Len s m; Some (n + k) }"

fun bs_Ref :: "Buffer list \<Rightarrow> mem \<Rightarrow> mem option" where
  "bs_Ref [] m = Some m"
| "bs_Ref (b # s) m = do { m1 \<leftarrow> Ref b m; bs_Ref s m1 }"

fun bs_Free :: "Buffer list \<Rightarrow> mem \<Rightarrow> mem option" where
  "bs_Free [] m = Some m"
| "bs_Free (b # s) m = do { m1 \<leftarrow> Free b m; bs_Free s m1 }"

text \<open>The loop of \<open>CopyTo\<close>: the offset so far, the destination so far.\<close>

fun bs_CopyTo :: "Buffer list \<Rightarrow> nat \<Rightarrow> byte list \<Rightarrow> mem \<Rightarrow> (nat \<times> byte list) option" where
  "bs_CopyTo [] off dst m = Some (off, dst)"
| "bs_CopyTo (b # s) off dst m = do {
     d \<leftarrow> ReadOnlyData b m;
     bs_CopyTo s (off + min (length dst - off) (slen d)) (go_copy_from off dst (sbytes d)) m
   }"

definition Materialize :: "Buffer list \<Rightarrow> mem \<Rightarrow> byte list option" where
  "Materialize s m = do {
     l \<leftarrow> bs_Len s m;
     if l = 0 then Some []
     else do { (n, out) \<leftarrow> bs_CopyTo s 0 (replicate l 0) m; Some out }
   }"

text \<open>\<open>get n\<close> is the slice the pool hands out for \<open>n\<close> bytes, \<open>a\<close> the buffer object for the result.\<close>

definition MaterializeToBuffer :: "addr \<Rightarrow> (nat \<Rightarrow> poolslice) \<Rightarrow> nat \<Rightarrow> Buffer list \<Rightarrow> mem \<Rightarrow> (Buffer \<times> mem) option" where
  "MaterializeToBuffer a get pool s m =
     (if length s = 1 then do { m1 \<leftarrow> Ref (s ! 0) m; Some (s ! 0, m1) }
      else do {
        sLen \<leftarrow> bs_Len s m;
        if sLen = 0 then Some (EmptyBuffer, m)
        else do {
          let buf = get sLen;
          (n, out) \<leftarrow> bs_CopyTo s 0 (sbytes (pslice buf)) m;
          let filled = (pslice buf)\<lparr>backing := out @ drop (length out) (backing (pslice buf))\<rparr>;
          Some (NewBuffer a (buf\<lparr>pslice := filled\<rparr>) (Some pool) m)
        }
      })"

section \<open>The reader\<close>

datatype io_error = EOF | InsufficientBytes | ReadError nat

record Reader =
  rdata :: "Buffer list"
  rlen :: int
  bufferIdx :: nat

definition bs_Reader :: "Buffer list \<Rightarrow> mem \<Rightarrow> (Reader \<times> mem) option" where
  "bs_Reader s m = do {
     m1 \<leftarrow> bs_Ref s m;
     n \<leftarrow> bs_Len s m1;
     Some (\<lparr>rdata = s, rlen = int n, bufferIdx = 0\<rparr>, m1)
   }"

definition Remaining :: "Reader \<Rightarrow> int" where
  "Remaining r = rlen r"

definition Reset :: "Buffer list \<Rightarrow> Reader \<Rightarrow> mem \<Rightarrow> (Reader \<times> mem) option" where
  "Reset s r m = do {
     m1 \<leftarrow> bs_Free (rdata r) m;
     m2 \<leftarrow> bs_Ref s m1;
     n \<leftarrow> bs_Len s m2;
     Some (r\<lparr>rdata := s, rlen := int n, bufferIdx := 0\<rparr>, m2)
   }"

definition Close :: "Reader \<Rightarrow> mem \<Rightarrow> (Reader \<times> mem) option" where
  "Close r m = do { m1 \<leftarrow> bs_Free (rdata r) m; Some (r\<lparr>rdata := [], rlen := 0\<rparr>, m1) }"

definition freeFirstBufferIfEmpty :: "Reader \<Rightarrow> mem \<Rightarrow> (bool \<times> Reader \<times> mem) option" where
  "freeFirstBufferIfEmpty r m =
     (case rdata r of
        [] \<Rightarrow> Some (False, r, m)
      | b # s \<Rightarrow> do {
          n \<leftarrow> Len b m;
          if bufferIdx r \<noteq> n then Some (False, r, m)
          else do { m1 \<leftarrow> Free b m; Some (True, r\<lparr>rdata := s, bufferIdx := 0\<rparr>, m1) }
        })"

text \<open>
  The loop of \<open>Read\<close>: \<open>len\<close> is the room left in the caller's slice, \<open>acc\<close> what was copied into it.
  Reading \<open>r.data[0]\<close> of an empty slice panics.
\<close>

partial_function (option) read_loop ::
  "nat \<Rightarrow> byte list \<Rightarrow> Reader \<Rightarrow> mem \<Rightarrow> (byte list \<times> Reader \<times> mem) option"
where
  "read_loop len acc r m =
     (if len \<noteq> 0 \<and> rlen r \<noteq> 0 then
        (case rdata r of
           [] \<Rightarrow> None
         | b # s \<Rightarrow> do {
             d \<leftarrow> ReadOnlyData b m;
             t \<leftarrow> reslice_from (bufferIdx r) d;
             let copied = min len (slen t);
             (_, r1, m1) \<leftarrow> freeFirstBufferIfEmpty
                (r\<lparr>rlen := rlen r - int copied, bufferIdx := bufferIdx r + copied\<rparr>) m;
             read_loop (len - copied) (acc @ take copied (sbytes t)) r1 m1
           })
      else Some (acc, r, m))"

definition Read :: "nat \<Rightarrow> Reader \<Rightarrow> mem \<Rightarrow> (byte list \<times> io_error option \<times> Reader \<times> mem) option" where
  "Read len r m =
     (if rlen r = 0 then Some ([], Some EOF, r, m)
      else do { (bs, r1, m1) \<leftarrow> read_loop len [] r m; Some (bs, None, r1, m1) })"

partial_function (option) skip_empty :: "Reader \<Rightarrow> mem \<Rightarrow> (Reader \<times> mem) option" where
  "skip_empty r m = do {
     (freed, r1, m1) \<leftarrow> freeFirstBufferIfEmpty r m;
     if freed then skip_empty r1 m1 else Some (r1, m1)
   }"

definition ReadByte :: "Reader \<Rightarrow> mem \<Rightarrow> (byte \<times> io_error option \<times> Reader \<times> mem) option" where
  "ReadByte r m =
     (if rlen r = 0 then Some (0, Some EOF, r, m)
      else do {
        (r1, m1) \<leftarrow> skip_empty r m;
        (case rdata r1 of
           [] \<Rightarrow> None
         | b # s \<Rightarrow> do {
             d \<leftarrow> ReadOnlyData b m1;
             if bufferIdx r1 < slen d
             then do {
               (_, r2, m2) \<leftarrow> freeFirstBufferIfEmpty
                  (r1\<lparr>rlen := rlen r1 - 1, bufferIdx := bufferIdx r1 + 1\<rparr>) m1;
               Some (sbytes d ! bufferIdx r1, None, r2, m2)
             }
             else None
           })
      })"

text \<open>The loop of \<open>Discard\<close>: what is left to skip, and the reader.\<close>

partial_function (option) discard_loop :: "nat \<Rightarrow> Reader \<Rightarrow> mem \<Rightarrow> (nat \<times> Reader \<times> mem) option" where
  "discard_loop n r m =
     (if 0 < n \<and> 0 < rlen r then
        (case rdata r of
           [] \<Rightarrow> None
         | b # s \<Rightarrow> do {
             d \<leftarrow> ReadOnlyData b m;
             let curSize = min n (slen d - bufferIdx r);
             let r1 = r\<lparr>rlen := rlen r - int curSize, bufferIdx := bufferIdx r + curSize\<rparr>;
             if slen d \<le> bufferIdx r1
             then do {
               m1 \<leftarrow> Free b m;
               discard_loop (n - curSize) (r1\<lparr>rdata := s, bufferIdx := 0\<rparr>) m1
             }
             else discard_loop (n - curSize) r1 m
           })
      else Some (n, r, m))"

definition Discard :: "nat \<Rightarrow> Reader \<Rightarrow> mem \<Rightarrow> (nat \<times> io_error option \<times> Reader \<times> mem) option" where
  "Discard n r m = do {
     (left, r1, m1) \<leftarrow> discard_loop n r m;
     Some (n - left, if 0 < left then Some InsufficientBytes else None, r1, m1)
   }"

text \<open>The loop of \<open>Peek\<close> over the buffers from the \<open>start\<close> offset into the first one.\<close>

fun peek_loop :: "nat \<Rightarrow> Buffer list \<Rightarrow> nat \<Rightarrow> goslice list \<Rightarrow> mem \<Rightarrow> (nat \<times> goslice list) option" where
  "peek_loop n [] start res m = Some (n, res)"
| "peek_loop n (b # s) start res m =
     (if 0 < n then do {
        d \<leftarrow> ReadOnlyData b m;
        let curSize = min n (slen d - start);
        if curSize = 0 then peek_loop n s 0 res m
        else do {
          t \<leftarrow> reslice start (start + curSize) d;
          peek_loop (n - curSize) s 0 (res @ [t]) m
        }
      }
      else Some (n, res))"

definition Peek :: "nat \<Rightarrow> goslice list \<Rightarrow> Reader \<Rightarrow> mem \<Rightarrow> (goslice list \<times> io_error option) option" where
  "Peek n res r m = do {
     (left, res') \<leftarrow> peek_loop n (rdata r) (bufferIdx r) res m;
     Some (if 0 < left then ([], Some InsufficientBytes) else (res', None))
   }"

section \<open>Reading a whole input\<close>

text \<open>
  \<open>NewWriter\<close>'s \<open>Write\<close>: the copied buffer is appended to the slice. \<open>fresh i\<close> is the buffer
  object and \<open>get i\<close> the slice that the pools hand out for the \<open>i\<close>-th buffer of the result.
\<close>

definition writer_Write ::
  "(nat \<Rightarrow> addr) \<Rightarrow> (nat \<Rightarrow> nat \<Rightarrow> poolslice) \<Rightarrow> nat \<Rightarrow> byte list \<Rightarrow> Buffer list \<Rightarrow> mem \<Rightarrow>
   (nat \<times> Buffer list \<times> mem) option"
where
  "writer_Write fresh get pool p buffers m =
     (let (b, m1) = Copy (fresh (length buffers)) (get (length buffers)) p (Some pool) m
      in do { n \<leftarrow> Len b m1; Some (n, buffers @ [b], m1) })"

definition readAllBufSize :: nat where
  "readAllBufSize = 32 * 1024"

definition whole_cap :: "poolslice \<Rightarrow> poolslice" where
  "whole_cap buf = buf\<lparr>pslice := (pslice buf)\<lparr>slen := scap (pslice buf)\<rparr>\<rparr>"

text \<open>
  Both loops of \<open>ReadAll\<close> as one: the buffer being filled, how much of it is used. The reader is the
  function \<open>rd\<close> from the room offered and its state to the bytes it stored and its error.
\<close>

partial_function (option) readAll_loop ::
  "(nat \<Rightarrow> 's \<Rightarrow> byte list \<times> io_error option \<times> 's) \<Rightarrow> (nat \<Rightarrow> addr) \<Rightarrow> (nat \<Rightarrow> nat \<Rightarrow> poolslice) \<Rightarrow> nat \<Rightarrow>
   Buffer list \<Rightarrow> poolslice \<Rightarrow> nat \<Rightarrow> 's \<Rightarrow> mem \<Rightarrow> (Buffer list \<times> io_error option \<times> 's \<times> mem) option"
where
  "readAll_loop rd fresh get pool result buf used s m =
     (let (bs, err, s1) = rd (slen (pslice buf) - used) s;
          buf1 = buf\<lparr>pslice := (pslice buf)\<lparr>backing := go_copy_from used (backing (pslice buf)) bs\<rparr>\<rparr>;
          used1 = used + length bs
      in case err of
           Some e \<Rightarrow>
             (let err1 = (if e = EOF then None else Some e)
              in if used1 = 0
                 then Some (result, err1, s1, m\<lparr>puts := puts m @ [(pool, Some (sliceId buf1))]\<rparr>)
                 else do {
                   t \<leftarrow> reslice 0 used1 (pslice buf1);
                   let (b, m1) = NewBuffer (fresh (length result)) (buf1\<lparr>pslice := t\<rparr>) (Some pool) m;
                   Some (result @ [b], err1, s1, m1)
                 })
         | None \<Rightarrow>
             if slen (pslice buf1) = used1 then
               (let (b, m1) = NewBuffer (fresh (length result)) buf1 (Some pool) m
                in readAll_loop rd fresh get pool (result @ [b])
                     (whole_cap (get (length (result @ [b])) readAllBufSize)) 0 s1 m1)
             else readAll_loop rd fresh get pool result buf1 used1 s1 m)"

text \<open>\<open>wt\<close>: the chunks a reader that is an \<open>io.WriterTo\<close> writes, and its error.\<close>

fun write_chunks ::
  "(nat \<Rightarrow> addr) \<Rightarrow> (nat \<Rightarrow> nat \<Rightarrow> poolslice) \<Rightarrow> nat \<Rightarrow> byte list list \<Rightarrow> Buffer list \<Rightarrow> mem \<Rightarrow>
   (Buffer list \<times> mem) option"
where
  "write_chunks fresh get pool [] result m = Some (result, m)"
| "write_chunks fresh get pool (p # ps) result m = do {
     (_, result1, m1) \<leftarrow> writer_Write fresh get pool p result m;
     write_chunks fresh get pool ps result1 m1
   }"

definition ReadAll ::
  "(nat \<Rightarrow> 's \<Rightarrow> byte list \<times> io_error option \<times> 's) \<Rightarrow> (byte list list \<times> io_error option) option \<Rightarrow>
   (nat \<Rightarrow> addr) \<Rightarrow> (nat \<Rightarrow> nat \<Rightarrow> poolslice) \<Rightarrow> nat \<Rightarrow> 's \<Rightarrow> mem \<Rightarrow>
   (Buffer list \<times> io_error option \<times> 's \<times> mem) option"
where
  "ReadAll rd wt fresh get pool s m =
     (case wt of
        Some (chunks, e) \<Rightarrow> do { (result, m1) \<leftarrow> write_chunks fresh get pool chunks [] m; Some (result, e, s, m1) }
      | None \<Rightarrow> readAll_loop rd fresh get pool [] (whole_cap (get 0 readAllBufSize)) 0 s m)"

section \<open>Contents and ownership\<close>

definition bytes_of :: "Buffer \<Rightarrow> mem \<Rightarrow> byte list" where
  "bytes_of b m = (case ReadOnlyData b m of None \<Rightarrow> [] | Some d \<Rightarrow> sbytes d)"

definition bs_bytes :: "Buffer list \<Rightarrow> mem \<Rightarrow> byte list" where
  "bs_bytes s m = concat (map (\<lambda>b. bytes_of b m) s)"

definition bs_refs :: "Buffer list \<Rightarrow> addr multiset" where
  "bs_refs s = sum_list (map refs_of s)"

fun bwf :: "Buffer \<Rightarrow> bool" where
  "bwf (SliceBuffer d) = swf d"
| "bwf _ = True"

lemma bs_simps [simp]:
  "bs_bytes [] m = []" "bs_bytes (b # s) m = bytes_of b m @ bs_bytes s m"
  "bs_refs [] = {#}" "bs_refs (b # s) = refs_of b + bs_refs s"
  by (simp_all add: bs_bytes_def bs_refs_def)

lemma bs_refs_ConsD:
  assumes "refs_of b + bs_refs s \<subseteq># held"
  shows "refs_of b \<subseteq># held" and "bs_refs s \<subseteq># held"
  using assms mset_subset_eq_add_left mset_subset_eq_add_right subset_mset.order_trans by blast+

lemma readable:
  assumes "mem_ok m held" and "refs_of b \<subseteq># held" and "bwf b"
  obtains d where "ReadOnlyData b m = Some d" and "swf d" and "bytes_of b m = sbytes d"
    and "slen d = length (bytes_of b m)"
proof (cases b)
  case EmptyBuffer
  then show ?thesis by (intro that [of nilslice]) (simp_all add: bytes_of_def swf_def nilslice_def sbytes_def)
next
  case (SliceBuffer d)
  then show ?thesis using assms(3) by (intro that [of d]) (simp_all add: bytes_of_def length_sbytes)
next
  case (BufferRef a)
  then have "live m a" using mem_ok_held_live [OF assms(1)] assms(2) by simp
  then obtain r where r: "rootBuf (objs m a) = Some r" by (auto simp: live_def)
  have "swf (bdata (objs m a))" using obj_ok_live [OF mem_okD [OF assms(1)] r] by simp
  then show ?thesis using BufferRef r
    by (intro that [of "bdata (objs m a)"]) (simp_all add: bytes_of_def buf_ReadOnlyData_def length_sbytes)
qed

lemma Len_readable:
  "mem_ok m held \<Longrightarrow> refs_of b \<subseteq># held \<Longrightarrow> bwf b \<Longrightarrow> Len b m = Some (length (bytes_of b m))"
  by (erule (2) readable) (simp add: Len_def)

lemma Free_readable:
  assumes "mem_ok m held" and "refs_of b \<subseteq># held"
  shows "\<exists>m'. Free b m = Some m' \<and> mem_ok m' (held - refs_of b) \<and> kept m m'"
proof (cases b)
  case (BufferRef a)
  then have a: "a \<in># held" using assms(2) by simp
  then obtain r where "rootBuf (objs m a) = Some r"
    using mem_ok_held_live [OF assms(1)] by (auto simp: live_def)
  then show ?thesis using mem_ok_Free [OF assms(1) a] BufferRef by auto
qed (use assms(1) in \<open>simp_all add: kept_def\<close>)

lemma Ref_readable:
  assumes "mem_ok m held" and "refs_of b \<subseteq># held"
  shows "\<exists>m'. Ref b m = Some m' \<and> mem_ok m' (refs_of b + held) \<and> (\<forall>c. ReadOnlyData c m' = ReadOnlyData c m)"
proof (cases b)
  case (BufferRef a)
  then have "live m a" using mem_ok_held_live [OF assms(1)] assms(2) by simp
  then obtain m' where m': "buf_Ref a m = Some m'" "mem_ok m' (add_mset a held)"
    "m' = upd a (\<lambda>b. b\<lparr>refs := refs b + 1\<rparr>) m"
    using mem_ok_Ref [OF assms(1)] by blast
  moreover have "ReadOnlyData c m' = ReadOnlyData c m" for c
    by (cases c) (simp_all add: m'(3) buf_ReadOnlyData_def)
  ultimately show ?thesis using BufferRef by simp
qed (use assms(1) in simp_all)

lemma kept_bytes:
  assumes "kept m m'" and "mem_ok m' held" and "refs_of b \<subseteq># held"
  shows "bytes_of b m' = bytes_of b m"
proof (cases b)
  case (BufferRef a)
  then have "live m' a" using mem_ok_held_live [OF assms(2)] assms(3) by simp
  then show ?thesis using assms(1) BufferRef
    by (auto simp: kept_def live_def bytes_of_def buf_ReadOnlyData_def)
qed (simp_all add: bytes_of_def)

lemma kept_bs_bytes:
  assumes "kept m m'" and "mem_ok m' held" and "bs_refs s \<subseteq># held"
  shows "bs_bytes s m' = bs_bytes s m"
  using assms(3)
proof (induction s)
  case (Cons b s)
  then have "refs_of b \<subseteq># held" "bs_refs s \<subseteq># held"
    by (auto dest: bs_refs_ConsD)
  then show ?case using Cons.IH kept_bytes [OF assms(1,2)] by simp
qed simp

lemma kept_refl [simp]: "kept m m"
  by (simp add: kept_def)

lemma kept_trans: "kept m m1 \<Longrightarrow> kept m1 m2 \<Longrightarrow> kept m m2"
  by (auto simp: kept_def live_def)

section \<open>Operations on whole slices\<close>

lemma bs_Len_ok:
  "mem_ok m held \<Longrightarrow> bs_refs s \<subseteq># held \<Longrightarrow> list_all bwf s \<Longrightarrow> bs_Len s m = Some (length (bs_bytes s m))"
proof (induction s)
  case (Cons b s)
  then have "refs_of b \<subseteq># held" "bs_refs s \<subseteq># held"
    by (auto dest: bs_refs_ConsD)
  then show ?case using Cons by (simp add: Len_readable)
qed simp

lemma bs_Free_ok:
  assumes "mem_ok m (others + bs_refs s)"
  shows "\<exists>m'. bs_Free s m = Some m' \<and> mem_ok m' others \<and> kept m m'"
  using assms
proof (induction s arbitrary: m)
  case (Cons b s)
  have "others + bs_refs (b # s) - refs_of b = others + bs_refs s" by simp
  with Free_readable [OF Cons.prems, of b] obtain m1
    where m1: "Free b m = Some m1" "mem_ok m1 (others + bs_refs s)" "kept m m1" by auto
  then show ?case using Cons.IH [OF m1(2)] by (auto intro: kept_trans)
qed simp

lemma bs_Ref_ok:
  assumes "mem_ok m held" and "bs_refs s \<subseteq># held"
  shows "\<exists>m'. bs_Ref s m = Some m' \<and> mem_ok m' (held + bs_refs s) \<and> (\<forall>c. ReadOnlyData c m' = ReadOnlyData c m)"
  using assms
proof (induction s arbitrary: m held)
  case (Cons b s)
  then have sub: "refs_of b \<subseteq># held" "bs_refs s \<subseteq># held"
    by (auto dest: bs_refs_ConsD)
  obtain m1 where m1: "Ref b m = Some m1" "mem_ok m1 (refs_of b + held)"
    "\<forall>c. ReadOnlyData c m1 = ReadOnlyData c m"
    using Ref_readable [OF Cons.prems(1) sub(1)] by blast
  have "bs_refs s \<subseteq># refs_of b + held" using sub(2) by (simp add: subset_mset.add_increasing)
  from Cons.IH [OF m1(2) this] show ?case using m1 by (auto simp: ac_simps)
qed simp

lemma bs_bytes_same: "(\<forall>c. ReadOnlyData c m' = ReadOnlyData c m) \<Longrightarrow> bs_bytes s m' = bs_bytes s m"
  by (simp add: bs_bytes_def bytes_of_def)

lemma go_copy_from_length [simp]: "off \<le> length dst \<Longrightarrow> length (go_copy_from off dst a) = length dst"
  by (simp add: go_copy_from_def go_copy_def)

lemma go_copy_from_append:
  assumes "off \<le> length dst"
  shows "go_copy_from (off + min (length dst - off) (length a)) (go_copy_from off dst a) b =
    go_copy_from off dst (a @ b)"
proof (cases "length a \<le> length dst - off")
  case True
  then show ?thesis using assms by (simp add: go_copy_from_def go_copy_def ac_simps)
next
  case False
  then show ?thesis using assms by (simp add: go_copy_from_def go_copy_def)
qed

lemma bs_CopyTo_ok:
  assumes "mem_ok m held" and "bs_refs s \<subseteq># held" and "list_all bwf s" and "off \<le> length dst"
  shows "bs_CopyTo s off dst m =
    Some (min (length dst) (off + length (bs_bytes s m)), go_copy_from off dst (bs_bytes s m))"
  using assms(2-)
proof (induction s arbitrary: off dst)
  case Nil
  then show ?case by (simp add: go_copy_from_def go_copy_def min_def)
next
  case (Cons b s)
  then have sub: "refs_of b \<subseteq># held" "bs_refs s \<subseteq># held" and wf: "bwf b" "list_all bwf s"
    by (auto dest: bs_refs_ConsD)
  obtain d where d: "ReadOnlyData b m = Some d" "bytes_of b m = sbytes d" "slen d = length (sbytes d)"
    using readable [OF assms(1) sub(1) wf(1)] by metis
  let ?off = "off + min (length dst - off) (slen d)" and ?dst = "go_copy_from off dst (sbytes d)"
  have len: "length ?dst = length dst" using Cons.prems by simp
  have "go_copy_from ?off ?dst (bs_bytes s m) = go_copy_from off dst (sbytes d @ bs_bytes s m)"
    using go_copy_from_append [of off dst "sbytes d"] Cons.prems(3) d(3) by simp
  moreover have "?off \<le> length ?dst" using Cons.prems(3) by (simp add: len)
  moreover have "min (length dst) (?off + n) = min (length dst) (off + (slen d + n))" for n
    using Cons.prems(3) by linarith
  ultimately show ?case using Cons.IH [OF sub(2) wf(2), of ?off ?dst] by (simp add: d(1,2) len flip: d(3))
qed

section \<open>The reader refines the list of the bytes that are left\<close>

definition rbytes :: "Reader \<Rightarrow> mem \<Rightarrow> byte list" where
  "rbytes r m = (case rdata r of [] \<Rightarrow> [] | b # s \<Rightarrow> drop (bufferIdx r) (bytes_of b m) @ bs_bytes s m)"

text \<open>
  \<open>others\<close> are the references held by the rest of the program. After \<open>Close\<close> the offset into the
  first buffer is stale, so it is only constrained while there is a first buffer.
\<close>

definition reader_ok :: "addr multiset \<Rightarrow> Reader \<Rightarrow> mem \<Rightarrow> bool" where
  "reader_ok others r m \<longleftrightarrow>
     mem_ok m (others + bs_refs (rdata r)) \<and> list_all bwf (rdata r) \<and>
     (rdata r \<noteq> [] \<longrightarrow> bufferIdx r \<le> length (bytes_of (hd (rdata r)) m)) \<and>
     rlen r = int (length (rbytes r m))"

text \<open>What an operation that consumes \<open>k\<close> bytes leaves.\<close>

definition advanced :: "addr multiset \<Rightarrow> nat \<Rightarrow> Reader \<Rightarrow> mem \<Rightarrow> Reader \<Rightarrow> mem \<Rightarrow> bool" where
  "advanced others k r m r' m' \<longleftrightarrow>
     reader_ok others r' m' \<and> rbytes r' m' = drop k (rbytes r m) \<and> kept m m'"

lemma advanced_refl: "reader_ok others r m \<Longrightarrow> advanced others 0 r m r m"
  by (simp add: advanced_def)

lemma advanced_trans:
  "advanced others j r m r1 m1 \<Longrightarrow> advanced others k r1 m1 r2 m2 \<Longrightarrow> advanced others (j + k) r m r2 m2"
  by (auto simp: advanced_def ac_simps intro: kept_trans)

lemma reader_first:
  assumes "reader_ok others r m" and "rdata r = b # s"
  obtains d where "ReadOnlyData b m = Some d" and "swf d" and "bytes_of b m = sbytes d"
    and "slen d = length (bytes_of b m)" and "bufferIdx r \<le> slen d"
    and "rbytes r m = drop (bufferIdx r) (sbytes d) @ bs_bytes s m"
proof -
  have "refs_of b \<subseteq># others + bs_refs (rdata r)" using assms(2) by simp
  moreover have "mem_ok m (others + bs_refs (rdata r))" "bwf b" "bufferIdx r \<le> length (bytes_of b m)"
    using assms by (simp_all add: reader_ok_def)
  ultimately obtain d where "ReadOnlyData b m = Some d" "swf d" "bytes_of b m = sbytes d"
    "slen d = length (bytes_of b m)" "bufferIdx r \<le> length (bytes_of b m)"
    by (meson readable)
  then show ?thesis using assms(2) by (intro that [of d]) (simp_all add: rbytes_def)
qed

lemma reader_advance:
  assumes "reader_ok others r m" and "rdata r = b # s" and "bufferIdx r + k \<le> length (bytes_of b m)"
  shows "advanced others k r m (r\<lparr>rlen := rlen r - int k, bufferIdx := bufferIdx r + k\<rparr>) m"
  using assms by (simp add: advanced_def reader_ok_def rbytes_def ac_simps of_nat_diff)

lemma reader_pop:
  assumes "reader_ok others r m" and "rdata r = b # s" and "bufferIdx r = length (bytes_of b m)"
  shows "\<exists>m'. Free b m = Some m' \<and> advanced others 0 r m (r\<lparr>rdata := s, bufferIdx := 0\<rparr>) m'"
proof -
  let ?r = "r\<lparr>rdata := s, bufferIdx := 0\<rparr>"
  have "others + bs_refs (rdata r) - refs_of b = others + bs_refs s" using assms(2) by simp
  then obtain m' where m': "Free b m = Some m'" "mem_ok m' (others + bs_refs s)" "kept m m'"
    using Free_readable [of m "others + bs_refs (rdata r)" b] assms(1,2) by (auto simp: reader_ok_def)
  have "bs_bytes s m' = bs_bytes s m" by (rule kept_bs_bytes [OF m'(3,2)]) simp
  moreover have "rbytes ?r m' = bs_bytes s m'" by (simp add: rbytes_def split: list.splits)
  moreover have "rbytes r m = bs_bytes s m" using assms(2,3) by (simp add: rbytes_def)
  ultimately show ?thesis using m' assms by (simp add: advanced_def reader_ok_def)
qed

lemma freeFirst_ok:
  assumes "reader_ok others r m"
  shows "\<exists>freed r' m'. freeFirstBufferIfEmpty r m = Some (freed, r', m') \<and> advanced others 0 r m r' m' \<and>
    length (rdata r') = length (rdata r) - (if freed then 1 else 0) \<and>
    (freed \<longrightarrow> rdata r \<noteq> []) \<and>
    (\<not> freed \<longrightarrow> r' = r \<and> m' = m \<and> (\<forall>b s. rdata r = b # s \<longrightarrow> bufferIdx r < length (bytes_of b m)))"
proof (cases "rdata r")
  case Nil
  then show ?thesis using assms
    by (intro exI [of _ False]) (simp add: freeFirstBufferIfEmpty_def advanced_refl)
next
  case (Cons b s)
  obtain d where d: "ReadOnlyData b m = Some d" "bytes_of b m = sbytes d" "slen d = length (bytes_of b m)"
    "bufferIdx r \<le> slen d"
    using reader_first [OF assms Cons] by metis
  show ?thesis
  proof (cases "bufferIdx r = slen d")
    case True
    then obtain m' where "Free b m = Some m'" "advanced others 0 r m (r\<lparr>rdata := s, bufferIdx := 0\<rparr>) m'"
      using reader_pop [OF assms Cons] d by auto
    then show ?thesis using Cons d True
      by (intro exI [of _ True]) (simp add: freeFirstBufferIfEmpty_def Len_def)
  next
    case False
    then show ?thesis using Cons d assms
      by (intro exI [of _ False]) (simp add: freeFirstBufferIfEmpty_def Len_def advanced_refl)
  qed
qed

lemma read_loop_ok:
  assumes "reader_ok others r m"
  shows "\<exists>r' m'. read_loop len acc r m = Some (acc @ take len (rbytes r m), r', m') \<and>
    advanced others len r m r' m'"
  using assms
proof (induction "len + length (rdata r)" arbitrary: len acc r m rule: less_induct)
  case less
  show ?case
  proof (cases "len \<noteq> 0 \<and> rlen r \<noteq> 0")
    case False
    then show ?thesis using less.prems
      by (subst read_loop.simps) (auto simp: advanced_def reader_ok_def)
  next
    case True
    then obtain b s where bs: "rdata r = b # s"
      using less.prems by (cases "rdata r") (auto simp: reader_ok_def rbytes_def)
    obtain d where d: "ReadOnlyData b m = Some d" "swf d" "bytes_of b m = sbytes d"
      "slen d = length (bytes_of b m)" "bufferIdx r \<le> slen d"
      "rbytes r m = drop (bufferIdx r) (sbytes d) @ bs_bytes s m"
      by (rule reader_first [OF less.prems bs])
    obtain t where t: "reslice_from (bufferIdx r) d = Some t" "swf t"
      "sbytes t = drop (bufferIdx r) (sbytes d)"
      using reslice_from_inside [OF d(2,5)] by blast
    have st: "slen t = length (sbytes d) - bufferIdx r"
      using length_sbytes [OF t(2)] t(3) by simp
    define k where "k = min len (slen t)"
    let ?r1 = "r\<lparr>rlen := rlen r - int k, bufferIdx := bufferIdx r + k\<rparr>"
    have adv: "advanced others k r m ?r1 m"
      using d st by (intro reader_advance [OF less.prems bs]) (simp add: k_def)
    then have "reader_ok others ?r1 m" by (simp add: advanced_def)
    then obtain freed r2 m2 where fr: "freeFirstBufferIfEmpty ?r1 m = Some (freed, r2, m2)"
      "advanced others 0 ?r1 m r2 m2" "length (rdata r2) = length (rdata ?r1) - (if freed then 1 else 0)"
      "\<not> freed \<longrightarrow> (\<forall>b s. rdata ?r1 = b # s \<longrightarrow> bufferIdx ?r1 < length (bytes_of b m))"
      using freeFirst_ok by blast
    have adv2: "advanced others k r m r2 m2" using advanced_trans [OF adv fr(2)] by simp
    have "len - k + length (rdata r2) < len + length (rdata r)"
      using fr(3,4) True bs d(3,4,5) st by (auto simp: k_def split: if_splits)
    then obtain r' m' where IH: "read_loop (len - k) (acc @ take k (sbytes t)) r2 m2 =
        Some ((acc @ take k (sbytes t)) @ take (len - k) (rbytes r2 m2), r', m')"
      "advanced others (len - k) r2 m2 r' m'"
      using less.hyps [of "len - k" r2 m2 "acc @ take k (sbytes t)"] adv2 by (auto simp: advanced_def)
    have kl: "k \<le> len" "k \<le> length (sbytes t)" using length_sbytes [OF t(2)] by (simp_all add: k_def)
    have "take k (sbytes t) = take k (rbytes r m)" using kl d(6) t(3) by simp
    moreover have "rbytes r2 m2 = drop k (rbytes r m)" using adv2 by (simp add: advanced_def)
    moreover have "take k (rbytes r m) @ take (len - k) (drop k (rbytes r m)) = take len (rbytes r m)"
      using kl(1) by (metis le_add_diff_inverse take_add)
    ultimately have "read_loop len acc r m = Some (acc @ take len (rbytes r m), r', m')"
      using True bs d(1) t(1) fr(1) IH(1)
      by (subst read_loop.simps) (simp add: Let_def flip: k_def)
    then show ?thesis using advanced_trans [OF adv2 IH(2)] kl(1) by simp
  qed
qed

lemma Read_ok:
  assumes "reader_ok others r m"
  shows "\<exists>r' m'. Read len r m = Some (take len (rbytes r m), if rbytes r m = [] then Some EOF else None, r', m') \<and>
    advanced others len r m r' m'"
proof (cases "rlen r = 0")
  case True
  then show ?thesis using assms by (simp add: Read_def advanced_def reader_ok_def)
next
  case False
  then show ?thesis using read_loop_ok [OF assms, of len "[]"] assms
    by (auto simp: Read_def reader_ok_def)
qed

lemma skip_empty_ok:
  assumes "reader_ok others r m"
  shows "\<exists>r' m'. skip_empty r m = Some (r', m') \<and> advanced others 0 r m r' m' \<and>
    (\<forall>b s. rdata r' = b # s \<longrightarrow> bufferIdx r' < length (bytes_of b m'))"
  using assms
proof (induction "length (rdata r)" arbitrary: r m rule: less_induct)
  case less
  obtain freed r1 m1 where fr: "freeFirstBufferIfEmpty r m = Some (freed, r1, m1)"
    "advanced others 0 r m r1 m1" "length (rdata r1) = length (rdata r) - (if freed then 1 else 0)"
    "freed \<longrightarrow> rdata r \<noteq> []"
    "\<not> freed \<longrightarrow> r1 = r \<and> m1 = m \<and> (\<forall>b s. rdata r = b # s \<longrightarrow> bufferIdx r < length (bytes_of b m))"
    using freeFirst_ok [OF less.prems] by blast
  show ?case
  proof (cases freed)
    case True
    then have "length (rdata r1) < length (rdata r)" "reader_ok others r1 m1"
      using fr by (simp_all add: advanced_def)
    then obtain r' m' where IH: "skip_empty r1 m1 = Some (r', m')" "advanced others 0 r1 m1 r' m'"
      "\<forall>b s. rdata r' = b # s \<longrightarrow> bufferIdx r' < length (bytes_of b m')"
      using less.hyps by blast
    then show ?thesis using advanced_trans [OF fr(2) IH(2)] fr(1) True
      by (subst skip_empty.simps) auto
  next
    case False
    then show ?thesis using fr by (subst skip_empty.simps) auto
  qed
qed

lemma ReadByte_ok:
  assumes "reader_ok others r m"
  shows "\<exists>r' m'. ReadByte r m =
      Some (case rbytes r m of [] \<Rightarrow> 0 | x # _ \<Rightarrow> x, if rbytes r m = [] then Some EOF else None, r', m') \<and>
    advanced others 1 r m r' m'"
proof (cases "rlen r = 0")
  case True
  then show ?thesis using assms by (simp add: ReadByte_def advanced_def reader_ok_def)
next
  case False
  obtain r1 m1 where sk: "skip_empty r m = Some (r1, m1)" "advanced others 0 r m r1 m1"
    "\<forall>b s. rdata r1 = b # s \<longrightarrow> bufferIdx r1 < length (bytes_of b m1)"
    using skip_empty_ok [OF assms] by blast
  then have ok1: "reader_ok others r1 m1" and same: "rbytes r1 m1 = rbytes r m"
    by (simp_all add: advanced_def)
  have ne: "rbytes r m \<noteq> []" using False assms by (simp add: reader_ok_def)
  then obtain b s where bs: "rdata r1 = b # s"
    using same by (cases "rdata r1") (auto simp: rbytes_def)
  obtain d where d: "ReadOnlyData b m1 = Some d" "bytes_of b m1 = sbytes d"
    "slen d = length (bytes_of b m1)"
    "rbytes r1 m1 = drop (bufferIdx r1) (sbytes d) @ bs_bytes s m1"
    using reader_first [OF ok1 bs] by metis
  have i: "bufferIdx r1 < slen d" using sk(3) bs d by simp
  let ?r2 = "r1\<lparr>rlen := rlen r1 - 1, bufferIdx := bufferIdx r1 + 1\<rparr>"
  have adv: "advanced others 1 r1 m1 ?r2 m1"
    using reader_advance [OF ok1 bs, of 1] i d by simp
  then obtain freed r3 m3 where fr: "freeFirstBufferIfEmpty ?r2 m1 = Some (freed, r3, m3)"
    "advanced others 0 ?r2 m1 r3 m3"
    using freeFirst_ok [of others ?r2 m1] by (auto simp: advanced_def)
  have "rbytes r m = sbytes d ! bufferIdx r1 # drop (Suc (bufferIdx r1)) (sbytes d) @ bs_bytes s m1"
    using i d same by (simp add: Cons_nth_drop_Suc)
  then show ?thesis
    using False sk(1) bs d(1) i fr(1) advanced_trans [OF sk(2) advanced_trans [OF adv fr(2)]]
    by (simp add: ReadByte_def)
qed

lemma discard_loop_ok:
  assumes "reader_ok others r m"
  shows "\<exists>r' m'. discard_loop n r m = Some (n - length (rbytes r m), r', m') \<and> advanced others n r m r' m'"
  using assms
proof (induction "n + length (rdata r)" arbitrary: n r m rule: less_induct)
  case less
  show ?case
  proof (cases "0 < n \<and> 0 < rlen r")
    case False
    then show ?thesis using less.prems
      by (subst discard_loop.simps) (auto simp: advanced_def reader_ok_def)
  next
    case True
    then obtain b s where bs: "rdata r = b # s"
      using less.prems by (cases "rdata r") (auto simp: reader_ok_def rbytes_def)
    obtain d where d: "ReadOnlyData b m = Some d" "bytes_of b m = sbytes d"
      "slen d = length (bytes_of b m)" "bufferIdx r \<le> slen d"
      "rbytes r m = drop (bufferIdx r) (sbytes d) @ bs_bytes s m"
      using reader_first [OF less.prems bs] by metis
    define k where "k = min n (slen d - bufferIdx r)"
    let ?r1 = "r\<lparr>rlen := rlen r - int k, bufferIdx := bufferIdx r + k\<rparr>"
    have adv: "advanced others k r m ?r1 m"
      using d by (intro reader_advance [OF less.prems bs]) (simp add: k_def)
    have left: "n - k - length (drop k (rbytes r m)) = n - length (rbytes r m)" "k \<le> n"
      using d by (simp_all add: k_def)
    show ?thesis
    proof (cases "slen d \<le> bufferIdx ?r1")
      case fin: True
      define r2 where "r2 = ?r1\<lparr>rdata := s, bufferIdx := 0\<rparr>"
      obtain m1 where m1: "Free b m = Some m1" "advanced others 0 ?r1 m r2 m1"
        using reader_pop [of others ?r1 m b s] adv bs d fin by (auto simp: advanced_def k_def r2_def)
      have adv2: "advanced others k r m r2 m1" using advanced_trans [OF adv m1(2)] by simp
      then have ok: "reader_ok others r2 m1" and rb: "rbytes r2 m1 = drop k (rbytes r m)"
        by (simp_all add: advanced_def)
      have "n - k + length (rdata r2) < n + length (rdata r)" using bs by (simp add: r2_def)
      from less.hyps [OF this ok] obtain r' m'
        where IH: "discard_loop (n - k) r2 m1 = Some (n - length (rbytes r m), r', m')"
          "advanced others (n - k) r2 m1 r' m'"
        using left(1) by (auto simp: rb)
      have "discard_loop n r m = Some (n - length (rbytes r m), r', m')"
        using True bs d(1) fin m1(1) IH(1)
        by (subst discard_loop.simps) (simp add: Let_def r2_def flip: k_def)
      then show ?thesis using advanced_trans [OF adv2 IH(2)] left(2) by simp
    next
      case more: False
      then have "n - k < n" using True by (simp add: k_def)
      then show ?thesis using less.hyps [of "n - k" ?r1 m] adv True bs d(1) more left
        by (subst discard_loop.simps)
          (auto simp: Let_def advanced_def simp flip: k_def dest: kept_trans)
    qed
  qed
qed

lemma peek_loop_ok:
  assumes "mem_ok m held"
  shows "bs_refs s \<subseteq># held \<Longrightarrow> list_all bwf s \<Longrightarrow> s = [] \<or> start \<le> length (bytes_of (hd s) m) \<Longrightarrow>
    \<exists>ts. peek_loop n s start res m = Some (n - length (drop start (bs_bytes s m)), res @ ts) \<and>
      concat (map sbytes ts) = take n (drop start (bs_bytes s m))"
proof (induction s arbitrary: n start res)
  case Nil
  then show ?case by simp
next
  case (Cons b s)
  then have sub: "refs_of b \<subseteq># held" "bs_refs s \<subseteq># held" and wf: "bwf b" "list_all bwf s"
    by (auto dest: bs_refs_ConsD)
  obtain d where d: "ReadOnlyData b m = Some d" "swf d" "bytes_of b m = sbytes d"
    "slen d = length (sbytes d)"
    using readable [OF assms sub(1) wf(1)] by metis
  have st: "start \<le> slen d" using Cons.prems(3) d by simp
  define k where "k = min n (slen d - start)"
  note IH = Cons.IH [OF sub(2) wf(2), of 0]
  consider "n = 0" | "0 < n" "k = 0" | "0 < n" "0 < k" by fastforce
  then show ?case
  proof cases
    case 1
    then show ?thesis by simp
  next
    case 2
    then have "start = slen d" using st by (simp add: k_def)
    then show ?thesis using 2 IH [of n res] d by (simp add: Let_def flip: k_def)
  next
    case 3
    have inside: "start + k \<le> slen d" using st by (simp add: k_def)
    obtain t where t: "reslice start (start + k) d = Some t" "sbytes t = take k (drop start (sbytes d))"
      using reslice_inside [OF d(2), of start "start + k"] inside by auto
    obtain ts where ts: "peek_loop (n - k) s 0 (res @ [t]) m =
        Some (n - k - length (bs_bytes s m), (res @ [t]) @ ts)"
      "concat (map sbytes ts) = take (n - k) (bs_bytes s m)"
      using IH [of "n - k" "res @ [t]"] by auto
    have "take k (drop start (sbytes d)) @ take (n - k) (bs_bytes s m) = take n (drop start (sbytes d) @ bs_bytes s m)"
      using d(4) by (auto simp: k_def min_def)
    moreover have "n - k - length (bs_bytes s m) = n - length (drop start (sbytes d) @ bs_bytes s m)"
      using d(4) by (auto simp: k_def min_def)
    moreover have "peek_loop n (b # s) start res m = peek_loop (n - k) s 0 (res @ [t]) m"
      using 3 d(1) t(1) by (simp add: Let_def flip: k_def)
    moreover have "drop start (bs_bytes (b # s) m) = drop start (sbytes d) @ bs_bytes s m"
      using st d by simp
    ultimately show ?thesis using ts t(2)
      by (intro exI [of _ "t # ts"]) (simp only: list.map concat.simps append.simps append_assoc)
  qed
qed

text \<open>What the reader does to the bytes that are left, as operations on a byte list.\<close>

datatype reader_op = DoRead nat | DoReadByte | DoDiscard nat | DoPeek nat

datatype reader_out = Got "byte list" "io_error option" | GotByte byte "io_error option"
  | Skipped nat "io_error option"

fun spec_reader :: "reader_op \<Rightarrow> byte list \<Rightarrow> reader_out \<times> byte list" where
  "spec_reader (DoRead n) xs = (Got (take n xs) (if xs = [] then Some EOF else None), drop n xs)"
| "spec_reader DoReadByte xs =
     (GotByte (case xs of [] \<Rightarrow> 0 | x # _ \<Rightarrow> x) (if xs = [] then Some EOF else None), drop 1 xs)"
| "spec_reader (DoDiscard n) xs =
     (Skipped (min n (length xs)) (if length xs < n then Some InsufficientBytes else None), drop n xs)"
| "spec_reader (DoPeek n) xs =
     (if length xs < n then Got [] (Some InsufficientBytes) else Got (take n xs) None, xs)"

fun spec_run :: "reader_op list \<Rightarrow> byte list \<Rightarrow> reader_out list" where
  "spec_run [] xs = []"
| "spec_run (p # ps) xs = (let (out, ys) = spec_reader p xs in out # spec_run ps ys)"

fun reader_exec :: "reader_op \<Rightarrow> Reader \<Rightarrow> mem \<Rightarrow> (reader_out \<times> Reader \<times> mem) option" where
  "reader_exec (DoRead n) r m = do { (bs, e, r', m') \<leftarrow> Read n r m; Some (Got bs e, r', m') }"
| "reader_exec DoReadByte r m = do { (b, e, r', m') \<leftarrow> ReadByte r m; Some (GotByte b e, r', m') }"
| "reader_exec (DoDiscard n) r m = do { (k, e, r', m') \<leftarrow> Discard n r m; Some (Skipped k e, r', m') }"
| "reader_exec (DoPeek n) r m =
     do { (res, e) \<leftarrow> Peek n [] r m; Some (Got (concat (map sbytes res)) e, r, m) }"

fun reader_run :: "reader_op list \<Rightarrow> Reader \<Rightarrow> mem \<Rightarrow> (reader_out list \<times> Reader \<times> mem) option" where
  "reader_run [] r m = Some ([], r, m)"
| "reader_run (p # ps) r m = do {
     (out, r1, m1) \<leftarrow> reader_exec p r m;
     (outs, r2, m2) \<leftarrow> reader_run ps r1 m1;
     Some (out # outs, r2, m2)
   }"

lemma rbytes_drop: "reader_ok others r m \<Longrightarrow> rbytes r m = drop (bufferIdx r) (bs_bytes (rdata r) m)"
  by (auto simp: rbytes_def reader_ok_def split: list.splits)

lemma Peek_ok:
  assumes "reader_ok others r m"
  shows "\<exists>ts. Peek n res r m = Some (if length (rbytes r m) < n then ([], Some InsufficientBytes) else (res @ ts, None)) \<and>
    concat (map sbytes ts) = take n (rbytes r m)"
proof -
  obtain ts where "peek_loop n (rdata r) (bufferIdx r) res m = Some (n - length (rbytes r m), res @ ts)"
    "concat (map sbytes ts) = take n (rbytes r m)"
    using peek_loop_ok [of m "others + bs_refs (rdata r)" "rdata r" "bufferIdx r" n res] assms
    unfolding rbytes_drop [OF assms] by (auto simp: reader_ok_def)
  then show ?thesis by (intro exI [of _ ts]) (simp add: Peek_def)
qed

lemma Discard_ok:
  assumes "reader_ok others r m"
  shows "\<exists>r' m'. Discard n r m = Some (min n (length (rbytes r m)),
      if length (rbytes r m) < n then Some InsufficientBytes else None, r', m') \<and>
    advanced others n r m r' m'"
  using discard_loop_ok [OF assms, of n] by (auto simp: Discard_def)

lemma reader_exec_ok:
  assumes "reader_ok others r m"
  shows "\<exists>r' m'. reader_exec p r m = Some (fst (spec_reader p (rbytes r m)), r', m') \<and>
    reader_ok others r' m' \<and> rbytes r' m' = snd (spec_reader p (rbytes r m)) \<and> kept m m'"
proof (cases p)
  case (DoRead n)
  then show ?thesis using Read_ok [OF assms, of n] by (auto simp: advanced_def)
next
  case DoReadByte
  then show ?thesis using ReadByte_ok [OF assms] by (auto simp: advanced_def)
next
  case (DoDiscard n)
  then show ?thesis using Discard_ok [OF assms, of n] by (auto simp: advanced_def)
next
  case (DoPeek n)
  then show ?thesis using Peek_ok [OF assms, of n "[]"] assms by auto
qed

lemma reader_run_ok:
  assumes "reader_ok others r m"
  shows "\<exists>r' m'. reader_run ps r m = Some (spec_run ps (rbytes r m), r', m') \<and>
    reader_ok others r' m' \<and> kept m m'"
  using assms
proof (induction ps arbitrary: r m)
  case (Cons p ps)
  obtain r1 m1 where step: "reader_exec p r m = Some (fst (spec_reader p (rbytes r m)), r1, m1)"
    "reader_ok others r1 m1" "rbytes r1 m1 = snd (spec_reader p (rbytes r m))" "kept m m1"
    using reader_exec_ok [OF Cons.prems] by blast
  from Cons.IH [OF step(2)] show ?case using step
    by (auto simp: case_prod_beta Let_def intro: kept_trans)
qed simp

lemma bs_Reader_ok:
  assumes "mem_ok m held" and "bs_refs s \<subseteq># held" and "list_all bwf s"
  shows "\<exists>r m1. bs_Reader s m = Some (r, m1) \<and> reader_ok held r m1 \<and> rbytes r m1 = bs_bytes s m \<and>
    (\<forall>c. ReadOnlyData c m1 = ReadOnlyData c m)"
proof -
  obtain m1 where m1: "bs_Ref s m = Some m1" "mem_ok m1 (held + bs_refs s)"
    "\<forall>c. ReadOnlyData c m1 = ReadOnlyData c m"
    using bs_Ref_ok [OF assms(1,2)] by blast
  let ?r = "\<lparr>rdata = s, rlen = int (length (bs_bytes s m1)), bufferIdx = 0\<rparr>"
  have "bs_Len s m1 = Some (length (bs_bytes s m1))" by (rule bs_Len_ok [OF m1(2) _ assms(3)]) simp
  moreover have "rbytes ?r m1 = bs_bytes s m1" by (simp add: rbytes_def split: list.splits)
  ultimately show ?thesis using m1 assms(3) bs_bytes_same [OF m1(3)]
    by (simp add: bs_Reader_def reader_ok_def)
qed

lemma Close_ok:
  assumes "reader_ok others r m"
  shows "\<exists>r' m'. Close r m = Some (r', m') \<and> mem_ok m' others \<and> kept m m' \<and> reader_ok others r' m' \<and> rbytes r' m' = []"
  using bs_Free_ok [of m others "rdata r"] assms
  by (auto simp: Close_def reader_ok_def rbytes_def)

section \<open>The contract of an input\<close>

text \<open>
  What \<open>io.Reader\<close> documents, for a reader that has finitely many bytes and fails only at their end:
  a call stores at most as many bytes as there is room for, in order; it makes progress or
  reports an error; it reports \<open>io.EOF\<close> when nothing is left.
\<close>

locale io_source =
  fixes good :: "'s \<Rightarrow> bool"
    and content :: "'s \<Rightarrow> byte list"
    and rd :: "nat \<Rightarrow> 's \<Rightarrow> byte list \<times> io_error option \<times> 's"
  assumes rd_good: "good s \<Longrightarrow> rd n s = (bs, e, s') \<Longrightarrow> good s'"
    and rd_prefix: "good s \<Longrightarrow> rd n s = (bs, e, s') \<Longrightarrow> content s = bs @ content s'"
    and rd_room: "good s \<Longrightarrow> rd n s = (bs, e, s') \<Longrightarrow> length bs \<le> n"
    and rd_progress: "good s \<Longrightarrow> rd n s = (bs, None, s') \<Longrightarrow> 0 < n \<Longrightarrow> bs \<noteq> []"
    and rd_error: "good s \<Longrightarrow> rd n s = (bs, Some err, s') \<Longrightarrow> err = EOF \<and> content s' = []"

lemma NewBuffer_ok:
  assumes "mem_ok m held" and "\<not> live m a" and "swf (pslice d)"
  obtains b m' where "NewBuffer a d (Some p) m = (b, m')" and "mem_ok m' (held + refs_of b)"
    and "bytes_of b m' = sbytes (pslice d)" and "bwf b"
    and "\<And>c. refs_of c \<subseteq># held \<Longrightarrow> bytes_of c m' = bytes_of c m"
    and "\<And>x. \<not> live m x \<Longrightarrow> x \<noteq> a \<Longrightarrow> \<not> live m' x"
proof (cases "IsBelowBufferPoolingThreshold (scap (pslice d))")
  case True
  then show ?thesis using assms
    by (intro that [of "SliceBuffer (pslice d)" m]) (simp_all add: NewBuffer_def bytes_of_def)
next
  case False
  let ?m = "snd (NewBuffer a d (Some p) m)"
  have new: "NewBuffer a d (Some p) m = (BufferRef a, ?m)" "mem_ok ?m (add_mset a held)"
    using mem_ok_New [OF assms(1-3)] False by (simp_all add: prod_eq_iff IsBelowBufferPoolingThreshold_def)
  have objs: "objs ?m x = (if x = a then \<lparr>refs = 1, bdata = pslice d, rootBuf = Some a,
      origData = Some (sliceId d), bpool = Some p\<rparr> else objs m x)" for x
    using False by (simp add: NewBuffer_def)
  have "bytes_of c ?m = bytes_of c m" if "refs_of c \<subseteq># held" for c
    using that mem_ok_held_live [OF assms(1)] assms(2)
    by (cases c) (auto simp: bytes_of_def buf_ReadOnlyData_def objs)
  then show ?thesis using new
    by (intro that [of "BufferRef a" ?m]) (simp_all add: bytes_of_def buf_ReadOnlyData_def objs live_def)
qed

lemma bs_bytes_append [simp]: "bs_bytes (s @ t) m = bs_bytes s m @ bs_bytes t m"
  and bs_refs_append [simp]: "bs_refs (s @ t) = bs_refs s + bs_refs t"
  by (simp_all add: bs_bytes_def bs_refs_def)

text \<open>Returning a slice to its pool changes no buffer.\<close>

lemma mem_ok_puts [simp]: "mem_ok (m\<lparr>puts := p\<rparr>) h = mem_ok m h"
  by (simp add: mem_ok_def obj_ok_def holders_def views_def live_def cong: option.case_cong)

lemma live_puts [simp]: "live (m\<lparr>puts := p\<rparr>) a = live m a"
  by (simp add: live_def)

lemma bytes_of_puts [simp]: "bytes_of c (m\<lparr>puts := p\<rparr>) = bytes_of c m"
  by (cases c) (simp_all add: bytes_of_def buf_ReadOnlyData_def)

text \<open>The buffers of the result and the objects that are still to be handed out.\<close>

definition collected :: "(nat \<Rightarrow> addr) \<Rightarrow> addr multiset \<Rightarrow> Buffer list \<Rightarrow> mem \<Rightarrow> bool" where
  "collected fresh held result m \<longleftrightarrow>
     mem_ok m (held + bs_refs result) \<and> list_all bwf result \<and> (\<forall>i \<ge> length result. \<not> live m (fresh i))"

lemma collect:
  assumes "collected fresh held result m" and "swf (pslice d)" and "inj fresh"
  obtains b m' where "NewBuffer (fresh (length result)) d (Some p) m = (b, m')"
    and "collected fresh held (result @ [b]) m'"
    and "bs_bytes (result @ [b]) m' = bs_bytes result m @ sbytes (pslice d)"
proof -
  have "mem_ok m (held + bs_refs result)" "\<not> live m (fresh (length result))"
    using assms(1) by (simp_all add: collected_def)
  then obtain b m' where new: "NewBuffer (fresh (length result)) d (Some p) m = (b, m')"
    "mem_ok m' (held + bs_refs result + refs_of b)" "bytes_of b m' = sbytes (pslice d)" "bwf b"
    and keep: "\<And>c. refs_of c \<subseteq># held + bs_refs result \<Longrightarrow> bytes_of c m' = bytes_of c m"
    and dead: "\<And>x. \<not> live m x \<Longrightarrow> x \<noteq> fresh (length result) \<Longrightarrow> \<not> live m' x"
    using NewBuffer_ok assms(2) by metis
  have "bs_bytes t m' = bs_bytes t m" if "bs_refs t \<subseteq># held + bs_refs result" for t
    using that by (induction t) (simp_all add: keep bs_refs_ConsD)
  then have "bs_bytes result m' = bs_bytes result m" by simp
  moreover have "\<not> live m' (fresh i)" if "length (result @ [b]) \<le> i" for i
    using dead [of "fresh i"] assms(1) that injD [OF assms(3), of i "length result"]
    by (auto simp: collected_def)
  ultimately show ?thesis using new assms(1)
    by (intro that [of b m']) (simp_all add: collected_def ac_simps)
qed

text \<open>A buffer that is being filled: its first \<open>used\<close> bytes are \<open>pre\<close>, and there is room left.\<close>

definition filling :: "poolslice \<Rightarrow> byte list \<Rightarrow> bool" where
  "filling buf pre \<longleftrightarrow>
     slen (pslice buf) = scap (pslice buf) \<and> length pre < slen (pslice buf) \<and>
     take (length pre) (backing (pslice buf)) = pre"

definition stored :: "nat \<Rightarrow> byte list \<Rightarrow> poolslice \<Rightarrow> poolslice" where
  "stored used bs buf = buf\<lparr>pslice := (pslice buf)\<lparr>backing := go_copy_from used (backing (pslice buf)) bs\<rparr>\<rparr>"

lemma filling_whole_cap: "0 < scap (pslice buf) \<Longrightarrow> filling (whole_cap buf) []"
  by (simp add: filling_def whole_cap_def)

lemma stored_ok:
  assumes "filling buf pre" and "length bs \<le> slen (pslice buf) - length pre"
  shows "slen (pslice (stored (length pre) bs buf)) = slen (pslice buf)"
    and "scap (pslice (stored (length pre) bs buf)) = slen (pslice buf)"
    and "take (length pre + length bs) (backing (pslice (stored (length pre) bs buf))) = pre @ bs"
  using assms by (auto simp: filling_def stored_def go_copy_from_def go_copy_def)

context io_source
begin

lemma readAll_loop_ok:
  assumes "inj fresh" and "\<And>i n. 0 < scap (pslice (get i n))"
  shows "good s \<Longrightarrow> collected fresh held result m \<Longrightarrow> filling buf pre \<Longrightarrow>
    \<exists>result' s' m'. readAll_loop rd fresh get pool result buf (length pre) s m = Some (result', None, s', m') \<and>
      collected fresh held result' m' \<and> bs_bytes result' m' = bs_bytes result m @ pre @ content s"
proof (induction "length (content s)" arbitrary: s result m buf pre rule: less_induct)
  case less
  let ?room = "slen (pslice buf) - length pre"
  have room: "0 < ?room" using less.prems(3) by (simp add: filling_def)
  obtain bs e s1 where rd: "rd ?room s = (bs, e, s1)" by (metis prod_cases3)
  note laws = rd_good [OF less.prems(1) rd] rd_prefix [OF less.prems(1) rd] rd_room [OF less.prems(1) rd]
  define buf1 where "buf1 = stored (length pre) bs buf"
  note st = stored_ok [OF less.prems(3) laws(3), folded buf1_def]
  have swf1: "swf (pslice buf1)" using st by (simp add: swf_def)
  note unfold = readAll_loop.simps [of rd fresh get pool result buf "length pre" s m]
  show ?case
  proof (cases e)
    case (Some err)
    then have err: "err = EOF" "content s1 = []" using rd_error [OF less.prems(1)] rd by blast+
    show ?thesis
    proof (cases "length pre + length bs = 0")
      case True
      then show ?thesis using Some err rd less.prems(2) laws(2)
        by (subst unfold) (simp add: collected_def bs_bytes_def)
    next
      case False
      have "length pre + length bs \<le> slen (pslice buf1)"
        using laws(3) less.prems(3) by (auto simp: st filling_def)
      then obtain t where t: "reslice 0 (length pre + length bs) (pslice buf1) = Some t" "swf t" "sbytes t = pre @ bs"
        using reslice_inside [OF swf1, of 0 "length pre + length bs"] st by (auto simp: sbytes_def min_def)
      obtain b m1 where "NewBuffer (fresh (length result)) (buf1\<lparr>pslice := t\<rparr>) (Some pool) m = (b, m1)"
        "collected fresh held (result @ [b]) m1" "bs_bytes (result @ [b]) m1 = bs_bytes result m @ pre @ bs"
        using collect [OF less.prems(2), of "buf1\<lparr>pslice := t\<rparr>"] t assms(1) by auto
      then show ?thesis using False Some err rd laws(2) t(1)
        by (subst unfold) (auto simp: Let_def simp flip: stored_def buf1_def)
    qed
  next
    case None
    then have shorter: "length (content s1) < length (content s)"
      using rd_progress [OF less.prems(1)] rd room laws(2) by auto
    note IH = less.hyps [OF shorter laws(1)]
    show ?thesis
    proof (cases "slen (pslice buf1) = length pre + length bs")
      case True
      have all: "sbytes (pslice buf1) = pre @ bs" using st(3) True by (simp add: sbytes_def)
      obtain b m1 where new: "NewBuffer (fresh (length result)) buf1 (Some pool) m = (b, m1)"
        "collected fresh held (result @ [b]) m1" "bs_bytes (result @ [b]) m1 = bs_bytes result m @ pre @ bs"
        using collect [OF less.prems(2) swf1 assms(1)] all by metis
      let ?next = "whole_cap (get (Suc (length result)) readAllBufSize)"
      have "filling ?next []" using filling_whole_cap assms(2) by blast
      from IH [OF new(2) this] obtain result' s' m'
        where "readAll_loop rd fresh get pool (result @ [b]) ?next 0 s1 m1 = Some (result', None, s', m')"
          "collected fresh held result' m'" "bs_bytes result' m' = bs_bytes (result @ [b]) m1 @ content s1"
        by auto
      then show ?thesis using True None rd laws(2) new(1) unfolding new(3)
        by (subst unfold) (simp add: Let_def flip: stored_def buf1_def)
    next
      case False
      then have "filling buf1 (pre @ bs)" using st laws(3) less.prems(3) by (auto simp: filling_def)
      from IH [OF less.prems(2) this] show ?thesis using False None rd laws(2)
        by (subst unfold) (simp add: Let_def flip: stored_def buf1_def)
    qed
  qed
qed

end

section \<open>Properties\<close>

text \<open>
  C24: A reader over a buffer slice gives out the bytes of the slice in order, whatever mixture of
  \<open>Read\<close>, \<open>ReadByte\<close>, \<open>Discard\<close> and \<open>Peek\<close> is applied and however the bytes are divided into
  buffers: every loop ends, nothing panics, each answer is the one a byte list would give, and
  \<open>Close\<close> leaves exactly the references that were held before, with their contents.
\<close>

theorem reader_refines_bytes:
  assumes "reach buf_initial buf_step (m, held)" and "bs_refs s \<subseteq># held" and "list_all bwf s"
  shows "\<exists>r m1 r2 m2 r3 m3. bs_Reader s m = Some (r, m1) \<and>
    reader_run ps r m1 = Some (spec_run ps (bs_bytes s m), r2, m2) \<and>
    Close r2 m2 = Some (r3, m3) \<and> mem_ok m3 held \<and> bs_bytes s m3 = bs_bytes s m"
proof -
  have ok: "mem_ok m held" using bufinv.reachable_inv [OF assms(1)] by simp
  obtain r m1 where r: "bs_Reader s m = Some (r, m1)" "reader_ok held r m1" "rbytes r m1 = bs_bytes s m"
    "\<forall>c. ReadOnlyData c m1 = ReadOnlyData c m"
    using bs_Reader_ok [OF ok assms(2,3)] by blast
  obtain r2 m2 where run: "reader_run ps r m1 = Some (spec_run ps (bs_bytes s m), r2, m2)"
    "reader_ok held r2 m2" "kept m1 m2"
    using reader_run_ok [OF r(2), of ps] r(3) by auto
  obtain r3 m3 where cl: "Close r2 m2 = Some (r3, m3)" "mem_ok m3 held" "kept m2 m3"
    using Close_ok [OF run(2)] by blast
  have "bs_bytes s m3 = bs_bytes s m1"
    by (rule kept_bs_bytes [OF kept_trans [OF run(3) cl(3)] cl(2) assms(2)])
  then show ?thesis using r run cl bs_bytes_same [OF r(4)] by auto
qed

lemma demo_bytes: "bs_bytes [SliceBuffer (of_bytes [1, 2]), EmptyBuffer, BufferRef 3] demo_new = [1, 2, 1, 1, 1]"
  by (simp add: bytes_of_def buf_ReadOnlyData_def demo_new_def NewBuffer_def
      IsBelowBufferPoolingThreshold_def BufferPoolingThreshold_def page_def sbytes_def of_bytes_def nilslice_def
      numeral_eq_Suc)

lemma demo_spec: "spec_run [DoPeek 3, DoReadByte, DoRead 2, DoDiscard 9] [1, 2, 1, 1, 1] =
    [Got [1, 2, 1] None, GotByte 1 None, Got [2, 1] None, Skipped 2 (Some InsufficientBytes)]"
  by (simp add: numeral_eq_Suc)

theorem reader_refines_bytes_witness:
  "\<exists>r m1 r2 m2 r3 m3. bs_Reader [SliceBuffer (of_bytes [1, 2]), EmptyBuffer, BufferRef 3] demo_new = Some (r, m1) \<and>
    reader_run [DoPeek 3, DoReadByte, DoRead 2, DoDiscard 9] r m1 =
      Some ([Got [1, 2, 1] None, GotByte 1 None, Got [2, 1] None, Skipped 2 (Some InsufficientBytes)], r2, m2) \<and>
    Close r2 m2 = Some (r3, m3) \<and> mem_ok m3 {#3#}"
proof -
  have "bs_refs [SliceBuffer (of_bytes [1, 2]), EmptyBuffer, BufferRef 3] \<subseteq># {#3#}"
    "list_all bwf [SliceBuffer (of_bytes [1, 2]), EmptyBuffer, BufferRef 3]" by simp_all
  from reader_refines_bytes [OF demo_reach this, of "[DoPeek 3, DoReadByte, DoRead 2, DoDiscard 9]"]
  show ?thesis unfolding demo_bytes demo_spec by blast
qed

text \<open>
  C26: Materializing concatenates: the bytes of the result are the bytes of the buffers in order,
  for a fresh byte array and for a pooled buffer, which is a new reference the caller owns.
\<close>

theorem materialize_concatenates:
  assumes "reach buf_initial buf_step (m, held)" and "bs_refs s \<subseteq># held" and "list_all bwf s"
    and "\<not> live m a" and "swf (pslice (get (length (bs_bytes s m))))"
    and "slen (pslice (get (length (bs_bytes s m)))) = length (bs_bytes s m)"
  shows "Materialize s m = Some (bs_bytes s m) \<and>
    (\<exists>b m'. MaterializeToBuffer a get pool s m = Some (b, m') \<and>
       mem_ok m' (held + refs_of b) \<and> bytes_of b m' = bs_bytes s m)"
proof -
  have ok: "mem_ok m held" using bufinv.reachable_inv [OF assms(1)] by simp
  note len = bs_Len_ok [OF ok assms(2,3)]
  have copy: "bs_CopyTo s 0 dst m = Some (length dst, bs_bytes s m)" if "length dst = length (bs_bytes s m)" for dst
    using bs_CopyTo_ok [OF ok assms(2,3), of 0 dst] that by (simp add: go_copy_from_def go_copy_def)
  have "Materialize s m = Some (bs_bytes s m)" using len copy by (simp add: Materialize_def)
  moreover have "\<exists>b m'. MaterializeToBuffer a get pool s m = Some (b, m') \<and>
       mem_ok m' (held + refs_of b) \<and> bytes_of b m' = bs_bytes s m"
  proof (cases "length s = 1")
    case True
    then obtain b where s: "s = [b]" by (auto simp: length_Suc_conv)
    then show ?thesis using Ref_readable [OF ok, of b] assms(2)
      by (auto simp: MaterializeToBuffer_def bytes_of_def ac_simps)
  next
    case False
    show ?thesis
    proof (cases "bs_bytes s m = []")
      case True
      then show ?thesis using False len ok by (simp add: MaterializeToBuffer_def bytes_of_def)
    next
      case nonempty: False
      let ?buf = "get (length (bs_bytes s m))" and ?out = "bs_bytes s m"
      define d where "d = ?buf\<lparr>pslice := (pslice ?buf)\<lparr>backing := ?out @ drop (length ?out) (backing (pslice ?buf))\<rparr>\<rparr>"
      have d: "swf (pslice d)" "sbytes (pslice d) = ?out"
        using assms(5,6) by (simp_all add: d_def swf_def sbytes_def)
      have "length (sbytes (pslice ?buf)) = length ?out" using assms(5,6) by (simp add: length_sbytes)
      then have "MaterializeToBuffer a get pool s m = Some (NewBuffer a d (Some pool) m)"
        using False nonempty len copy by (simp add: MaterializeToBuffer_def d_def Let_def)
      then show ?thesis using d ok mem_ok_New [OF ok assms(4) d(1)]
        by (cases "IsBelowBufferPoolingThreshold (scap (pslice d))")
          (auto simp: NewBuffer_def bytes_of_def buf_ReadOnlyData_def IsBelowBufferPoolingThreshold_def)
    qed
  qed
  ultimately show ?thesis ..
qed

theorem materialize_concatenates_witness:
  "Materialize [SliceBuffer (of_bytes [1, 2]), EmptyBuffer, BufferRef 3] demo_new = Some [1, 2, 1, 1, 1] \<and>
    (\<exists>b m'. MaterializeToBuffer 4 (\<lambda>n. \<lparr>sliceId = 8, pslice = of_bytes (replicate n 0)\<rparr>) 0
       [SliceBuffer (of_bytes [1, 2]), EmptyBuffer, BufferRef 3] demo_new = Some (b, m') \<and>
       mem_ok m' ({#3#} + refs_of b) \<and> bytes_of b m' = [1, 2, 1, 1, 1])"
proof -
  have "\<not> live demo_new 4"
    by (simp add: live_def demo_new_def NewBuffer_def IsBelowBufferPoolingThreshold_def
        BufferPoolingThreshold_def page_def mem0_def blank_def)
  then show ?thesis
    using materialize_concatenates [OF demo_reach, of "[SliceBuffer (of_bytes [1, 2]), EmptyBuffer, BufferRef 3]" 4
        "\<lambda>n. \<lparr>sliceId = 8, pslice = of_bytes (replicate n 0)\<rparr>" 0]
    unfolding demo_bytes by (simp add: of_bytes_def swf_def)
qed

section \<open>Reading everything\<close>

text \<open>The reader over another buffer slice is an input in the sense of the contract.\<close>

definition reader_rd :: "nat \<Rightarrow> Reader \<times> mem \<Rightarrow> byte list \<times> io_error option \<times> Reader \<times> mem" where
  "reader_rd n = (\<lambda>(r, m). case Read n r m of None \<Rightarrow> ([], Some (ReadError 0), r, m) | Some res \<Rightarrow> res)"

lemma reader_rd_ok:
  assumes "reader_ok others r m" and "reader_rd n (r, m) = (bs, e, r', m')"
  shows "reader_ok others r' m' \<and> bs = take n (rbytes r m) \<and> rbytes r' m' = drop n (rbytes r m) \<and>
    e = (if rbytes r m = [] then Some EOF else None)"
  using Read_ok [OF assms(1), of n] assms(2) by (auto simp: reader_rd_def advanced_def)

interpretation reader_src: io_source "\<lambda>(r, m). \<exists>others. reader_ok others r m" "\<lambda>(r, m). rbytes r m" reader_rd
  by unfold_locales (force dest: reader_rd_ok split: if_splits)+

text \<open>
  C25: Reading everything from a reader collects all of its bytes: \<open>ReadAll\<close> over the reader of any
  buffer slice ends without an error, and the buffers it returns hold exactly the bytes of that
  slice, in pooled buffers that the caller now owns, whatever sizes the pool hands out.
\<close>

theorem readAll_collects_everything:
  assumes "reader_ok others r mr" and "reach buf_initial buf_step (m, held)"
    and "inj fresh" and "\<forall>i. \<not> live m (fresh i)" and "\<forall>i n. 0 < scap (pslice (get i n))"
  shows "\<exists>result s' m'. ReadAll reader_rd None fresh get pool (r, mr) m = Some (result, None, s', m') \<and>
    mem_ok m' (held + bs_refs result) \<and> bs_bytes result m' = rbytes r mr"
proof -
  have "mem_ok m held" using bufinv.reachable_inv [OF assms(2)] by simp
  then have start: "collected fresh held [] m" using assms(4) by (simp add: collected_def)
  have room: "\<And>i n. 0 < scap (pslice (get i n))" using assms(5) by blast
  have good: "case (r, mr) of (r, m) \<Rightarrow> \<exists>others. reader_ok others r m" using assms(1) by auto
  have "filling (whole_cap (get 0 readAllBufSize)) []" using filling_whole_cap room by blast
  from reader_src.readAll_loop_ok [where get = get and s = "(r, mr)" and pool = pool,
      OF assms(3) room good start this]
  show ?thesis by (auto simp: ReadAll_def collected_def)
qed

definition demo_reader :: Reader where
  "demo_reader = \<lparr>rdata = [SliceBuffer (of_bytes [1, 2, 3])], rlen = 3, bufferIdx = 0\<rparr>"

lemma demo_reader_ok: "reader_ok {#} demo_reader mem0 \<and> rbytes demo_reader mem0 = [1, 2, 3]"
  using bufinv.reachable_inv [OF reach_start, of "(mem0, {#})"]
  by (simp add: reader_ok_def demo_reader_def rbytes_def bytes_of_def buf_initial_def)

theorem readAll_collects_everything_witness:
  "\<exists>result s' m'. ReadAll reader_rd None (\<lambda>i. i + 4) (\<lambda>i n. \<lparr>sliceId = i, pslice = of_bytes [0, 0]\<rparr>) 0
     (demo_reader, mem0) demo_new = Some (result, None, s', m') \<and> bs_bytes result m' = [1, 2, 3]"
proof -
  have "inj (\<lambda>i::nat. i + 4)" by (simp add: inj_def)
  moreover have "\<forall>i. \<not> live demo_new (i + 4)"
    by (simp add: live_def demo_new_def NewBuffer_def IsBelowBufferPoolingThreshold_def
        BufferPoolingThreshold_def page_def mem0_def blank_def)
  ultimately show ?thesis
    using readAll_collects_everything [OF conjunct1 [OF demo_reader_ok] demo_reach, of "\<lambda>i. i + 4"
        "\<lambda>i n. \<lparr>sliceId = i, pslice = of_bytes [0, 0]\<rparr>" 0] demo_reader_ok
    by (auto simp: of_bytes_def)
qed

end
