(* ===== verification/Frame_Writer.thy ===== *)
theory Frame_Writer
  imports Buf_Reader "HOL-Library.Sublist"
begin

text \<open>
  The byte-level ends of the transport (\<^verbatim>\<open>internal/transport/http_util.go\<close>): the batching
  \<open>bufWriter\<close> in front of the connection, \<open>framer.writeData\<close>, which lays out DATA frames, and
  \<open>framer.readDataFrame\<close>, which takes them apart. The connection is a parameter that follows the
  contract of \<open>io.Writer\<close>. A panic, or a loop that does not end, is \<open>None\<close>.
\<close>

unbundle bit_operations_syntax

section \<open>Errors\<close>

datatype go_error = Err string | IoError go_error

definition toIOError :: "go_error option \<Rightarrow> go_error option" where
  "toIOError err = (case err of None \<Rightarrow> None | Some e \<Rightarrow> Some (IoError e))"

text \<open>\<open>errors.As\<close> looks through wrapped errors; only \<open>ioError\<close> wraps here.\<close>

fun isIOError :: "go_error option \<Rightarrow> bool" where
  "isIOError (Some (IoError e)) = True"
| "isIOError _ = False"

section \<open>The batching writer\<close>

text \<open>
  \<open>bw_pool\<close> is the shared pool, if any, as the slices its \<open>Get\<close> hands out (their contents are
  arbitrary: the pool does not clear them); \<open>bw_gets\<close> and \<open>bw_puts\<close> count the calls made to it.
\<close>

record 'c bufWriter =
  bw_pool :: "(nat \<Rightarrow> byte list) option"
  bw_bufHandle :: "byte list option"
  bw_offset :: nat
  bw_batchSize :: nat
  bw_conn :: 'c
  bw_err :: "go_error option"
  bw_gets :: nat
  bw_puts :: nat

type_synonym 'c conn_write = "byte list \<Rightarrow> 'c \<Rightarrow> nat \<times> go_error option \<times> 'c"

definition newBufWriter :: "'c \<Rightarrow> nat \<Rightarrow> (nat \<Rightarrow> byte list) option \<Rightarrow> 'c bufWriter" where
  "newBufWriter conn batchSize pool =
     \<lparr>bw_pool = pool,
      bw_bufHandle = (if pool = None \<and> 0 < batchSize then Some (replicate batchSize 0) else None),
      bw_offset = 0, bw_batchSize = batchSize, bw_conn = conn, bw_err = None,
      bw_gets = 0, bw_puts = 0\<rparr>"

definition releaseBuffer :: "'c bufWriter \<Rightarrow> 'c bufWriter" where
  "releaseBuffer w =
     (if bw_pool w \<noteq> None \<and> bw_bufHandle w \<noteq> None
      then w\<lparr>bw_puts := bw_puts w + 1, bw_bufHandle := None\<rparr> else w)"

definition flushKeepBuffer :: "'c conn_write \<Rightarrow> 'c bufWriter \<Rightarrow> (go_error option \<times> 'c bufWriter) option" where
  "flushKeepBuffer cw w =
     (if bw_err w \<noteq> None then Some (bw_err w, w)
      else if bw_offset w = 0 then Some (None, w)
      else
        (case bw_bufHandle w of
           None \<Rightarrow> None
         | Some buf \<Rightarrow>
             if length buf < bw_offset w then None
             else
               let (_, e, c) = cw (take (bw_offset w) buf) (bw_conn w);
                   err = toIOError e;
                   w1 = w\<lparr>bw_conn := c, bw_err := err, bw_offset := 0\<rparr>
               in Some (err, if err \<noteq> None then releaseBuffer w1 else w1)))"

text \<open>
  The loop of \<open>Write\<close>. The buffer is a slice of the length \<open>batchSize\<close>, whose variable \<open>buf\<close> the loop
  keeps using after a flush.
\<close>

partial_function (option) bw_write_loop ::
  "'c conn_write \<Rightarrow> byte list \<Rightarrow> nat \<Rightarrow> 'c bufWriter \<Rightarrow> (nat \<times> go_error option \<times> 'c bufWriter) option"
where
  "bw_write_loop cw b written w =
     (if b = [] then Some (written, None, w)
      else
        (case bw_bufHandle w of
           None \<Rightarrow> None
         | Some buf \<Rightarrow>
             if length buf < bw_offset w then None
             else
               let copied = min (length buf - bw_offset w) (length b);
                   w1 = w\<lparr>bw_bufHandle := Some (go_copy_from (bw_offset w) buf b),
                          bw_offset := bw_offset w + copied\<rparr>
               in if bw_offset w1 < bw_batchSize w1
                  then bw_write_loop cw (drop copied b) (written + copied) w1
                  else do {
                    (err, w2) \<leftarrow> flushKeepBuffer cw w1;
                    if err \<noteq> None then Some (written + copied, err, w2)
                    else bw_write_loop cw (drop copied b) (written + copied) w2
                  }))"

definition bw_Write :: "'c conn_write \<Rightarrow> byte list \<Rightarrow> 'c bufWriter \<Rightarrow> (nat \<times> go_error option \<times> 'c bufWriter) option" where
  "bw_Write cw b w =
     (if bw_err w \<noteq> None then Some (0, bw_err w, w)
      else if bw_batchSize w = 0 then
        let (n, e, c) = cw b (bw_conn w) in Some (n, toIOError e, w\<lparr>bw_conn := c\<rparr>)
      else
        (case bw_bufHandle w of
           Some buf \<Rightarrow> bw_write_loop cw b 0 w
         | None \<Rightarrow>
             (case bw_pool w of
                None \<Rightarrow> None
              | Some get \<Rightarrow> bw_write_loop cw b 0
                  (w\<lparr>bw_bufHandle := Some (get (bw_batchSize w)), bw_gets := bw_gets w + 1\<rparr>))))"

definition bw_Flush :: "'c conn_write \<Rightarrow> 'c bufWriter \<Rightarrow> (go_error option \<times> 'c bufWriter) option" where
  "bw_Flush cw w = do { (err, w1) \<leftarrow> flushKeepBuffer cw w; Some (err, releaseBuffer w1) }"

section \<open>DATA frames\<close>

definition FlagDataEndStream :: byte where
  "FlagDataEndStream = 1"

definition FlagDataPadded :: byte where
  "FlagDataPadded = 8"

definition FrameData :: byte where
  "FrameData = 0"

fun sum_lengths :: "byte list list \<Rightarrow> uint32" where
  "sum_lengths [] = 0"
| "sum_lengths (d # data) = of_nat (length d) + sum_lengths data"

definition data_header :: "uint32 \<Rightarrow> bool \<Rightarrow> uint32 \<Rightarrow> byte list" where
  "data_header streamID endStream len =
     [ucast (drop_bit 16 len), ucast (drop_bit 8 len), ucast len,
      FrameData, if endStream then FlagDataEndStream else 0,
      ucast (drop_bit 24 streamID), ucast (drop_bit 16 streamID), ucast (drop_bit 8 streamID), ucast streamID]"

fun write_all :: "'c conn_write \<Rightarrow> byte list list \<Rightarrow> 'c bufWriter \<Rightarrow> (go_error option \<times> 'c bufWriter) option" where
  "write_all cw [] w = Some (None, w)"
| "write_all cw (d # data) w = do {
     (_, err, w1) \<leftarrow> bw_Write cw d w;
     if err \<noteq> None then Some (err, w1) else write_all cw data w1
   }"

definition writeData :: "'c conn_write \<Rightarrow> uint32 \<Rightarrow> bool \<Rightarrow> byte list list \<Rightarrow> 'c bufWriter \<Rightarrow>
  (go_error option \<times> 'c bufWriter) option"
where
  "writeData cw streamID endStream data w = do {
     (_, err, w1) \<leftarrow> bw_Write cw (data_header streamID endStream (sum_lengths data)) w;
     if err \<noteq> None then Some (err, w1) else write_all cw data w1
   }"

record FrameHeader =
  fh_Length :: nat
  fh_Flags :: byte
  fh_StreamID :: uint32

datatype frame_error = ConnectionErrorProtocol | ErrUnexpectedEOF | ReadEOF

text \<open>
  \<open>io.ReadFull\<close> of \<open>n\<close> bytes from a connection that still delivers \<open>inp\<close>: the bytes and the rest, or
  the error it reports when the connection ends before any byte, or in between.
\<close>

definition ReadFull :: "nat \<Rightarrow> byte list \<Rightarrow> frame_error + byte list \<times> byte list" where
  "ReadFull n inp =
     (if n \<le> length inp then Inr (take n inp, drop n inp)
      else Inl (if inp = [] then ReadEOF else ErrUnexpectedEOF))"

text \<open>
  The body of \<open>readDataFrame\<close> on the slice \<open>buf\<close> the payload is read into: the slice that holds the
  data and what is left of the input.
\<close>

definition fill_slice :: "byte list \<Rightarrow> goslice \<Rightarrow> goslice" where
  "fill_slice bs s = s\<lparr>backing := go_copy_from 0 (backing s) bs\<rparr>"

definition read_payload :: "FrameHeader \<Rightarrow> goslice \<Rightarrow> byte list \<Rightarrow> frame_error + goslice \<times> byte list" where
  "read_payload fh buf inp =
     (if fh_Flags fh AND FlagDataPadded \<noteq> 0 then
        (if fh_Length fh = 0 then Inl ErrUnexpectedEOF
         else
           (case ReadFull 1 inp of
              Inl e \<Rightarrow> Inl e
            | Inr (first, inp1) \<Rightarrow>
                let padSize = unat (hd first);
                    buf1 = (fill_slice first buf)\<lparr>slen := slen buf - 1\<rparr>
                in if slen buf1 < padSize then Inl ConnectionErrorProtocol
                   else
                     (case ReadFull (slen buf1) inp1 of
                        Inl e \<Rightarrow> Inl e
                      | Inr (bs, inp2) \<Rightarrow> Inr ((fill_slice bs buf1)\<lparr>slen := slen buf1 - padSize\<rparr>, inp2))))
      else
        (case ReadFull (slen buf) inp of
           Inl e \<Rightarrow> Inl e
         | Inr (bs, inp1) \<Rightarrow> Inr (fill_slice bs buf, inp1)))"

text \<open>
  \<open>get n\<close> is the slice the pool hands out for \<open>n\<close> bytes, \<open>a\<close> the buffer object. On an error the deferred
  function returns the slice to the pool.
\<close>

definition readDataFrame ::
  "addr \<Rightarrow> (nat \<Rightarrow> poolslice) \<Rightarrow> nat \<Rightarrow> FrameHeader \<Rightarrow> byte list \<Rightarrow> mem \<Rightarrow>
   (frame_error + Buffer \<times> byte list) \<times> mem"
where
  "readDataFrame a get pool fh inp m =
     (if fh_StreamID fh = 0 then (Inl ConnectionErrorProtocol, m)
      else if IsBelowBufferPoolingThreshold (fh_Length fh) then
        (case read_payload fh (of_bytes (replicate (fh_Length fh) 0)) inp of
           Inl e \<Rightarrow> (Inl e, m)
         | Inr (buf, rest) \<Rightarrow> (Inr (SliceBuffer buf, rest), m))
      else
        let handle = get (fh_Length fh)
        in case read_payload fh (pslice handle) inp of
             Inl e \<Rightarrow> (Inl e, m\<lparr>puts := puts m @ [(pool, Some (sliceId handle))]\<rparr>)
           | Inr (buf, rest) \<Rightarrow>
               let (b, m1) = NewBuffer a (handle\<lparr>pslice := buf\<rparr>) (Some pool) m
               in (Inr (b, rest), m1))"

section \<open>The contract of a connection\<close>

text \<open>
  What \<open>io.Writer\<close> documents: \<open>Write\<close> accepts a prefix of the bytes it is given, reports how many, and
  reports an error if it is not all of them.
\<close>

locale io_writer =
  fixes wok :: "'c \<Rightarrow> bool"
    and sent :: "'c \<Rightarrow> byte list"
    and cw :: "'c conn_write"
  assumes cw_ok: "wok c \<Longrightarrow> cw b c = (n, e, c') \<Longrightarrow> wok c'"
    and cw_sent: "wok c \<Longrightarrow> cw b c = (n, e, c') \<Longrightarrow> sent c' = sent c @ take n b"
    and cw_all: "wok c \<Longrightarrow> cw b c = (n, None, c') \<Longrightarrow> n = length b"

text \<open>The bytes a writer has taken over: those on the connection and those in the batch.\<close>

definition accepted :: "('c \<Rightarrow> byte list) \<Rightarrow> 'c bufWriter \<Rightarrow> byte list" where
  "accepted sent w = sent (bw_conn w) @
     (case bw_bufHandle w of None \<Rightarrow> [] | Some buf \<Rightarrow> take (bw_offset w) buf)"

definition bw_wf :: "('c \<Rightarrow> bool) \<Rightarrow> 'c bufWriter \<Rightarrow> bool" where
  "bw_wf wok w \<longleftrightarrow>
     wok (bw_conn w) \<and>
     (case bw_bufHandle w of
        None \<Rightarrow> bw_offset w = 0
      | Some buf \<Rightarrow> length buf = bw_batchSize w \<and> bw_offset w \<le> bw_batchSize w) \<and>
     (bw_pool w = None \<longrightarrow> 0 < bw_batchSize w \<longrightarrow> bw_bufHandle w \<noteq> None) \<and>
     (\<forall>get. bw_pool w = Some get \<longrightarrow> (\<forall>n. length (get n) = n)) \<and>
     bw_gets w = bw_puts w + (if bw_pool w \<noteq> None \<and> bw_bufHandle w \<noteq> None then 1 else 0)"

text \<open>Between calls the batch is never full.\<close>

definition bw_ok :: "('c \<Rightarrow> bool) \<Rightarrow> 'c bufWriter \<Rightarrow> bool" where
  "bw_ok wok w \<longleftrightarrow> bw_wf wok w \<and> (0 < bw_batchSize w \<longrightarrow> bw_offset w < bw_batchSize w)"

text \<open>
  What a call leaves that should take over \<open>b\<close>: all of it, or an I/O error and a connection that got
  a prefix. An unbuffered writer does not remember the error.
\<close>

definition took :: "('c \<Rightarrow> bool) \<Rightarrow> ('c \<Rightarrow> byte list) \<Rightarrow> 'c bufWriter \<Rightarrow> byte list \<Rightarrow> go_error option \<Rightarrow> 'c bufWriter \<Rightarrow> bool" where
  "took wok sent w b e w' \<longleftrightarrow> bw_ok wok w' \<and> bw_batchSize w' = bw_batchSize w \<and> bw_pool w' = bw_pool w \<and>
     (case e of
        None \<Rightarrow> bw_err w' = None \<and> accepted sent w' = accepted sent w @ b
      | Some x \<Rightarrow> isIOError e \<and> (bw_err w' = (if bw_batchSize w = 0 then bw_err w else e)) \<and>
          prefix (sent (bw_conn w')) (accepted sent w @ b))"

lemma toIOError_simps [simp]: "toIOError None = None" "toIOError (Some e) = Some (IoError e)"
  by (simp_all add: toIOError_def)

lemma newBufWriter_ok:
  assumes "wok c" and "\<And>get n. pool = Some get \<Longrightarrow> length (get n) = n"
  shows "bw_ok wok (newBufWriter c batch pool)" and "accepted sent (newBufWriter c batch pool) = sent c"
    and "bw_err (newBufWriter c batch pool) = None"
  using assms by (auto simp: newBufWriter_def bw_ok_def bw_wf_def accepted_def)

lemma bw_write_loop_step:
  assumes "b \<noteq> []" and "bw_bufHandle w = Some buf" and "bw_offset w \<le> length buf"
    and "k1 = min (length buf - bw_offset w) (length b)"
    and "w1 = w\<lparr>bw_bufHandle := Some (go_copy_from (bw_offset w) buf b), bw_offset := bw_offset w + k1\<rparr>"
  shows "bw_write_loop cw b k w =
    (if bw_offset w1 < bw_batchSize w1 then bw_write_loop cw (drop k1 b) (k + k1) w1
     else do {
       (err, w2) \<leftarrow> flushKeepBuffer cw w1;
       if err \<noteq> None then Some (k + k1, err, w2) else bw_write_loop cw (drop k1 b) (k + k1) w2
     })"
  using assms(1-3) unfolding assms(4,5)
  by (subst bw_write_loop.simps) (simp only: Let_def option.case if_False not_less [symmetric] not_not)

context io_writer
begin

lemma flushKeepBuffer_ok:
  assumes "bw_wf wok w" and "bw_err w = None"
  shows "\<exists>e w'. flushKeepBuffer cw w = Some (e, w') \<and> bw_wf wok w' \<and> bw_batchSize w' = bw_batchSize w \<and>
    bw_pool w' = bw_pool w \<and> bw_offset w' = 0 \<and> bw_err w' = e \<and>
    (case e of None \<Rightarrow> bw_bufHandle w' = bw_bufHandle w \<and> sent (bw_conn w') = accepted sent w
     | Some x \<Rightarrow> isIOError e \<and> prefix (sent (bw_conn w')) (accepted sent w))"
proof (cases "bw_offset w = 0")
  case True
  then show ?thesis using assms
    by (auto simp: flushKeepBuffer_def accepted_def split: option.splits)
next
  case False
  then obtain buf where buf: "bw_bufHandle w = Some buf" "length buf = bw_batchSize w" "bw_offset w \<le> bw_batchSize w"
    using assms(1) by (auto simp: bw_wf_def split: option.splits)
  obtain n e c where cw: "cw (take (bw_offset w) buf) (bw_conn w) = (n, e, c)" by (metis prod_cases3)
  have wok: "wok (bw_conn w)" using assms(1) by (simp add: bw_wf_def)
  note laws = cw_ok [OF wok cw] cw_sent [OF wok cw]
  have part: "prefix (take n (take (bw_offset w) buf)) (take (bw_offset w) buf)" by (rule take_is_prefix)
  show ?thesis
  proof (cases e)
    case None
    then have "n = bw_offset w" using cw_all [OF wok, of "take (bw_offset w) buf"] cw buf by simp
    then show ?thesis using False assms buf cw laws None
      by (simp add: flushKeepBuffer_def bw_wf_def accepted_def)
  next
    case (Some x)
    then show ?thesis using False assms buf cw laws part
      by (cases "bw_pool w") (simp_all add: flushKeepBuffer_def bw_wf_def accepted_def releaseBuffer_def Let_def)
  qed
qed

lemma bw_write_loop_ok:
  assumes "bw_ok wok w" and "bw_err w = None" and "0 < bw_batchSize w" and "bw_bufHandle w \<noteq> None"
  shows "\<exists>n e w'. bw_write_loop cw b k w = Some (n, e, w') \<and> took wok sent w b e w' \<and>
    (e = None \<longrightarrow> n = k + length b)"
  using assms
proof (induction "length b" arbitrary: b k w rule: less_induct)
  case less
  show ?case
  proof (cases "b = []")
    case True
    then show ?thesis using less.prems by (subst bw_write_loop.simps) (simp add: took_def)
  next
    case False
    obtain buf where buf: "bw_bufHandle w = Some buf" using less.prems(4) by blast
    have len: "length buf = bw_batchSize w" "bw_offset w < length buf"
      using less.prems buf by (auto simp: bw_ok_def bw_wf_def)
    define k1 where "k1 = min (length buf - bw_offset w) (length b)"
    define w1 where "w1 = w\<lparr>bw_bufHandle := Some (go_copy_from (bw_offset w) buf b), bw_offset := bw_offset w + k1\<rparr>"
    have wf1: "bw_wf wok w1" "bw_err w1 = None" "bw_batchSize w1 = bw_batchSize w" "bw_bufHandle w1 \<noteq> None"
      "bw_pool w1 = bw_pool w"
      using less.prems len buf by (auto simp: w1_def bw_ok_def bw_wf_def k1_def)
    have acc1: "accepted sent w1 = accepted sent w @ take k1 b"
      using len by (auto simp: accepted_def w1_def buf go_copy_from_def go_copy_def k1_def min_def)
    have shorter: "length (drop k1 b) < length b" using False len by (simp add: k1_def)
    have glue: "k + k1 + length (drop k1 b) = k + length b" "take k1 b @ drop k1 b = b"
      by (simp_all add: k1_def)
    note unfold = bw_write_loop_step [OF False buf less_imp_le [OF len(2)] k1_def w1_def, of cw k]
    show ?thesis
    proof (cases "bw_offset w1 < bw_batchSize w1")
      case True
      then have "bw_ok wok w1" using wf1 by (simp add: bw_ok_def)
      from less.hyps [OF shorter this] obtain n e w' where
        IH: "bw_write_loop cw (drop k1 b) (k + k1) w1 = Some (n, e, w')" "took wok sent w1 (drop k1 b) e w'"
          "e = None \<longrightarrow> n = k + length b"
        using wf1 less.prems(3) glue by metis
      have "bw_write_loop cw b k w = Some (n, e, w')"
        using True IH(1) by (subst unfold) simp
      moreover have "took wok sent w b e w'"
        using IH(2) acc1 glue(2) wf1 less.prems(2)
        by (auto simp: took_def split: option.splits)
      ultimately show ?thesis using IH(3) by blast
    next
      case full: False
      obtain e w2 where fl: "flushKeepBuffer cw w1 = Some (e, w2)" "bw_wf wok w2"
        "bw_batchSize w2 = bw_batchSize w1 \<and> bw_pool w2 = bw_pool w1" "bw_offset w2 = 0" "bw_err w2 = e"
        "case e of None \<Rightarrow> bw_bufHandle w2 = bw_bufHandle w1 \<and> sent (bw_conn w2) = accepted sent w1
         | Some x \<Rightarrow> isIOError e \<and> prefix (sent (bw_conn w2)) (accepted sent w1)"
        using flushKeepBuffer_ok [OF wf1(1,2)] by blast
      have ok2: "bw_ok wok w2" using fl less.prems(3) wf1(3) by (simp add: bw_ok_def)
      show ?thesis
      proof (cases e)
        case (Some x)
        have "bw_write_loop cw b k w = Some (k + k1, e, w2)"
          using full fl(1) Some by (subst unfold) simp
        moreover have "prefix (sent (bw_conn w2)) (accepted sent w @ b)"
          using fl(6) Some acc1 glue(2) by (metis append_assoc option.simps(5) prefix_append)
        ultimately show ?thesis using Some fl ok2 wf1(3,5) less.prems(3) by (auto simp: took_def)
      next
        case None
        then have acc2: "accepted sent w2 = accepted sent w @ take k1 b" "bw_bufHandle w2 \<noteq> None"
          using fl(4,6) acc1 wf1(4) by (auto simp: accepted_def split: option.splits)
        from less.hyps [OF shorter ok2] obtain n e' w' where
          IH: "bw_write_loop cw (drop k1 b) (k + k1) w2 = Some (n, e', w')" "took wok sent w2 (drop k1 b) e' w'"
            "e' = None \<longrightarrow> n = k + length b"
          using fl(3,5) None wf1(3) less.prems(3) acc2(2) glue by metis
        have "bw_write_loop cw b k w = Some (n, e', w')"
          using full fl(1) None IH(1) by (subst unfold) simp
        moreover have "took wok sent w b e' w'"
          using IH(2) acc2(1) glue(2) wf1 less.prems(2) fl(3,5) None
          by (auto simp: took_def split: option.splits)
        ultimately show ?thesis using IH(3) by blast
      qed
    qed
  qed
qed

lemma bw_Write_ok:
  assumes "bw_ok wok w" and "bw_err w = None"
  shows "\<exists>n e w'. bw_Write cw b w = Some (n, e, w') \<and> took wok sent w b e w' \<and> (e = None \<longrightarrow> n = length b)"
proof -
  consider "bw_batchSize w = 0" | buf where "0 < bw_batchSize w" "bw_bufHandle w = Some buf"
    | get where "0 < bw_batchSize w" "bw_bufHandle w = None" "bw_pool w = Some get"
    using assms(1) by (cases "bw_bufHandle w"; cases "bw_pool w") (auto simp: bw_ok_def bw_wf_def)
  then show ?thesis
  proof cases
    case 1
    obtain n e c where cw: "cw b (bw_conn w) = (n, e, c)" by (metis prod_cases3)
    have wok: "wok (bw_conn w)" using assms(1) by (simp add: bw_ok_def bw_wf_def)
    have none: "accepted sent w = sent (bw_conn w)" "accepted sent (w\<lparr>bw_conn := c\<rparr>) = sent c"
      using 1 assms(1) by (auto simp: accepted_def bw_ok_def bw_wf_def split: option.splits)
    have all: "n = length b" if "e = None" using cw_all [OF wok, of b n c] cw that by simp
    show ?thesis using 1 assms cw cw_ok [OF wok cw] cw_sent [OF wok cw] none all
      by (cases e) (auto simp: bw_Write_def took_def bw_ok_def bw_wf_def take_is_prefix cong: option.case_cong)
  next
    case 2
    then show ?thesis using bw_write_loop_ok [OF assms, of b 0] assms(2) by (auto simp: bw_Write_def)
  next
    case 3
    let ?w = "w\<lparr>bw_bufHandle := Some (get (bw_batchSize w)), bw_gets := bw_gets w + 1\<rparr>"
    have ok: "bw_ok wok ?w" "bw_err ?w = None" "0 < bw_batchSize ?w" "bw_bufHandle ?w \<noteq> None"
      using assms 3 by (auto simp: bw_ok_def bw_wf_def)
    have "accepted sent ?w = accepted sent w" using assms(1) 3 by (simp add: accepted_def bw_ok_def bw_wf_def)
    then have "took wok sent ?w b e w' = took wok sent w b e w'" for e w'
      by (simp add: took_def cong: option.case_cong)
    then show ?thesis using bw_write_loop_ok [OF ok, of b 0] assms(2) 3 by (simp add: bw_Write_def)
  qed
qed

lemma bw_Flush_ok:
  assumes "bw_ok wok w" and "bw_err w = None"
  shows "\<exists>e w'. bw_Flush cw w = Some (e, w') \<and> took wok sent w [] e w' \<and>
    (e = None \<longrightarrow> sent (bw_conn w') = accepted sent w) \<and>
    (bw_pool w' \<noteq> None \<longrightarrow> bw_bufHandle w' = None)"
proof -
  have wf: "bw_wf wok w" using assms(1) by (simp add: bw_ok_def)
  obtain e w1 where fl: "flushKeepBuffer cw w = Some (e, w1)" "bw_wf wok w1"
    "bw_batchSize w1 = bw_batchSize w \<and> bw_pool w1 = bw_pool w" "bw_offset w1 = 0" "bw_err w1 = e"
    "case e of None \<Rightarrow> bw_bufHandle w1 = bw_bufHandle w \<and> sent (bw_conn w1) = accepted sent w
     | Some x \<Rightarrow> isIOError e \<and> prefix (sent (bw_conn w1)) (accepted sent w)"
    using flushKeepBuffer_ok [OF wf assms(2)] by blast
  have unbuffered: "e = None" if "bw_batchSize w = 0"
    using that assms fl(1) by (auto simp: flushKeepBuffer_def bw_ok_def bw_wf_def split: option.splits)
  have rel: "bw_ok wok (releaseBuffer w1)" "bw_batchSize (releaseBuffer w1) = bw_batchSize w"
    "bw_pool (releaseBuffer w1) = bw_pool w"
    "bw_err (releaseBuffer w1) = e" "bw_conn (releaseBuffer w1) = bw_conn w1"
    "accepted sent (releaseBuffer w1) = sent (bw_conn w1)"
    "bw_pool (releaseBuffer w1) \<noteq> None \<longrightarrow> bw_bufHandle (releaseBuffer w1) = None"
    using fl(2-5) by (auto simp: releaseBuffer_def bw_ok_def bw_wf_def accepted_def split: option.splits)
  show ?thesis using fl(1,6) rel unbuffered by (auto simp: bw_Flush_def took_def split: option.splits)
qed

lemma took_trans:
  "took wok sent w a None w1 \<Longrightarrow> took wok sent w1 b e w2 \<Longrightarrow> bw_err w = None \<Longrightarrow> took wok sent w (a @ b) e w2"
  by (auto simp: took_def split: option.splits)

lemma took_error: "took wok sent w a (Some x) w1 \<Longrightarrow> took wok sent w (a @ b) (Some x) w1"
  by (auto simp: took_def simp flip: append_assoc intro: prefix_prefix)

lemma write_all_ok:
  assumes "bw_ok wok w" and "bw_err w = None"
  shows "\<exists>e w'. write_all cw data w = Some (e, w') \<and> took wok sent w (concat data) e w'"
  using assms
proof (induction data arbitrary: w)
  case Nil
  then show ?case by (simp add: took_def)
next
  case (Cons d data)
  obtain n e w1 where wr: "bw_Write cw d w = Some (n, e, w1)" "took wok sent w d e w1"
    using bw_Write_ok [OF Cons.prems] by blast
  show ?case
  proof (cases e)
    case (Some x)
    then show ?thesis using wr took_error by fastforce
  next
    case None
    then have "bw_ok wok w1" "bw_err w1 = None" using wr(2) by (simp_all add: took_def)
    from Cons.IH [OF this] show ?thesis using wr None took_trans Cons.prems(2) by fastforce
  qed
qed

lemma writeData_ok:
  assumes "bw_ok wok w" and "bw_err w = None"
  shows "\<exists>e w'. writeData cw streamID fin data w = Some (e, w') \<and>
    took wok sent w (data_header streamID fin (sum_lengths data) @ concat data) e w'"
  using write_all_ok [OF assms, of "data_header streamID fin (sum_lengths data) # data"]
  by (simp add: writeData_def)

end

section \<open>A writer of the library that follows the contract\<close>

text \<open>
  The writer of \<^verbatim>\<open>mem.NewWriter\<close> over the pool that allocates anew (\<open>NopBufferPool\<close>), starting from
  an empty heap, whose objects are handed out in order.
\<close>

definition NopBufferPool_Get :: "nat \<Rightarrow> nat \<Rightarrow> poolslice" where
  "NopBufferPool_Get i n = \<lparr>sliceId = i, pslice = of_bytes (replicate n 0)\<rparr>"

definition mem_writer :: "(Buffer list \<times> mem) conn_write" where
  "mem_writer b = (\<lambda>(bufs, m).
     case writer_Write (\<lambda>i. i) NopBufferPool_Get 0 b bufs m of
       None \<Rightarrow> (0, Some (Err ''panic''), (bufs, m))
     | Some (n, bufs1, m1) \<Rightarrow> (n, None, (bufs1, m1)))"

lemma Copy_ok:
  assumes "collected fresh held bufs m" and "inj fresh"
    and "swf (pslice (get (length b)))" and "slen (pslice (get (length b))) = length b"
  obtains c m' where "Copy (fresh (length bufs)) get b (Some pool) m = (c, m')"
    and "collected fresh held (bufs @ [c]) m'" and "bs_bytes (bufs @ [c]) m' = bs_bytes bufs m @ b"
    and "Len c m' = Some (length b)"
proof (cases "IsBelowBufferPoolingThreshold (length b)")
  case True
  have "collected fresh held (bufs @ [SliceBuffer (of_bytes b)]) m"
    using assms(1) by (auto simp: collected_def)
  then show ?thesis using True
    by (intro that [of "SliceBuffer (of_bytes b)" m]) (simp_all add: Copy_def bytes_of_def Len_def of_bytes_def sbytes_def)
next
  case False
  define d where "d = (get (length b))\<lparr>pslice := (pslice (get (length b)))\<lparr>backing :=
    b @ drop (length b) (backing (pslice (get (length b))))\<rparr>\<rparr>"
  have "swf (pslice d)" "sbytes (pslice d) = b"
    using assms(3,4) by (simp_all add: d_def swf_def sbytes_def)
  then obtain c m' where new: "NewBuffer (fresh (length bufs)) d (Some pool) m = (c, m')"
    "collected fresh held (bufs @ [c]) m'" "bs_bytes (bufs @ [c]) m' = bs_bytes bufs m @ b"
    using collect [OF assms(1) _ assms(2), of d pool] by metis
  have "Len c m' = Some (length b)"
    using new(1) assms(4) by (auto simp: NewBuffer_def d_def Len_def buf_ReadOnlyData_def split: if_splits)
  then show ?thesis using that new False assms(4) by (simp add: Copy_def d_def Let_def)
qed

lemma mem_writer_ok:
  assumes "collected (\<lambda>i. i) {#} bufs m" and "mem_writer b (bufs, m) = (n, e, bufs1, m1)"
  shows "n = length b \<and> e = None \<and> collected (\<lambda>i. i) {#} bufs1 m1 \<and> bs_bytes bufs1 m1 = bs_bytes bufs m @ b"
proof -
  have "swf (pslice (NopBufferPool_Get (length bufs) (length b)))"
    "slen (pslice (NopBufferPool_Get (length bufs) (length b))) = length b"
    by (simp_all add: NopBufferPool_Get_def of_bytes_def swf_def)
  then obtain c m' where "Copy (length bufs) (NopBufferPool_Get (length bufs)) b (Some 0) m = (c, m')"
    "collected (\<lambda>i. i) {#} (bufs @ [c]) m'" "bs_bytes (bufs @ [c]) m' = bs_bytes bufs m @ b"
    "Len c m' = Some (length b)"
    using Copy_ok [OF assms(1), of "NopBufferPool_Get (length bufs)" b 0] by (metis inj_on_id2)
  then show ?thesis using assms(2) by (auto simp: mem_writer_def writer_Write_def)
qed

interpretation memw: io_writer "\<lambda>(bufs, m). collected (\<lambda>i. i) {#} bufs m" "\<lambda>(bufs, m). bs_bytes bufs m" mem_writer
  by unfold_locales (force dest: mem_writer_ok)+

section \<open>Properties\<close>

text \<open>A sequence of writes and flushes that stops at the first error.\<close>

datatype bw_op = OpWrite "byte list" | OpFlush

fun bw_run :: "'c conn_write \<Rightarrow> bw_op list \<Rightarrow> 'c bufWriter \<Rightarrow> (go_error option \<times> 'c bufWriter) option" where
  "bw_run cw [] w = Some (None, w)"
| "bw_run cw (OpWrite b # ops) w = do {
     (_, e, w1) \<leftarrow> bw_Write cw b w;
     if e \<noteq> None then Some (e, w1) else bw_run cw ops w1
   }"
| "bw_run cw (OpFlush # ops) w = do {
     (e, w1) \<leftarrow> bw_Flush cw w;
     if e \<noteq> None then Some (e, w1) else bw_run cw ops w1
   }"

fun written_by :: "bw_op list \<Rightarrow> byte list" where
  "written_by [] = []"
| "written_by (OpWrite b # ops) = b @ written_by ops"
| "written_by (OpFlush # ops) = written_by ops"

context io_writer
begin

lemma bw_run_ok:
  assumes "bw_ok wok w" and "bw_err w = None"
  shows "\<exists>e w'. bw_run cw ops w = Some (e, w') \<and> took wok sent w (written_by ops) e w'"
  using assms
proof (induction ops arbitrary: w)
  case Nil
  then show ?case by (simp add: took_def)
next
  case (Cons p ops)
  let ?b = "case p of OpWrite b \<Rightarrow> b | OpFlush \<Rightarrow> []"
  have all: "written_by (p # ops) = ?b @ written_by ops" by (cases p) simp_all
  obtain e w1 where step: "took wok sent w ?b e w1"
    "bw_run cw (p # ops) w = (if e \<noteq> None then Some (e, w1) else bw_run cw ops w1)"
  proof (cases p)
    case (OpWrite b)
    then show ?thesis using bw_Write_ok [OF Cons.prems, of b] by (auto intro: that)
  next
    case OpFlush
    then show ?thesis using bw_Flush_ok [OF Cons.prems] by (auto intro: that)
  qed
  show ?case
  proof (cases e)
    case (Some x)
    then show ?thesis using step took_error unfolding all by auto
  next
    case None
    then have "bw_ok wok w1" "bw_err w1 = None" using step(1) by (simp_all add: took_def)
    from Cons.IH [OF this] show ?thesis using step None took_trans Cons.prems(2) unfolding all by auto
  qed
qed

end

text \<open>
  C27: The batching writer neither loses, repeats nor reorders a byte. Over any connection that
  follows the \<open>io.Writer\<close> contract, with any batch size and with or without a shared pool, a
  sequence of writes and flushes that stops at the first error ends; what has reached the
  connection is always a prefix of what was written; without an error, flushing puts everything
  on the connection and gives the batch buffer back to the shared pool.
\<close>

theorem bufWriter_preserves_bytes:
  assumes "io_writer wok sent cw" and "wok c" and "\<forall>get n. pool = Some get \<longrightarrow> length (get n) = n"
  shows "\<exists>e w. bw_run cw ops (newBufWriter c batch pool) = Some (e, w) \<and>
    prefix (sent (bw_conn w)) (sent c @ written_by ops) \<and>
    (e = None \<longrightarrow> (\<exists>e1 w1. bw_Flush cw w = Some (e1, w1) \<and>
       prefix (sent (bw_conn w1)) (sent c @ written_by ops) \<and>
       (e1 = None \<longrightarrow> sent (bw_conn w1) = sent c @ written_by ops \<and>
          (pool = None \<or> bw_gets w1 = bw_puts w1))))"
proof -
  have ok: "bw_ok wok (newBufWriter c batch pool)" "accepted sent (newBufWriter c batch pool) = sent c"
    "bw_err (newBufWriter c batch pool) = None"
    using assms(2,3) by (auto intro!: newBufWriter_ok)
  obtain e w where run: "bw_run cw ops (newBufWriter c batch pool) = Some (e, w)"
    "took wok sent (newBufWriter c batch pool) (written_by ops) e w"
    using io_writer.bw_run_ok [OF assms(1) ok(1,3)] by blast
  show ?thesis
  proof (cases e)
    case (Some x)
    then show ?thesis using run ok(2) by (auto simp: took_def)
  next
    case None
    then have w: "bw_ok wok w" "bw_err w = None" "accepted sent w = sent c @ written_by ops"
      using run(2) ok(2) by (simp_all add: took_def)
    obtain e1 w1 where fl: "bw_Flush cw w = Some (e1, w1)" "took wok sent w [] e1 w1"
      "e1 = None \<longrightarrow> sent (bw_conn w1) = accepted sent w" "bw_pool w1 \<noteq> None \<longrightarrow> bw_bufHandle w1 = None"
      using io_writer.bw_Flush_ok [OF assms(1) w(1,2)] by blast
    have "bw_pool w1 = pool" using fl(2) run(2) by (simp add: took_def newBufWriter_def)
    then have "pool = None \<or> bw_gets w1 = bw_puts w1"
      using fl(2,4) by (auto simp: took_def bw_ok_def bw_wf_def)
    moreover have "prefix (sent (bw_conn w)) (accepted sent w)" by (simp add: accepted_def)
    ultimately show ?thesis using run(1) fl w None by (cases e1) (auto simp: took_def)
  qed
qed

text \<open>A connection that accepts a limited number of bytes and then fails.\<close>

definition flaky :: "(nat \<times> byte list) conn_write" where
  "flaky b = (\<lambda>(room, got).
     (min room (length b), if length b \<le> room then None else Some (Err ''broken pipe''),
      (room - length b, got @ take room b)))"

lemma flaky_writer: "io_writer (\<lambda>_. True) snd flaky"
  by unfold_locales (auto simp: flaky_def min_def split: if_splits)

theorem bufWriter_preserves_bytes_witness:
  "\<exists>e w. bw_run flaky [OpWrite [1, 2, 3], OpFlush, OpWrite [4, 5]] (newBufWriter (4, []) 2 None) = Some (e, w) \<and>
     prefix (snd (bw_conn w)) [1, 2, 3, 4, 5]"
  using bufWriter_preserves_bytes [OF flaky_writer, where c = "(4, [])" and pool = None and batch = 2
      and ops = "[OpWrite [1, 2, 3], OpFlush, OpWrite [4, 5]]"]
  by auto

section \<open>Frames on the wire\<close>

text \<open>The header of an HTTP/2 frame: 24 bits of length, type, flags, a reserved bit and the stream.\<close>

definition decode_header :: "byte list \<Rightarrow> byte \<times> FrameHeader" where
  "decode_header h =
     (h ! 3, \<lparr>fh_Length = unat (h ! 0) * 2 ^ 16 + unat (h ! 1) * 2 ^ 8 + unat (h ! 2), fh_Flags = h ! 4,
      fh_StreamID = take_bit 31 (push_bit 24 (ucast (h ! 5)) OR push_bit 16 (ucast (h ! 6)) OR
        push_bit 8 (ucast (h ! 7)) OR ucast (h ! 8))\<rparr>)"

lemma bytes_join:
  "push_bit 24 (ucast (ucast (drop_bit 24 x) :: byte)) OR push_bit 16 (ucast (ucast (drop_bit 16 x) :: byte)) OR
   push_bit 8 (ucast (ucast (drop_bit 8 x) :: byte)) OR ucast (ucast x :: byte) = (x :: uint32)"
  (is "?l = x")
proof (rule bit_word_eqI)
  fix n assume "n < LENGTH(32)"
  then consider "24 \<le> n" "n < 32" | "16 \<le> n" "n < 24" | "8 \<le> n" "n < 16" | "n < 8"
    by (simp, linarith)
  then show "bit ?l n \<longleftrightarrow> bit x n" by cases (auto simp: bit_simps)
qed

lemma length_bytes:
  assumes "n < 2 ^ 24"
  shows "unat (ucast (drop_bit 16 (of_nat n :: uint32)) :: byte) * 2 ^ 16 +
    unat (ucast (drop_bit 8 (of_nat n :: uint32)) :: byte) * 2 ^ 8 + unat (ucast (of_nat n :: uint32) :: byte) = n"
proof -
  have n: "unat (of_nat n :: uint32) = n" using assms by (simp add: unat_of_nat take_bit_nat_eq_self)
  have "unat (drop_bit k (of_nat n :: uint32)) = n div 2 ^ k" for k
    by (simp only: unat_drop_bit_eq n) (simp add: drop_bit_eq_div)
  then have b: "unat (ucast (drop_bit k (of_nat n :: uint32)) :: byte) = n div 2 ^ k mod 256" for k
    by (simp add: unsigned_ucast_eq take_bit_eq_mod del: of_nat_unat)
  have "n div 65536 = n div 256 div 256" by (simp flip: div_mult2_eq)
  then have "n div 65536 * 65536 + n div 256 mod 256 * 256 + n mod 256 = n"
    using div_mult_mod_eq [of n 256] div_mult_mod_eq [of "n div 256" 256] by linarith
  with b [of 16] b [of 8] b [of 0] assms show ?thesis by simp
qed

lemma sum_lengths_eq: "sum_lengths data = of_nat (length (concat data))"
  by (induction data) simp_all

lemma decode_data_header:
  assumes "n < 2 ^ 24" and "unat streamID < 2 ^ 31"
  shows "decode_header (data_header streamID fin (of_nat n)) =
    (FrameData, \<lparr>fh_Length = n, fh_Flags = if fin then FlagDataEndStream else 0, fh_StreamID = streamID\<rparr>)"
proof -
  have "take_bit 31 streamID = streamID"
    using assms(2) by (simp add: word_eq_iff_unsigned [where ?'a = nat] unsigned_take_bit_eq take_bit_nat_eq_self)
  then show ?thesis using length_bytes [OF assms(1)]
    by (simp add: decode_header_def data_header_def bytes_join)
qed

section \<open>Reading DATA frames\<close>

lemma fill_slice_ok:
  assumes "swf s" and "length bs \<le> slen s"
  shows "swf (fill_slice bs s)" and "slen (fill_slice bs s) = slen s" and "scap (fill_slice bs s) = scap s"
    and "take (length bs) (backing (fill_slice bs s)) = bs"
  using assms by (simp_all add: fill_slice_def swf_def go_copy_from_def go_copy_def)

definition padded :: "FrameHeader \<Rightarrow> bool" where
  "padded fh \<longleftrightarrow> fh_Flags fh AND FlagDataPadded \<noteq> 0"

text \<open>What a DATA frame with this header carries, when all of it arrives; \<open>None\<close> if it is malformed.\<close>

definition payload_spec :: "FrameHeader \<Rightarrow> byte list \<Rightarrow> byte list option" where
  "payload_spec fh frame =
     (if \<not> padded fh then Some frame
      else case frame of
        [] \<Rightarrow> None
      | p # body \<Rightarrow> if length body < unat p then None else Some (take (length body - unat p) body))"

lemma read_payload_ok:
  assumes "swf buf" and "slen buf = fh_Length fh" and "length frame = fh_Length fh"
  shows "case payload_spec fh frame of
      None \<Rightarrow> \<exists>e. read_payload fh buf (frame @ rest) = Inl e
    | Some data \<Rightarrow> \<exists>s. read_payload fh buf (frame @ rest) = Inr (s, rest) \<and> swf s \<and> sbytes s = data \<and> scap s = scap buf"
proof (cases "padded fh")
  case False
  have fit: "length frame \<le> slen buf" using assms by simp
  show ?thesis using False assms fill_slice_ok [OF assms(1) fit]
    by (simp add: payload_spec_def read_payload_def padded_def ReadFull_def sbytes_def)
next
  case True
  show ?thesis
  proof (cases frame)
    case Nil
    then show ?thesis using True assms by (simp add: payload_spec_def read_payload_def padded_def)
  next
    case (Cons p body)
    define b1 where "b1 = (fill_slice [p] buf)\<lparr>slen := slen buf - 1\<rparr>"
    have len: "slen buf = Suc (length body)" using assms Cons by simp
    have b1: "swf b1" "slen b1 = length body" "scap b1 = scap buf"
      using fill_slice_ok [of buf "[p]"] assms(1) len by (simp_all add: b1_def swf_def)
    note f = fill_slice_ok [OF b1(1), of body]
    have read: "read_payload fh buf (frame @ rest) =
        (if length body < unat p then Inl ConnectionErrorProtocol
         else Inr ((fill_slice body b1)\<lparr>slen := length body - unat p\<rparr>, rest))"
      using True Cons assms(2) len b1(2)
      by (simp add: read_payload_def padded_def ReadFull_def Let_def b1_def)
    have "sbytes ((fill_slice body b1)\<lparr>slen := length body - unat p\<rparr>) = take (length body - unat p) body"
      using f(4) b1(2) by (simp add: sbytes_def) (metis min.absorb1 diff_le_self take_take)
    moreover have "length body \<le> scap buf" using assms(1) len by (simp add: swf_def)
    ultimately show ?thesis using read True Cons f b1
      by (auto simp: payload_spec_def swf_def)
  qed
qed

text \<open>The slices a pool hands out have the requested length.\<close>

definition pool_slices :: "(nat \<Rightarrow> poolslice) \<Rightarrow> bool" where
  "pool_slices get \<longleftrightarrow> (\<forall>n. swf (pslice (get n)) \<and> slen (pslice (get n)) = n)"

lemma readDataFrame_complete:
  assumes "mem_ok m held" and "\<not> live m a" and "pool_slices get"
    and "fh_StreamID fh \<noteq> 0" and "length frame = fh_Length fh" and "payload_spec fh frame = Some data"
  shows "\<exists>b m'. readDataFrame a get pool fh (frame @ rest) m = (Inr (b, rest), m') \<and>
    mem_ok m' (held + refs_of b) \<and> bytes_of b m' = data"
proof (cases "IsBelowBufferPoolingThreshold (fh_Length fh)")
  case True
  let ?buf = "of_bytes (replicate (fh_Length fh) 0)"
  obtain s where "read_payload fh ?buf (frame @ rest) = Inr (s, rest)" "sbytes s = data"
    using read_payload_ok [of ?buf fh frame rest] assms(5,6) by (auto simp: of_bytes_def swf_def)
  then show ?thesis using True assms(1,4) by (simp add: readDataFrame_def bytes_of_def)
next
  case False
  let ?h = "get (fh_Length fh)"
  have h: "swf (pslice ?h)" "slen (pslice ?h) = fh_Length fh" using assms(3) by (simp_all add: pool_slices_def)
  obtain s where s: "read_payload fh (pslice ?h) (frame @ rest) = Inr (s, rest)" "swf s" "sbytes s = data"
    using read_payload_ok [OF h assms(5), of rest] assms(6) by auto
  obtain b m' where "NewBuffer a (?h\<lparr>pslice := s\<rparr>) (Some pool) m = (b, m')"
    "mem_ok m' (held + refs_of b)" "bytes_of b m' = data"
    using NewBuffer_ok [OF assms(1,2), of "?h\<lparr>pslice := s\<rparr>" pool] s(2,3) by (metis poolslice.select_convs(2) poolslice.surjective poolslice.update_convs(2))
  then show ?thesis using False assms(4) s by (simp add: readDataFrame_def Let_def)
qed

text \<open>
  C28: A DATA frame survives the wire: the bytes that \<open>writeData\<close> hands to the connection are a
  nine-byte header, which decodes to a DATA frame of the right length, stream and END_STREAM flag,
  and the payload; \<open>readDataFrame\<close> on that header consumes exactly the payload and returns it in
  a buffer the caller owns.
\<close>

theorem data_frame_roundtrip:
  assumes "io_writer wok sent cw" and "bw_ok wok w" and "bw_err w = None"
    and "length (concat data) < 2 ^ 24" and "streamID \<noteq> 0" and "unat streamID < 2 ^ 31"
    and "reach buf_initial buf_step (m, held)" and "\<not> live m a" and "pool_slices get"
    and "writeData cw streamID fin data w = Some (None, w')"
  shows "\<exists>hdr fh b m'. accepted sent w' = accepted sent w @ hdr @ concat data \<and> length hdr = 9 \<and>
    decode_header hdr = (FrameData, fh) \<and>
    fh_StreamID fh = streamID \<and> (fh_Flags fh AND FlagDataEndStream \<noteq> 0 \<longleftrightarrow> fin) \<and>
    readDataFrame a get pool fh (concat data @ rest) m = (Inr (b, rest), m') \<and>
    mem_ok m' (held + refs_of b) \<and> bytes_of b m' = concat data"
proof -
  let ?hdr = "data_header streamID fin (of_nat (length (concat data)))"
  let ?fh = "\<lparr>fh_Length = length (concat data), fh_Flags = if fin then FlagDataEndStream else 0, fh_StreamID = streamID\<rparr>"
  have ok: "mem_ok m held" using bufinv.reachable_inv [OF assms(7)] by simp
  have "accepted sent w' = accepted sent w @ ?hdr @ concat data"
    using io_writer.writeData_ok [OF assms(1-3), of streamID fin data] assms(10)
    by (auto simp: took_def sum_lengths_eq)
  moreover have "length ?hdr = 9" by (simp add: data_header_def)
  moreover have "payload_spec ?fh (concat data) = Some (concat data)"
    by (simp add: payload_spec_def padded_def FlagDataPadded_def FlagDataEndStream_def)
  then obtain b m' where "readDataFrame a get pool ?fh (concat data @ rest) m = (Inr (b, rest), m')"
    "mem_ok m' (held + refs_of b)" "bytes_of b m' = concat data"
    using readDataFrame_complete [OF ok assms(8,9), of ?fh "concat data" "concat data" pool rest] assms(5) by auto
  moreover have "fh_Flags ?fh AND FlagDataEndStream \<noteq> 0 \<longleftrightarrow> fin" by (simp add: FlagDataEndStream_def)
  ultimately show ?thesis
    using decode_data_header [OF assms(4,6), of fin]
    by (intro exI [of _ ?hdr] exI [of _ ?fh] exI [of _ b] exI [of _ m']) auto
qed

theorem data_frame_roundtrip_witness:
  "\<exists>hdr fh b m'. length hdr = 9 \<and> decode_header hdr = (FrameData, fh) \<and> fh_StreamID fh = 5 \<and>
    readDataFrame 4 (NopBufferPool_Get 0) 0 fh ([1, 2, 3] @ [9]) demo_new = (Inr (b, [9]), m') \<and>
    bytes_of b m' = [1, 2, 3]"
proof -
  let ?w = "newBufWriter (100, []) 0 None :: (nat \<times> byte list) bufWriter"
  have ok: "bw_ok (\<lambda>_. True) ?w" "bw_err ?w = None" by (rule newBufWriter_ok; simp)+
  obtain w' where wr: "writeData flaky 5 True [[1], [2, 3]] ?w = Some (None, w')"
    by (simp add: writeData_def bw_Write_def newBufWriter_def flaky_def data_header_def)
  have dead: "\<not> live demo_new 4"
    by (simp add: live_def demo_new_def NewBuffer_def IsBelowBufferPoolingThreshold_def
        BufferPoolingThreshold_def page_def mem0_def blank_def)
  have pool: "pool_slices (NopBufferPool_Get 0)"
    by (simp add: pool_slices_def NopBufferPool_Get_def of_bytes_def swf_def)
  have small: "length (concat [[1], [2, 3 :: byte]]) < 2 ^ 24" "(5 :: uint32) \<noteq> 0" "unat (5 :: uint32) < 2 ^ 31"
    by simp_all
  show ?thesis
    using data_frame_roundtrip [OF flaky_writer ok small demo_reach dead pool wr, of 0 "[9]"] by auto
qed

text \<open>
  C29: Reading a DATA frame decides correctly and leaks nothing: once the frame has arrived, the
  padding is stripped and the payload is returned exactly if the frame is well formed (it names a
  stream, and the padding fits); otherwise an error is returned, no buffer is created and a slice
  that was taken from the pool is given back.
\<close>

theorem readDataFrame_decides:
  assumes "reach buf_initial buf_step (m, held)" and "\<not> live m a" and "pool_slices get"
    and "length frame = fh_Length fh"
  shows "case (if fh_StreamID fh = 0 then None else payload_spec fh frame) of
      Some data \<Rightarrow> \<exists>b m'. readDataFrame a get pool fh (frame @ rest) m = (Inr (b, rest), m') \<and>
        mem_ok m' (held + refs_of b) \<and> bytes_of b m' = data
    | None \<Rightarrow> \<exists>e m'. readDataFrame a get pool fh (frame @ rest) m = (Inl e, m') \<and> objs m' = objs m \<and>
        puts m' = puts m @ (if fh_StreamID fh = 0 \<or> fh_Length fh \<le> BufferPoolingThreshold then []
                            else [(pool, Some (sliceId (get (fh_Length fh))))])"
proof -
  have ok: "mem_ok m held" using bufinv.reachable_inv [OF assms(1)] by simp
  have h: "swf (pslice (get n))" "slen (pslice (get n)) = n" for n
    using assms(3) by (simp_all add: pool_slices_def)
  let ?h = "get (fh_Length fh)" and ?z = "of_bytes (replicate (fh_Length fh) 0)"
  show ?thesis
  proof (cases "fh_StreamID fh = 0")
    case True
    then show ?thesis by (simp add: readDataFrame_def)
  next
    case False
    show ?thesis
    proof (cases "payload_spec fh frame")
      case None
      then obtain e e' where "read_payload fh (pslice ?h) (frame @ rest) = Inl e"
        "read_payload fh ?z (frame @ rest) = Inl e'"
        using read_payload_ok [OF h assms(4)] read_payload_ok [of ?z fh frame rest] assms(4)
        by (fastforce simp: of_bytes_def swf_def)
      then show ?thesis using False None
        by (simp add: readDataFrame_def IsBelowBufferPoolingThreshold_def)
    next
      case (Some data)
      then show ?thesis using readDataFrame_complete [OF ok assms(2,3) False assms(4) Some] False by simp
    qed
  qed
qed

theorem readDataFrame_decides_witness:
  "(\<exists>b m'. readDataFrame 4 (NopBufferPool_Get 0) 0 \<lparr>fh_Length = 4, fh_Flags = 8, fh_StreamID = 1\<rparr>
     ([2, 7, 0, 0] @ [9]) demo_new = (Inr (b, [9]), m') \<and> bytes_of b m' = [7]) \<and>
   (\<exists>e m'. readDataFrame 4 (NopBufferPool_Get 0) 0 \<lparr>fh_Length = 4, fh_Flags = 8, fh_StreamID = 1\<rparr>
     ([5, 7, 0, 0] @ [9]) demo_new = (Inl e, m'))"
proof -
  have dead: "\<not> live demo_new 4"
    by (simp add: live_def demo_new_def NewBuffer_def IsBelowBufferPoolingThreshold_def
        BufferPoolingThreshold_def page_def mem0_def blank_def)
  have pool: "pool_slices (NopBufferPool_Get 0)"
    by (simp add: pool_slices_def NopBufferPool_Get_def of_bytes_def swf_def)
  let ?fh = "\<lparr>fh_Length = 4, fh_Flags = 8, fh_StreamID = 1\<rparr>"
  have "payload_spec ?fh [2, 7, 0, 0] = Some [7]" "payload_spec ?fh [5, 7, 0, 0] = None"
    by (simp_all add: payload_spec_def padded_def FlagDataPadded_def)
  then show ?thesis
    using readDataFrame_decides [OF demo_reach dead pool, of "[2, 7, 0, 0]" ?fh 0 "[9]"]
      readDataFrame_decides [OF demo_reach dead pool, of "[5, 7, 0, 0]" ?fh 0 "[9]"]
    by auto
qed

end
