(* ===== verification/Control_Buffer.thy ===== *)
theory Control_Buffer
  imports Frame_Writer
begin

text \<open>
  The control buffer (\<^verbatim>\<open>internal/transport/controlbuf.go\<close>): the items that flow through it, the
  queue with its throttling of peers that make the transport queue responses, and its interplay
  of goroutines: producers, the one consumer, readers of the connection that are throttled, and
  the closing of the transport. Sections of the code that run under the mutex are functions; the
  goroutines are a step relation over them. Panics are \<open>None\<close>.
\<close>

section \<open>Control items\<close>

text \<open>
  Functions and channels held by an item are tokens; a nil function is \<open>None\<close> where the code
  may be given one. A \<open>writeQuota\<close> is known by its address.
\<close>

type_synonym callback = nat
type_synonym header_fields = "(string \<times> string) list"

datatype side = clientSide | serverSide

record registerStream =
  rs_streamID :: uint32
  rs_wq :: addr

record clientHeaders =
  ch_streamID :: uint32
  ch_hf :: header_fields
  ch_initStream :: "callback option"
  ch_onWrite :: "callback option"
  ch_wq :: addr
  ch_onOrphaned :: "callback option"

record cleanupStream =
  cs_streamID :: uint32
  cs_rst :: bool
  cs_rstCode :: uint32
  cs_onWrite :: "callback option"

record serverHeaders =
  sh_streamID :: uint32
  sh_hf :: header_fields
  sh_endStream :: bool
  sh_onWrite :: "callback option"
  sh_cleanup :: "cleanupStream option"

record earlyAbortStream =
  eas_streamID :: uint32
  eas_rst :: bool
  eas_hf :: header_fields

record dataFrame =
  df_streamID :: uint32
  df_endStream :: bool
  df_h :: "byte list"
  df_data :: "Buffer list"
  df_processing :: bool
  df_onEachWrite :: "callback option"

record http2_setting =
  set_ID :: nat
  set_Val :: uint32

record goAway =
  ga_code :: uint32
  ga_debugData :: "byte list"
  ga_headsUp :: bool
  ga_closeConn :: "go_error option"

datatype cbItem =
    RegisterStream registerStream
  | ClientHeaders clientHeaders
  | ServerHeaders serverHeaders
  | CleanupStream cleanupStream
  | EarlyAbortStream earlyAbortStream
  | DataFrame dataFrame
  | IncomingWindowUpdate uint32 uint32
  | OutgoingWindowUpdate uint32 uint32
  | IncomingSettings "http2_setting list"
  | OutgoingSettings "http2_setting list"
  | IncomingGoAway
  | GoAway goAway
  | Ping bool "byte list"
  | OutFlowControlSizeRequest callback
  | OutStreamRequestForTesting uint32 callback
  | CloseConnection

fun isTransportResponseFrame :: "cbItem \<Rightarrow> side \<Rightarrow> bool" where
  "isTransportResponseFrame (CleanupStream _) s = (s = serverSide)"
| "isTransportResponseFrame (EarlyAbortStream _) s = (s = serverSide)"
| "isTransportResponseFrame (IncomingWindowUpdate _ _) s = True"
| "isTransportResponseFrame (IncomingSettings _) s = True"
| "isTransportResponseFrame (Ping _ _) s = True"
| "isTransportResponseFrame _ s = False"

section \<open>The buffer\<close>

text \<open>
  Throttling channels are numbered in the order they are made; \<open>cb_closedChs\<close> are the closed ones.
  \<open>cb_wakeupCh\<close> says whether the one-element wake-up channel is full, \<open>cb_done\<close> whether the
  transport is done. \<open>limit\<close> below is \<open>maxQueuedTransportResponseFrames\<close>.
\<close>

record controlBuffer =
  cb_wakeupCh :: bool
  cb_done :: bool
  cb_side :: side
  cb_consumerWaiting :: bool
  cb_closed :: bool
  cb_list :: "cbItem option itemList"
  cb_transportResponseFrames :: int
  cb_trfChan :: "nat option"
  cb_nextCh :: nat
  cb_closedChs :: "nat list"

definition newControlBuffer :: "bool \<Rightarrow> side \<Rightarrow> controlBuffer" where
  "newControlBuffer done s =
     \<lparr>cb_wakeupCh = False, cb_done = done, cb_side = s, cb_consumerWaiting = False, cb_closed = False,
      cb_list = emptyItemList, cb_transportResponseFrames = 0, cb_trfChan = None, cb_nextCh = 0,
      cb_closedChs = []\<rparr>"

definition ErrConnClosing :: go_error where
  "ErrConnClosing = Err ''transport is closing''"

text \<open>\<open>close(*ch)\<close> after \<open>trfChan.Swap(nil)\<close>: a nil pointer and a closed channel panic.\<close>

definition close_trfChan :: "controlBuffer \<Rightarrow> controlBuffer option" where
  "close_trfChan c =
     (case cb_trfChan c of
        None \<Rightarrow> None
      | Some ch \<Rightarrow> if ch \<in> set (cb_closedChs c) then None
          else Some (c\<lparr>cb_trfChan := None, cb_closedChs := ch # cb_closedChs c\<rparr>))"

text \<open>Counting an item that was queued in response to the peer; the one that reaches the limit throttles.\<close>

definition count_put :: "int \<Rightarrow> cbItem \<Rightarrow> controlBuffer \<Rightarrow> controlBuffer" where
  "count_put limit i c =
     (if isTransportResponseFrame i (cb_side c) then
        let c1 = c\<lparr>cb_transportResponseFrames := cb_transportResponseFrames c + 1\<rparr>
        in if cb_transportResponseFrames c1 = limit
           then c1\<lparr>cb_trfChan := Some (cb_nextCh c1), cb_nextCh := cb_nextCh c1 + 1\<rparr>
           else c1
      else c)"

text \<open>\<open>f\<close> is the result of the function, if one is given; \<open>it\<close> the item, if it is not nil.\<close>

definition executeAndPut :: "int \<Rightarrow> bool option \<Rightarrow> cbItem option \<Rightarrow> controlBuffer \<Rightarrow>
  (bool \<times> go_error option) \<times> controlBuffer"
where
  "executeAndPut limit f it c =
     (if cb_closed c then ((False, Some ErrConnClosing), c)
      else if f = Some False then ((False, None), c)
      else
        (case it of
           None \<Rightarrow> ((True, None), c)
         | Some i \<Rightarrow>
             let wakeUp = cb_consumerWaiting c;
                 c1 = c\<lparr>cb_consumerWaiting := False, cb_list := il_enqueue None (Some i) (cb_list c)\<rparr>;
                 c2 = count_put limit i c1
             in ((True, None), if wakeUp then c2\<lparr>cb_wakeupCh := True\<rparr> else c2)))"

definition cb_put :: "int \<Rightarrow> cbItem \<Rightarrow> controlBuffer \<Rightarrow> go_error option \<times> controlBuffer" where
  "cb_put limit it c = (let ((_, err), c1) = executeAndPut limit None (Some it) c in (err, c1))"

datatype get_result = GotItem cbItem | GotNil | GotErr go_error

definition getOnceLocked :: "int \<Rightarrow> controlBuffer \<Rightarrow> (get_result \<times> controlBuffer) option" where
  "getOnceLocked limit c =
     (if cb_closed c then Some (GotErr ErrConnClosing, c)
      else if il_isEmpty (cb_list c) then Some (GotNil, c)
      else
        let (h, l) = il_dequeue None (cb_list c); c1 = c\<lparr>cb_list := l\<rparr>
        in case h of
             None \<Rightarrow> None
           | Some i \<Rightarrow>
               if isTransportResponseFrame i (cb_side c1) then do {
                 c2 \<leftarrow> (if cb_transportResponseFrames c1 = limit then close_trfChan c1 else Some c1);
                 Some (GotItem i, c2\<lparr>cb_transportResponseFrames := cb_transportResponseFrames c2 - 1\<rparr>)
               }
               else Some (GotItem i, c1))"

text \<open>
  One round of \<open>get\<close> under the mutex: the result to return, or \<open>None\<close> when the caller is to wait
  on the wake-up channel and to try again.
\<close>

definition get_round :: "int \<Rightarrow> bool \<Rightarrow> controlBuffer \<Rightarrow> (get_result option \<times> controlBuffer) option" where
  "get_round limit block c = do {
     (res, c1) \<leftarrow> getOnceLocked limit c;
     Some (if res \<noteq> GotNil \<or> \<not> block then (Some res, c1) else (None, c1\<lparr>cb_consumerWaiting := True\<rparr>))
   }"

text \<open>What \<open>finish\<close> does to an item that is still queued: the orphaned callbacks, and the heap.\<close>

fun discard_item :: "cbItem option \<Rightarrow> ((callback \<times> go_error) list \<times> mem) option \<Rightarrow> ((callback \<times> go_error) list \<times> mem) option" where
  "discard_item (Some (ClientHeaders h)) s = do {
     (log, m) \<leftarrow> s; cb \<leftarrow> ch_onOrphaned h; Some (log @ [(cb, ErrConnClosing)], m) }"
| "discard_item (Some (DataFrame d)) s = do {
     (log, m) \<leftarrow> s;
     if df_processing d then Some (log, m) else do { m1 \<leftarrow> bs_Free (df_data d) m; Some (log, m1) } }"
| "discard_item _ s = s"

definition finish :: "controlBuffer \<Rightarrow> mem \<Rightarrow> ((callback \<times> go_error) list \<times> controlBuffer \<times> mem) option" where
  "finish c m =
     (if cb_closed c then Some ([], c, m)
      else
        let (res, l) = il_dequeueAll discard_item (cb_list c) (Some ([], m))
        in do {
          (log, m1) \<leftarrow> res;
          let c1 = c\<lparr>cb_closed := True, cb_list := l\<rparr>;
          c2 \<leftarrow> (if cb_trfChan c1 \<noteq> None then close_trfChan c1 else Some c1);
          Some (log, c2, m1)
        })"

section \<open>Goroutines\<close>

text \<open>
  The consumer is idle, inside \<open>get(true)\<close> about to take the mutex again, or blocked in its select;
  a reader of the connection that calls \<open>throttle\<close> is blocked on the channel it loaded.
\<close>

datatype consumer_pc = CIdle | CTry | CBlocked | CExited

datatype reader_pc = RIdle | RBlocked nat

text \<open>
  \<open>s_put\<close>, \<open>s_got\<close>, \<open>s_dropped\<close> and \<open>s_orphaned\<close> record the items accepted, returned and
  discarded, and the orphaned callbacks; \<open>s_ext\<close> are the buffer references held outside the queue.
\<close>

record cb_sys =
  s_cb :: controlBuffer
  s_consumer :: consumer_pc
  s_readers :: "nat \<Rightarrow> reader_pc"
  s_put :: "cbItem list"
  s_got :: "cbItem list"
  s_dropped :: "cbItem list"
  s_orphaned :: "(callback \<times> go_error) list"
  s_mem :: mem
  s_ext :: "addr multiset"

fun item_refs :: "cbItem \<Rightarrow> addr multiset" where
  "item_refs (DataFrame d) = (if df_processing d then {#} else bs_refs (df_data d))"
| "item_refs _ = {#}"

text \<open>A data frame is handed over with its references; a client's headers have an orphan callback.\<close>

fun item_legal :: "cbItem \<Rightarrow> bool" where
  "item_legal (DataFrame d) = list_all bwf (df_data d)"
| "item_legal (ClientHeaders h) = (ch_onOrphaned h \<noteq> None)"
| "item_legal _ = True"

fun after_get :: "get_result option \<Rightarrow> cb_sys \<Rightarrow> cb_sys" where
  "after_get (Some (GotItem i)) s =
     s\<lparr>s_consumer := CIdle, s_got := s_got s @ [i], s_ext := s_ext s + item_refs i\<rparr>"
| "after_get (Some GotNil) s = s\<lparr>s_consumer := CIdle\<rparr>"
| "after_get (Some (GotErr e)) s = s\<lparr>s_consumer := CExited\<rparr>"
| "after_get None s = s\<lparr>s_consumer := CBlocked\<rparr>"

inductive cb_step :: "int \<Rightarrow> cb_sys \<Rightarrow> cb_sys \<Rightarrow> bool" for limit :: int where
  put_item: "executeAndPut limit f (Some it) (s_cb s) = ((True, None), c) \<Longrightarrow> item_legal it \<Longrightarrow>
     item_refs it \<subseteq># s_ext s \<Longrightarrow>
     cb_step limit s (s\<lparr>s_cb := c, s_put := s_put s @ [it], s_ext := s_ext s - item_refs it\<rparr>)"
| put_refused: "executeAndPut limit f it (s_cb s) = ((False, e), c) \<Longrightarrow> cb_step limit s (s\<lparr>s_cb := c\<rparr>)"
| get_item: "s_consumer s = CTry \<and> block \<or> s_consumer s = CIdle \<Longrightarrow>
     get_round limit block (s_cb s) = Some (res, c) \<Longrightarrow> cb_step limit s (after_get res (s\<lparr>s_cb := c\<rparr>))"
| get_woken: "s_consumer s = CBlocked \<Longrightarrow> cb_wakeupCh (s_cb s) \<Longrightarrow>
     cb_step limit s (s\<lparr>s_consumer := CTry, s_cb := (s_cb s)\<lparr>cb_wakeupCh := False\<rparr>\<rparr>)"
| get_done: "s_consumer s = CBlocked \<Longrightarrow> cb_done (s_cb s) \<Longrightarrow> cb_step limit s (s\<lparr>s_consumer := CExited\<rparr>)"
| throttle_load: "s_readers s i = RIdle \<Longrightarrow> cb_trfChan (s_cb s) = Some ch \<Longrightarrow>
     cb_step limit s (s\<lparr>s_readers := (s_readers s)(i := RBlocked ch)\<rparr>)"
| throttle_wake: "s_readers s i = RBlocked ch \<Longrightarrow> ch \<in> set (cb_closedChs (s_cb s)) \<or> cb_done (s_cb s) \<Longrightarrow>
     cb_step limit s (s\<lparr>s_readers := (s_readers s)(i := RIdle)\<rparr>)"
| throttle_timeout: "s_readers s i = RBlocked ch \<Longrightarrow> cb_step limit s (s\<lparr>s_readers := (s_readers s)(i := RIdle)\<rparr>)"
| finish_cb: "finish (s_cb s) (s_mem s) = Some (log, c, m) \<Longrightarrow>
     cb_step limit s (s\<lparr>s_cb := c, s_mem := m, s_orphaned := s_orphaned s @ log,
       s_dropped := s_dropped s @ map the (il_items (cb_list (s_cb s)))\<rparr>)"
| transport_done: "cb_step limit s (s\<lparr>s_cb := (s_cb s)\<lparr>cb_done := True\<rparr>\<rparr>)"
| release: "a \<in># s_ext s \<Longrightarrow> Free (BufferRef a) (s_mem s) = Some m \<Longrightarrow>
     cb_step limit s (s\<lparr>s_mem := m, s_ext := s_ext s - {#a#}\<rparr>)"

definition cb_initial :: "cb_sys \<Rightarrow> bool" where
  "cb_initial s \<longleftrightarrow> (\<exists>done sd. s_cb s = newControlBuffer done sd) \<and> s_consumer s = CIdle \<and>
     (\<forall>i. s_readers s i = RIdle) \<and> s_put s = [] \<and> s_got s = [] \<and> s_dropped s = [] \<and> s_orphaned s = [] \<and>
     mem_ok (s_mem s) (s_ext s)"

section \<open>Invariants\<close>

abbreviation queued :: "controlBuffer \<Rightarrow> cbItem list" where
  "queued c \<equiv> map the (il_items (cb_list c))"

definition responses :: "side \<Rightarrow> cbItem list \<Rightarrow> int" where
  "responses sd is = int (length (filter (\<lambda>i. isTransportResponseFrame i sd) is))"

lemma responses_simps [simp]:
  "responses sd [] = 0"
  "responses sd (i # is) = (if isTransportResponseFrame i sd then 1 else 0) + responses sd is"
  "responses sd (is @ js) = responses sd is + responses sd js"
  by (simp_all add: responses_def)

definition cb_ok :: "int \<Rightarrow> controlBuffer \<Rightarrow> bool" where
  "cb_ok limit c \<longleftrightarrow>
     il_good None (cb_list c) \<and> None \<notin> set (il_items (cb_list c)) \<and>
     (if cb_closed c then il_items (cb_list c) = [] \<and> cb_trfChan c = None
      else cb_transportResponseFrames c = responses (cb_side c) (queued c) \<and>
        (cb_trfChan c \<noteq> None \<longleftrightarrow> limit \<le> cb_transportResponseFrames c)) \<and>
     (\<forall>ch. cb_trfChan c = Some ch \<longrightarrow> ch < cb_nextCh c \<and> ch \<notin> set (cb_closedChs c)) \<and>
     (\<forall>ch \<in> set (cb_closedChs c). ch < cb_nextCh c)"

text \<open>A channel that a reader may be waiting on stays known: it is the current one or closed.\<close>

definition known :: "controlBuffer \<Rightarrow> nat \<Rightarrow> bool" where
  "known c ch \<longleftrightarrow> ch \<in> set (cb_closedChs c) \<or> cb_trfChan c = Some ch"

lemma cb_ok_flags [simp]:
  "cb_ok limit (c\<lparr>cb_wakeupCh := b\<rparr>) = cb_ok limit c"
  "cb_ok limit (c\<lparr>cb_consumerWaiting := b\<rparr>) = cb_ok limit c"
  "cb_ok limit (c\<lparr>cb_done := b\<rparr>) = cb_ok limit c"
  "known (c\<lparr>cb_wakeupCh := b\<rparr>) = known c"
  "known (c\<lparr>cb_consumerWaiting := b\<rparr>) = known c"
  "known (c\<lparr>cb_done := b\<rparr>) = known c"
  by (simp_all add: cb_ok_def known_def fun_eq_iff)

lemma il_isEmpty_items: "il_isEmpty l \<longleftrightarrow> il_items l = []"
  by (simp add: il_isEmpty_def il_items_def)

lemma executeAndPut_ok:
  assumes "cb_ok limit c" and "executeAndPut limit f (Some it) c = ((True, e), c')"
  shows "cb_ok limit c'" and "queued c' = queued c @ [it]" and "\<not> cb_closed c" and "\<not> cb_closed c'"
    and "known c ch \<Longrightarrow> known c' ch"
    and "cb_wakeupCh c' = (cb_wakeupCh c \<or> cb_consumerWaiting c)" and "\<not> cb_consumerWaiting c'"
proof -
  define c1 where "c1 = c\<lparr>cb_consumerWaiting := False, cb_list := il_enqueue None (Some it) (cb_list c)\<rparr>"
  have good: "il_good None (cb_list c)" and nonil: "None \<notin> set (il_items (cb_list c))"
    using assms(1) by (simp_all add: cb_ok_def)
  have items: "il_items (cb_list c1) = il_items (cb_list c) @ [Some it]" "il_good None (cb_list c1)"
    using enqueue_correct [OF good] by (simp_all add: c1_def)
  show open': "\<not> cb_closed c" using assms(2) by (auto simp: executeAndPut_def split: if_splits)
  have f: "f \<noteq> Some False" using assms(2) open' by (auto simp: executeAndPut_def split: if_splits)
  have sel: "cb_closed c1 = cb_closed c" "cb_side c1 = cb_side c" "cb_trfChan c1 = cb_trfChan c"
    "cb_transportResponseFrames c1 = cb_transportResponseFrames c" "cb_nextCh c1 = cb_nextCh c"
    "cb_closedChs c1 = cb_closedChs c" "cb_wakeupCh c1 = cb_wakeupCh c" "\<not> cb_consumerWaiting c1"
    by (simp_all add: c1_def)
  define c2 where "c2 = count_put limit it c1"
  have c': "c' = (if cb_consumerWaiting c then c2\<lparr>cb_wakeupCh := True\<rparr> else c2)"
    using assms(2) open' f unfolding executeAndPut_def c2_def c1_def Let_def by simp
  have c2: "cb_list c2 = cb_list c1" "cb_closed c2 = cb_closed c" "cb_wakeupCh c2 = cb_wakeupCh c"
    "\<not> cb_consumerWaiting c2" by (simp_all add: c2_def count_put_def Let_def sel)
  then show "queued c' = queued c @ [it]" "\<not> cb_closed c'" "\<not> cb_consumerWaiting c'"
    "cb_wakeupCh c' = (cb_wakeupCh c \<or> cb_consumerWaiting c)"
    using items open' by (simp_all add: c')
  have ok2: "cb_ok limit c2"
    using assms(1) open' items nonil by (auto simp: cb_ok_def c2_def count_put_def Let_def sel)
  then show "cb_ok limit c'" by (simp add: c')
  have "known c ch \<Longrightarrow> known c2 ch"
    using assms(1) open' by (auto simp: known_def c2_def count_put_def Let_def sel cb_ok_def)
  then show "known c ch \<Longrightarrow> known c' ch" by (simp add: c')
qed

lemma getOnceLocked_ok:
  assumes "cb_ok limit c"
  shows "\<exists>res c'. getOnceLocked limit c = Some (res, c') \<and> cb_ok limit c' \<and>
    res = (if cb_closed c then GotErr ErrConnClosing else case queued c of [] \<Rightarrow> GotNil | i # _ \<Rightarrow> GotItem i) \<and>
    queued c' = (if cb_closed c then queued c else tl (queued c)) \<and>
    (\<forall>ch. known c ch \<longrightarrow> known c' ch) \<and> cb_closed c' = cb_closed c \<and>
    cb_wakeupCh c' = cb_wakeupCh c \<and> cb_consumerWaiting c' = cb_consumerWaiting c"
proof (cases "cb_closed c \<or> il_items (cb_list c) = []")
  case True
  then show ?thesis using assms by (auto simp: getOnceLocked_def il_isEmpty_items)
next
  case False
  have good: "il_good None (cb_list c)" and ne: "il_count (cb_list c) \<noteq> 0"
    using assms False by (auto simp: cb_ok_def il_items_def)
  obtain h l where hl: "il_dequeue None (cb_list c) = (h, l)" by (cases "il_dequeue None (cb_list c)")
  have deq: "il_items (cb_list c) = h # il_items l" "il_good None l"
    using dequeue_correct [OF good ne] hl by simp_all
  then obtain i where h: "h = Some i" using assms by (cases h) (auto simp: cb_ok_def)
  note dq = hl [unfolded h] and items = deq(1) [unfolded h]
  have base: "None \<notin> set (il_items l)" "cb_transportResponseFrames c = responses (cb_side c) (i # map the (il_items l))"
    using assms False items by (auto simp: cb_ok_def)
  consider "\<not> isTransportResponseFrame i (cb_side c)"
    | "isTransportResponseFrame i (cb_side c)" "cb_transportResponseFrames c \<noteq> limit"
    | ch where "isTransportResponseFrame i (cb_side c)" "cb_transportResponseFrames c = limit"
        "cb_trfChan c = Some ch" "ch \<notin> set (cb_closedChs c)"
    using assms False by (fastforce simp: cb_ok_def)
  then show ?thesis
  proof cases
    case 1
    then show ?thesis using False assms items base deq(2)
      by (simp add: getOnceLocked_def il_isEmpty_items dq cb_ok_def known_def)
  next
    case 2
    then show ?thesis using False assms items base deq(2)
      by (auto simp: getOnceLocked_def il_isEmpty_items dq cb_ok_def known_def)
  next
    case 3
    then show ?thesis using False assms items base deq(2)
      by (auto simp: getOnceLocked_def il_isEmpty_items dq cb_ok_def known_def close_trfChan_def)
  qed
qed

lemma get_round_ok:
  assumes "cb_ok limit c"
  shows "\<exists>res c'. get_round limit block c = Some (res, c') \<and> cb_ok limit c' \<and>
    res = (if cb_closed c then Some (GotErr ErrConnClosing)
           else case queued c of [] \<Rightarrow> if block then None else Some GotNil | i # _ \<Rightarrow> Some (GotItem i)) \<and>
    queued c' = (if cb_closed c then queued c else tl (queued c)) \<and>
    (\<forall>ch. known c ch \<longrightarrow> known c' ch) \<and> cb_closed c' = cb_closed c \<and> cb_wakeupCh c' = cb_wakeupCh c \<and>
    cb_consumerWaiting c' = (cb_consumerWaiting c \<or> res = None)"
proof -
  obtain res c' where "getOnceLocked limit c = Some (res, c')" "cb_ok limit c'"
    "res = (if cb_closed c then GotErr ErrConnClosing else case queued c of [] \<Rightarrow> GotNil | i # _ \<Rightarrow> GotItem i)"
    "queued c' = (if cb_closed c then queued c else tl (queued c))"
    "\<forall>ch. known c ch \<longrightarrow> known c' ch" "cb_closed c' = cb_closed c"
    "cb_wakeupCh c' = cb_wakeupCh c" "cb_consumerWaiting c' = cb_consumerWaiting c"
    using getOnceLocked_ok [OF assms] by blast
  then show ?thesis
    by (auto simp: get_round_def split: list.splits)
qed

definition queue_refs :: "cbItem list \<Rightarrow> addr multiset" where
  "queue_refs is = sum_list (map item_refs is)"

lemma queue_refs_simps [simp]:
  "queue_refs [] = {#}" "queue_refs (i # is) = item_refs i + queue_refs is"
  "queue_refs (is @ js) = queue_refs is + queue_refs js"
  by (simp_all add: queue_refs_def)

fun orphan_of :: "cbItem \<Rightarrow> (callback \<times> go_error) list" where
  "orphan_of (ClientHeaders h) = (case ch_onOrphaned h of None \<Rightarrow> [] | Some cb \<Rightarrow> [(cb, ErrConnClosing)])"
| "orphan_of _ = []"

lemma discard_item_ok:
  assumes "mem_ok m (ext + item_refs i)" and "item_legal i"
  shows "\<exists>m'. discard_item (Some i) (Some (log, m)) = Some (log @ orphan_of i, m') \<and> mem_ok m' ext"
proof (cases i)
  case (DataFrame d)
  then show ?thesis using assms bs_Free_ok [of m ext "df_data d"] by auto
qed (use assms in \<open>auto split: option.splits\<close>)

lemma discard_all_ok:
  "mem_ok m (ext + queue_refs is) \<Longrightarrow> list_all item_legal is \<Longrightarrow>
   \<exists>m'. fold discard_item (map Some is) (Some (log, m)) = Some (log @ concat (map orphan_of is), m') \<and> mem_ok m' ext"
proof (induction "is" arbitrary: log m)
  case (Cons i "is")
  have "mem_ok m ((ext + queue_refs is) + item_refs i)" "item_legal i" using Cons.prems by (simp_all add: ac_simps)
  from discard_item_ok [OF this] obtain m1 where
    m1: "discard_item (Some i) (Some (log, m)) = Some (log @ orphan_of i, m1)" "mem_ok m1 (ext + queue_refs is)"
    by blast
  from Cons.IH [OF m1(2), where log = "log @ orphan_of i"] show ?case using Cons.prems(2) m1(1) by simp
qed simp

lemma some_items: "None \<notin> set xs \<Longrightarrow> map Some (map the xs) = xs"
  by (induction xs) auto

lemma finish_ok:
  assumes "cb_ok limit c" and "mem_ok m (ext + queue_refs (queued c))" and "list_all item_legal (queued c)"
  shows "\<exists>c' m'. finish c m = Some (concat (map orphan_of (queued c)), c', m') \<and> cb_ok limit c' \<and> cb_closed c' \<and>
    queued c' = [] \<and> mem_ok m' ext \<and> (\<forall>ch. known c ch \<longrightarrow> known c' ch) \<and>
    cb_wakeupCh c' = cb_wakeupCh c \<and> cb_consumerWaiting c' = cb_consumerWaiting c \<and> cb_trfChan c' = None"
proof (cases "cb_closed c")
  case True
  then show ?thesis using assms by (auto simp: finish_def cb_ok_def)
next
  case False
  have good: "il_good None (cb_list c)" and all: "il_items (cb_list c) = map Some (queued c)"
    using assms(1) some_items [of "il_items (cb_list c)"] by (simp_all add: cb_ok_def)
  obtain m' where m': "fold discard_item (map Some (queued c)) (Some ([], m)) =
      Some (concat (map orphan_of (queued c)), m')" "mem_ok m' ext"
    using discard_all_ok [OF assms(2,3), of "[]"] by auto
  have dq: "il_dequeueAll discard_item (cb_list c) (Some ([], m)) =
      (Some (concat (map orphan_of (queued c)), m'), emptyItemList)"
    using dequeueAll_correct [OF good, of discard_item "Some ([], m)"] m'(1) all by metis
  show ?thesis
  proof (cases "cb_trfChan c")
    case None
    then show ?thesis using False assms(1) dq m'(2) by (simp add: finish_def cb_ok_def known_def)
  next
    case (Some ch)
    then show ?thesis using False assms(1) dq m'(2)
      by (auto simp: finish_def cb_ok_def known_def close_trfChan_def)
  qed
qed

text \<open>
  The consumer: when it is blocked, either it has announced that it waits and nothing is queued,
  or its wake-up is in the channel.
\<close>

fun consumer_ok :: "consumer_pc \<Rightarrow> controlBuffer \<Rightarrow> bool" where
  "consumer_ok CBlocked c =
     (cb_consumerWaiting c \<and> \<not> cb_wakeupCh c \<and> queued c = [] \<or> \<not> cb_consumerWaiting c \<and> cb_wakeupCh c)"
| "consumer_ok CExited c = True"
| "consumer_ok _ c = (\<not> cb_consumerWaiting c \<and> \<not> cb_wakeupCh c)"

definition sys_inv :: "int \<Rightarrow> cb_sys \<Rightarrow> bool" where
  "sys_inv limit s \<longleftrightarrow>
     cb_ok limit (s_cb s) \<and> mem_ok (s_mem s) (s_ext s + queue_refs (queued (s_cb s))) \<and>
     list_all item_legal (queued (s_cb s)) \<and>
     (\<forall>i ch. s_readers s i = RBlocked ch \<longrightarrow> known (s_cb s) ch) \<and>
     s_put s = s_got s @ s_dropped s @ queued (s_cb s) \<and> (s_dropped s \<noteq> [] \<longrightarrow> cb_closed (s_cb s)) \<and>
     s_orphaned s = concat (map orphan_of (s_dropped s)) \<and> consumer_ok (s_consumer s) (s_cb s)"

lemma mset_move: "A \<subseteq># X \<Longrightarrow> X - A + (Q + A) = X + (Q :: 'a multiset)"
  using subset_mset.diff_add [of A X] by (metis add.assoc add.commute)

lemma sys_inv_put:
  assumes "sys_inv limit s" and "executeAndPut limit f (Some it) (s_cb s) = ((True, None), c)"
    and "item_legal it" and "item_refs it \<subseteq># s_ext s"
  shows "sys_inv limit (s\<lparr>s_cb := c, s_put := s_put s @ [it], s_ext := s_ext s - item_refs it\<rparr>)"
proof -
  have ok: "cb_ok limit (s_cb s)" using assms(1) by (simp add: sys_inv_def)
  note put = executeAndPut_ok [OF ok assms(2)]
  have "mem_ok (s_mem s) (s_ext s - item_refs it + (queue_refs (queued (s_cb s)) + item_refs it))"
    using assms(1) unfolding mset_move [OF assms(4)] by (simp add: sys_inv_def)
  moreover have "consumer_ok (s_consumer s) c"
    using assms(1) put by (cases "s_consumer s") (auto simp: sys_inv_def)
  moreover have "s_dropped s = []" using assms(1) put(3) by (auto simp: sys_inv_def)
  ultimately show ?thesis using assms(1,3) put by (simp add: sys_inv_def)
qed

lemma refused_same: "executeAndPut limit f it c = ((False, e), c') \<Longrightarrow> c' = c"
  by (auto simp: executeAndPut_def Let_def split: if_splits option.splits)

lemma sys_inv_get:
  assumes "sys_inv limit s" and "s_consumer s = CTry \<and> block \<or> s_consumer s = CIdle"
    and "get_round limit block (s_cb s) = Some (res, c)"
  shows "sys_inv limit (after_get res (s\<lparr>s_cb := c\<rparr>))"
proof -
  have ok: "cb_ok limit (s_cb s)" using assms(1) by (simp add: sys_inv_def)
  have free: "\<not> cb_consumerWaiting (s_cb s)" "\<not> cb_wakeupCh (s_cb s)"
    using assms(1,2) by (auto simp: sys_inv_def)
  have get: "cb_ok limit c" "res = (if cb_closed (s_cb s) then Some (GotErr ErrConnClosing)
      else case queued (s_cb s) of [] \<Rightarrow> if block then None else Some GotNil | i # _ \<Rightarrow> Some (GotItem i))"
    "queued c = (if cb_closed (s_cb s) then queued (s_cb s) else tl (queued (s_cb s)))"
    "\<forall>ch. known (s_cb s) ch \<longrightarrow> known c ch" "cb_closed c = cb_closed (s_cb s)"
    "cb_wakeupCh c = cb_wakeupCh (s_cb s)" "cb_consumerWaiting c = (cb_consumerWaiting (s_cb s) \<or> res = None)"
    using get_round_ok [OF ok, of block] assms(3) by auto
  show ?thesis
  proof (cases "cb_closed (s_cb s)")
    case True
    then show ?thesis using assms(1) get free by (simp add: sys_inv_def)
  next
    case False
    then have dropped: "s_dropped s = []" using assms(1) by (auto simp: sys_inv_def)
    show ?thesis
    proof (cases "queued (s_cb s)")
      case Nil
      then have "queued c = []" "res = (if block then None else Some GotNil)" using get(2,3) False by simp_all
      then show ?thesis using assms(1) get(1,4-7) free False Nil by (simp add: sys_inv_def)
    next
      case (Cons i "is")
      then have "queued c = is" "res = Some (GotItem i)" using get(2,3) False by simp_all
      then show ?thesis using assms(1) get(1,4-7) free False dropped Cons by (simp add: sys_inv_def add.assoc)
    qed
  qed
qed

lemma sys_inv_finish:
  assumes "sys_inv limit s" and "finish (s_cb s) (s_mem s) = Some (log, c, m)"
  shows "sys_inv limit (s\<lparr>s_cb := c, s_mem := m, s_orphaned := s_orphaned s @ log,
       s_dropped := s_dropped s @ queued (s_cb s)\<rparr>)"
proof -
  have "cb_ok limit (s_cb s)" "mem_ok (s_mem s) (s_ext s + queue_refs (queued (s_cb s)))"
    "list_all item_legal (queued (s_cb s))" using assms(1) by (simp_all add: sys_inv_def)
  from finish_ok [OF this] assms(2) have fin: "log = concat (map orphan_of (queued (s_cb s)))" "cb_ok limit c"
    "cb_closed c" "queued c = []" "mem_ok m (s_ext s)" "\<forall>ch. known (s_cb s) ch \<longrightarrow> known c ch"
    "cb_wakeupCh c = cb_wakeupCh (s_cb s)" "cb_consumerWaiting c = cb_consumerWaiting (s_cb s)"
    by auto
  have "consumer_ok (s_consumer s) c"
    using assms(1) fin by (cases "s_consumer s") (auto simp: sys_inv_def)
  then show ?thesis using assms(1) fin by (simp add: sys_inv_def)
qed

lemma known_trf: "cb_trfChan c = Some ch \<Longrightarrow> known c ch"
  by (simp add: known_def)

lemma sys_inv_step:
  assumes "sys_inv limit s" and "cb_step limit s t"
  shows "sys_inv limit t"
  using assms(2)
proof cases
  case (put_item f it c)
  then show ?thesis using sys_inv_put [OF assms(1)] by simp
next
  case (put_refused f it e c)
  then show ?thesis using assms(1) refused_same by fastforce
next
  case (get_item block res c)
  then show ?thesis using sys_inv_get [OF assms(1)] by simp
next
  case (throttle_load i ch)
  then show ?thesis using assms(1) known_trf by (auto simp: sys_inv_def)
next
  case (finish_cb log c m)
  then show ?thesis using sys_inv_finish [OF assms(1)] by simp
next
  case transport_done
  moreover have "consumer_ok (s_consumer s) ((s_cb s)\<lparr>cb_done := True\<rparr>)"
    using assms(1) by (cases "s_consumer s") (auto simp: sys_inv_def)
  ultimately show ?thesis using assms(1) by (simp add: sys_inv_def)
next
  case (release a m)
  let ?X = "s_ext s + queue_refs (queued (s_cb s))"
  have ok: "mem_ok (s_mem s) ?X" using assms(1) by (simp add: sys_inv_def)
  have "mem_ok m (?X - {#a#})"
    using Free_readable [OF ok, of "BufferRef a"] release(2,3) by (simp del: Free.simps)
  moreover have "?X - {#a#} = s_ext s - {#a#} + queue_refs (queued (s_cb s))"
    using release(2) by (metis diff_union_single_conv union_commute)
  ultimately show ?thesis using release(1) assms(1) by (simp add: sys_inv_def)
qed (use assms(1) in \<open>auto simp: sys_inv_def split: if_splits\<close>)

lemma sys_inv_initial: "0 < limit \<Longrightarrow> cb_initial s \<Longrightarrow> sys_inv limit s"
  by (auto simp: cb_initial_def sys_inv_def cb_ok_def newControlBuffer_def)

definition cb_start :: "int \<Rightarrow> cb_sys \<Rightarrow> bool" where
  "cb_start limit s \<longleftrightarrow> 0 < limit \<and> cb_initial s"

interpretation cbinv: inductive_invariant "cb_start limit" "cb_step limit" "sys_inv limit" for limit
  by unfold_locales (simp add: cb_start_def sys_inv_initial, erule (1) sys_inv_step)

section \<open>Properties\<close>

text \<open>A run used by the witnesses: the consumer blocks, a ping is queued, a reader is throttled.\<close>

definition demo_cb0 :: cb_sys where
  "demo_cb0 = \<lparr>s_cb = newControlBuffer False serverSide, s_consumer = CIdle, s_readers = (\<lambda>_. RIdle), s_put = [],
     s_got = [], s_dropped = [], s_orphaned = [], s_mem = mem0, s_ext = {#}\<rparr>"

definition demo_cb1 :: cb_sys where
  "demo_cb1 = after_get None (demo_cb0\<lparr>s_cb := (s_cb demo_cb0)\<lparr>cb_consumerWaiting := True\<rparr>\<rparr>)"

definition demo_cb2 :: cb_sys where
  "demo_cb2 = demo_cb1\<lparr>s_cb := snd (executeAndPut 1 None (Some (Ping True [])) (s_cb demo_cb1)), s_put := [Ping True []]\<rparr>"

definition demo_cb3 :: cb_sys where
  "demo_cb3 = demo_cb2\<lparr>s_readers := (\<lambda>_. RIdle)(0 := RBlocked 0)\<rparr>"

lemmas demo_cb_defs = demo_cb3_def demo_cb2_def demo_cb1_def demo_cb0_def newControlBuffer_def

lemma demo_cb2_items: "il_items (cb_list (s_cb demo_cb2)) = [Some (Ping True [])]"
  using enqueue_correct(1) [of None emptyItemList "Some (Ping True [])"]
  by (simp add: demo_cb_defs executeAndPut_def count_put_def)

lemma demo_cb_reach: "reach (cb_start 1) (cb_step 1) demo_cb3"
proof -
  have "mem_ok mem0 {#}" using bufinv.reachable_inv [OF reach_start, of "(mem0, {#})"] by (simp add: buf_initial_def)
  then have start: "cb_start 1 demo_cb0"
    unfolding cb_start_def cb_initial_def by (auto simp: demo_cb0_def)
  have "get_round 1 True (s_cb demo_cb0) = Some (None, (s_cb demo_cb0)\<lparr>cb_consumerWaiting := True\<rparr>)"
    by (simp add: get_round_def getOnceLocked_def demo_cb_defs il_isEmpty_def emptyItemList_def)
  then have s1: "cb_step 1 demo_cb0 demo_cb1"
    unfolding demo_cb1_def by (rule get_item [rotated]) (simp add: demo_cb0_def)
  have "executeAndPut 1 None (Some (Ping True [])) (s_cb demo_cb1) = ((True, None), s_cb demo_cb2)"
    by (simp add: demo_cb2_def executeAndPut_def demo_cb1_def demo_cb0_def newControlBuffer_def Let_def)
  from put_item [OF this] have s2: "cb_step 1 demo_cb1 demo_cb2"
    by (simp add: demo_cb2_def) (simp add: demo_cb1_def demo_cb0_def)
  have "cb_step 1 demo_cb2 (demo_cb2\<lparr>s_readers := (s_readers demo_cb2)(0 := RBlocked 0)\<rparr>)"
    by (rule throttle_load) (simp_all add: demo_cb_defs executeAndPut_def count_put_def Let_def)
  then have s3: "cb_step 1 demo_cb2 demo_cb3"
    by (simp add: demo_cb3_def) (simp add: demo_cb2_def demo_cb1_def demo_cb0_def)
  have "reach (cb_start 1) (cb_step 1) demo_cb0" by (rule reach_start) (rule start)
  then show ?thesis using s1 s2 s3 by (blast intro: reach_more)
qed

text \<open>
  C30: The consumer never sleeps through an item: however producers, readers and the closing of
  the transport interleave, whenever the loopy writer is blocked in \<open>get\<close> while an item is
  queued, its wake-up is already in the channel, and the next two steps of its own return the
  oldest item.
\<close>

theorem consumer_never_misses_items:
  assumes "reach (cb_start limit) (cb_step limit) s" and "s_consumer s = CBlocked" and "queued (s_cb s) = i # is"
  shows "\<exists>t u. cb_step limit s t \<and> cb_step limit t u \<and> s_got u = s_got s @ [i] \<and> queued (s_cb u) = is"
proof -
  have inv: "sys_inv limit s" using cbinv.reachable_inv [OF assms(1)] .
  then have "cb_wakeupCh (s_cb s)" using assms(2,3) by (auto simp: sys_inv_def)
  let ?t = "s\<lparr>s_consumer := CTry, s_cb := (s_cb s)\<lparr>cb_wakeupCh := False\<rparr>\<rparr>"
  have step: "cb_step limit s ?t" using assms(2) \<open>cb_wakeupCh (s_cb s)\<close> by (rule get_woken)
  have ok: "cb_ok limit (s_cb ?t)" and open': "\<not> cb_closed (s_cb ?t)"
    using inv assms(3) by (auto simp: sys_inv_def cb_ok_def)
  obtain res c where get: "get_round limit True (s_cb ?t) = Some (res, c)" "queued c = is" "res = Some (GotItem i)"
    using get_round_ok [OF ok, of True] open' assms(3) by auto
  have "cb_step limit ?t (after_get res (?t\<lparr>s_cb := c\<rparr>))" by (rule get_item [OF _ get(1)]) simp
  then show ?thesis using step get(2,3) by (intro exI conjI) (assumption, assumption, auto)
qed

theorem consumer_never_misses_items_witness:
  "\<exists>t u. cb_step 1 demo_cb3 t \<and> cb_step 1 t u \<and> s_got u = s_got demo_cb3 @ [Ping True []] \<and> queued (s_cb u) = []"
proof (rule consumer_never_misses_items [OF demo_cb_reach])
  show "s_consumer demo_cb3 = CBlocked" by (simp add: demo_cb_defs)
  show "queued (s_cb demo_cb3) = [Ping True []]" using demo_cb2_items by (simp add: demo_cb3_def)
qed



text \<open>
  C31: No item is lost, repeated or reordered: the accepted items are, in order, those the consumer
  got, those discarded by \<open>finish\<close> and those still queued; the callbacks of discarded client
  headers have been called once each, in order; and once the buffer is finished nothing is
  queued, nothing is accepted and the consumer gets the closing error.
\<close>

theorem items_delivered_in_order:
  assumes "reach (cb_start limit) (cb_step limit) s"
  shows "s_put s = s_got s @ s_dropped s @ queued (s_cb s) \<and>
    s_orphaned s = concat (map orphan_of (s_dropped s)) \<and>
    (cb_closed (s_cb s) \<longrightarrow> queued (s_cb s) = [] \<and>
      executeAndPut limit f it (s_cb s) = ((False, Some ErrConnClosing), s_cb s) \<and>
      get_round limit block (s_cb s) = Some (Some (GotErr ErrConnClosing), s_cb s)) \<and>
    (\<not> cb_closed (s_cb s) \<longrightarrow> s_dropped s = [])"
  using cbinv.reachable_inv [OF assms]
  by (auto simp: sys_inv_def cb_ok_def executeAndPut_def get_round_def getOnceLocked_def)

theorem items_delivered_in_order_witness: "s_put demo_cb3 = s_got demo_cb3 @ s_dropped demo_cb3 @ [Ping True []]"
proof -
  have "queued (s_cb demo_cb3) = [Ping True []]" using demo_cb2_items by (simp add: demo_cb3_def)
  then show ?thesis using items_delivered_in_order [OF demo_cb_reach, of None None True] by simp
qed

text \<open>
  C33: The control buffer never panics and leaks no buffer: in every reachable state \<open>get\<close> and
  \<open>finish\<close> return (in particular no nil or closed throttling channel is ever closed), and \<open>finish\<close>
  releases exactly the references of the data frames that were still queued.
\<close>

theorem control_buffer_never_panics:
  assumes "reach (cb_start limit) (cb_step limit) s"
  shows "(\<exists>res c. get_round limit block (s_cb s) = Some (res, c)) \<and>
    (\<exists>c m. finish (s_cb s) (s_mem s) = Some (concat (map orphan_of (queued (s_cb s))), c, m) \<and>
       cb_closed c \<and> queued c = [] \<and> cb_trfChan c = None \<and> mem_ok m (s_ext s))"
proof -
  have inv: "sys_inv limit s" using cbinv.reachable_inv [OF assms] .
  then have ok: "cb_ok limit (s_cb s)" by (simp add: sys_inv_def)
  have "mem_ok (s_mem s) (s_ext s + queue_refs (queued (s_cb s)))" "list_all item_legal (queued (s_cb s))"
    using inv by (simp_all add: sys_inv_def)
  from finish_ok [OF ok this] get_round_ok [OF ok, of block] show ?thesis by blast
qed

theorem control_buffer_never_panics_witness:
  "\<exists>c m. finish (s_cb demo_cb3) (s_mem demo_cb3) = Some ([], c, m) \<and> cb_closed c"
proof -
  have "queued (s_cb demo_cb3) = [Ping True []]" using demo_cb2_items by (simp add: demo_cb3_def)
  then show ?thesis using control_buffer_never_panics [OF demo_cb_reach, of True] by auto
qed

end
