(* ===== verification/Loopy_Writer.thy ===== *)
theory Loopy_Writer
  imports Control_Buffer "HOL-Library.AList"
begin

text \<open>
  The loopy writer (\<^verbatim>\<open>internal/transport/controlbuf.go\<close>), the one goroutine of a transport that
  writes: all handlers of control items, \<open>processData\<close>, which writes the data of the active streams
  in turn under connection and stream flow control, and the \<open>run\<close> loop. Streams are objects in a
  store; the list of active streams and the queues of data frames, whose pointer structures are
  the subject of \<open>Linked_Queues\<close>, are lists of them. Panics are \<open>None\<close>.
\<close>

section \<open>State\<close>

datatype outStreamState = active | empty_state | waitingOnStreamQuota

record outStream =
  os_id :: uint32
  os_state :: outStreamState
  os_bytesOutStanding :: int
  os_data :: "dataFrame list"
  os_trailer :: "serverHeaders option"
  os_wq :: addr
  os_reader :: Reader

text \<open>The calls the writer makes on its framer.\<close>

datatype frame =
    FrData uint32 bool "byte list list"
  | FrHeaders uint32 "byte list" bool bool
  | FrContinuation uint32 bool "byte list"
  | FrRST uint32 uint32
  | FrSettings "http2_setting list"
  | FrSettingsAck
  | FrPing bool "byte list"
  | FrWindowUpdate uint32 uint32

datatype hpack_op = HField "string \<times> string" | HTableSize uint32

text \<open>The calls it makes on other objects, in order.\<close>

datatype loopy_event =
    EvOnWrite callback
  | EvOnOrphaned callback go_error
  | EvInitStream callback uint32
  | EvOnEachWrite callback
  | EvReplenish addr int
  | EvTimesnap "byte list"
  | EvQuota callback uint32
  | EvStream callback "addr option"

text \<open>
  What the writer is given: the framer's writes and flush over the state \<open>'w\<close> of the connection,
  with the fill level of the batching writer; the HPACK encoder, as the bytes it appends for a
  field after the operations so far; the outcome of \<open>initStream\<close>; the side-specific GOAWAY handler;
  and the order in which a map iteration visits the entries.
\<close>

record 'w loopy_env =
  e_write :: "frame \<Rightarrow> 'w \<Rightarrow> go_error option \<times> 'w"
  e_flush :: "'w \<Rightarrow> 'w"
  e_offset :: "'w \<Rightarrow> nat"
  e_hpack :: "hpack_op list \<Rightarrow> string \<times> string \<Rightarrow> byte list"
  e_initStream :: "callback \<Rightarrow> uint32 \<Rightarrow> go_error option"
  e_ssGoAway :: "(goAway \<Rightarrow> 'w \<Rightarrow> bool \<times> go_error option \<times> 'w) option"
  e_order :: "(uint32 \<times> addr) list \<Rightarrow> (uint32 \<times> addr) list"

record 'w loopyWriter =
  l_side :: side
  l_sendQuota :: uint32
  l_oiws :: uint32
  l_estdStreams :: "(uint32 \<times> addr) list"
  l_strs :: "addr \<Rightarrow> outStream"
  l_next :: addr
  l_activeStreams :: "addr list"
  l_framer :: 'w
  l_hEnc :: "hpack_op list"
  l_draining :: bool
  l_mem :: mem
  l_log :: "loopy_event list"

definition http2MaxFrameLen :: int where
  "http2MaxFrameLen = 16384"

definition defaultWindowSize :: uint32 where
  "defaultWindowSize = 65535"

definition emptyReader :: Reader where
  "emptyReader = \<lparr>rdata = [], rlen = 0, bufferIdx = 0\<rparr>"

definition newOutStream :: "uint32 \<Rightarrow> addr \<Rightarrow> outStream" where
  "newOutStream i wq = \<lparr>os_id = i, os_state = empty_state, os_bytesOutStanding = 0, os_data = [], os_trailer = None,
     os_wq = wq, os_reader = emptyReader\<rparr>"

definition newLoopyWriter :: "side \<Rightarrow> 'w \<Rightarrow> mem \<Rightarrow> 'w loopyWriter" where
  "newLoopyWriter s fr m = \<lparr>l_side = s, l_sendQuota = defaultWindowSize, l_oiws = defaultWindowSize,
     l_estdStreams = [], l_strs = (\<lambda>_. newOutStream 0 0), l_next = 0, l_activeStreams = [], l_framer = fr,
     l_hEnc = [], l_draining = False, l_mem = m, l_log = []\<rparr>"

type_synonym 'w outcome = "(go_error option \<times> 'w loopyWriter) option"

definition upd_str :: "addr \<Rightarrow> (outStream \<Rightarrow> outStream) \<Rightarrow> 'w loopyWriter \<Rightarrow> 'w loopyWriter" where
  "upd_str r f l = l\<lparr>l_strs := (l_strs l)(r := f (l_strs l r))\<rparr>"

definition ev :: "loopy_event \<Rightarrow> 'w loopyWriter \<Rightarrow> 'w loopyWriter" where
  "ev e l = l\<lparr>l_log := l_log l @ [e]\<rparr>"

definition fr_write :: "'w loopy_env \<Rightarrow> frame \<Rightarrow> 'w loopyWriter \<Rightarrow> go_error option \<times> 'w loopyWriter" where
  "fr_write E f l = (let (err, w) = e_write E f (l_framer l) in (err, l\<lparr>l_framer := w\<rparr>))"

text \<open>A stream object is allocated and entered into the map of established streams.\<close>

definition establish :: "uint32 \<Rightarrow> outStream \<Rightarrow> 'w loopyWriter \<Rightarrow> 'w loopyWriter" where
  "establish i str l = l\<lparr>l_strs := (l_strs l)(l_next l := str), l_estdStreams := AList.update i (l_next l) (l_estdStreams l),
     l_next := l_next l + 1\<rparr>"

section \<open>Handlers\<close>

definition outgoingWindowUpdateHandler :: "'w loopy_env \<Rightarrow> uint32 \<Rightarrow> uint32 \<Rightarrow> 'w loopyWriter \<Rightarrow> 'w outcome" where
  "outgoingWindowUpdateHandler E streamID increment l = Some (fr_write E (FrWindowUpdate streamID increment) l)"

definition activate :: "addr \<Rightarrow> 'w loopyWriter \<Rightarrow> 'w loopyWriter" where
  "activate r l = (upd_str r (\<lambda>s. s\<lparr>os_state := active\<rparr>) l)\<lparr>l_activeStreams := l_activeStreams l @ [r]\<rparr>"

definition incomingWindowUpdateHandler :: "uint32 \<Rightarrow> uint32 \<Rightarrow> 'w loopyWriter \<Rightarrow> 'w loopyWriter" where
  "incomingWindowUpdateHandler streamID increment l =
     (if streamID = 0 then l\<lparr>l_sendQuota := l_sendQuota l + increment\<rparr>
      else
        (case map_of (l_estdStreams l) streamID of
           None \<Rightarrow> l
         | Some r \<Rightarrow>
             let l1 = upd_str r (\<lambda>s. s\<lparr>os_bytesOutStanding := os_bytesOutStanding s - int (unat increment)\<rparr>) l;
                 strQuota = int (unat (l_oiws l1)) - os_bytesOutStanding (l_strs l1 r)
             in if 0 < strQuota \<and> os_state (l_strs l1 r) = waitingOnStreamQuota then activate r l1 else l1))"

definition outgoingSettingsHandler :: "'w loopy_env \<Rightarrow> http2_setting list \<Rightarrow> 'w loopyWriter \<Rightarrow> 'w outcome" where
  "outgoingSettingsHandler E ss l = Some (fr_write E (FrSettings ss) l)"

text \<open>The iteration over the established streams when the initial window grew.\<close>

fun reactivate :: "(uint32 \<times> addr) list \<Rightarrow> 'w loopyWriter \<Rightarrow> 'w loopyWriter" where
  "reactivate [] l = l"
| "reactivate ((_, r) # es) l =
     reactivate es (if os_state (l_strs l r) = waitingOnStreamQuota then activate r l else l)"

definition SettingHeaderTableSize :: nat where
  "SettingHeaderTableSize = 1"

definition SettingInitialWindowSize :: nat where
  "SettingInitialWindowSize = 4"

definition applySetting :: "'w loopy_env \<Rightarrow> http2_setting \<Rightarrow> 'w loopyWriter \<Rightarrow> 'w loopyWriter" where
  "applySetting E s l =
     (if set_ID s = SettingInitialWindowSize then
        let l1 = l\<lparr>l_oiws := set_Val s\<rparr>
        in if l_oiws l < l_oiws l1 then reactivate (e_order E (l_estdStreams l1)) l1 else l1
      else if set_ID s = SettingHeaderTableSize then l\<lparr>l_hEnc := l_hEnc l @ [HTableSize (set_Val s)]\<rparr>
      else l)"

fun applySettings :: "'w loopy_env \<Rightarrow> http2_setting list \<Rightarrow> 'w loopyWriter \<Rightarrow> 'w loopyWriter" where
  "applySettings E [] l = l"
| "applySettings E (s # ss) l = applySettings E ss (applySetting E s l)"

definition incomingSettingsHandler :: "'w loopy_env \<Rightarrow> http2_setting list \<Rightarrow> 'w loopyWriter \<Rightarrow> 'w outcome" where
  "incomingSettingsHandler E ss l = Some (fr_write E FrSettingsAck (applySettings E ss l))"

definition registerStreamHandler :: "registerStream \<Rightarrow> 'w loopyWriter \<Rightarrow> 'w loopyWriter" where
  "registerStreamHandler h l = establish (rs_streamID h) (newOutStream (rs_streamID h) (rs_wq h)) l"

text \<open>\<open>writeHeader\<close>: the block is encoded into the buffer, then written in fragments.\<close>

fun encode_fields :: "'w loopy_env \<Rightarrow> header_fields \<Rightarrow> byte list \<Rightarrow> hpack_op list \<Rightarrow> byte list \<times> hpack_op list" where
  "encode_fields E [] hBuf h = (hBuf, h)"
| "encode_fields E (f # hf) hBuf h = encode_fields E hf (hBuf @ e_hpack E h f) (h @ [HField f])"

function write_fragments :: "'w loopy_env \<Rightarrow> uint32 \<Rightarrow> bool \<Rightarrow> bool \<Rightarrow> byte list \<Rightarrow> 'w loopyWriter \<Rightarrow>
  go_error option \<times> 'w loopyWriter"
where
  "write_fragments E streamID endStream first hBuf l =
     (let endHeaders = (length hBuf \<le> nat http2MaxFrameLen);
          sz = (if endHeaders then length hBuf else nat http2MaxFrameLen);
          f = (if first then FrHeaders streamID (take sz hBuf) endStream endHeaders
               else FrContinuation streamID endHeaders (take sz hBuf));
          (err, l1) = fr_write E f l
      in if err \<noteq> None then (err, l1)
         else if endHeaders then (None, l1)
         else write_fragments E streamID endStream False (drop sz hBuf) l1)"
  by pat_completeness auto
termination
  by (relation "measure (\<lambda>(_, _, _, _, hBuf, _). length hBuf)") (auto simp: http2MaxFrameLen_def)

declare write_fragments.simps [simp del]

definition writeHeader :: "'w loopy_env \<Rightarrow> uint32 \<Rightarrow> bool \<Rightarrow> header_fields \<Rightarrow> callback option \<Rightarrow> 'w loopyWriter \<Rightarrow>
  go_error option \<times> 'w loopyWriter"
where
  "writeHeader E streamID endStream hf onWrite l =
     (let l1 = (case onWrite of None \<Rightarrow> l | Some cb \<Rightarrow> ev (EvOnWrite cb) l);
          (hBuf, h) = encode_fields E hf [] (l_hEnc l1)
      in write_fragments E streamID endStream True hBuf (l1\<lparr>l_hEnc := h\<rparr>))"

text \<open>The loop of \<open>cleanupStreamHandler\<close> that frees the data of the frames that were not started.\<close>

fun free_frames :: "dataFrame list \<Rightarrow> mem \<Rightarrow> mem option" where
  "free_frames [] m = Some m"
| "free_frames (d # ds) m =
     (if df_processing d then free_frames ds m else do { m1 \<leftarrow> bs_Free (df_data d) m; free_frames ds m1 })"

definition remove_stream :: "uint32 \<Rightarrow> 'w loopyWriter \<Rightarrow> 'w loopyWriter option" where
  "remove_stream streamID l =
     (case map_of (l_estdStreams l) streamID of
        None \<Rightarrow> Some l
      | Some r \<Rightarrow> do {
          (rd, m1) \<leftarrow> Close (os_reader (l_strs l r)) (l_mem l);
          m2 \<leftarrow> free_frames (os_data (l_strs l r)) m1;
          Some ((upd_str r (\<lambda>s. s\<lparr>os_reader := rd, os_data := [], os_trailer := None\<rparr>) l)
            \<lparr>l_estdStreams := AList.delete streamID (l_estdStreams l),
             l_activeStreams := remove1 r (l_activeStreams l), l_mem := m2\<rparr>)
        })"

definition errDrained :: go_error where
  "errDrained = Err ''finished processing active streams while in draining mode''"

definition cleanupStreamHandler :: "'w loopy_env \<Rightarrow> cleanupStream \<Rightarrow> 'w loopyWriter \<Rightarrow> 'w outcome" where
  "cleanupStreamHandler E c l = do {
     cb \<leftarrow> cs_onWrite c;
     l1 \<leftarrow> remove_stream (cs_streamID c) (ev (EvOnWrite cb) l);
     let (err, l2) = (if cs_rst c then fr_write E (FrRST (cs_streamID c) (cs_rstCode c)) l1 else (None, l1));
     Some (if err \<noteq> None then (err, l2)
           else if l_draining l2 \<and> l_estdStreams l2 = [] then (Some errDrained, l2)
           else (None, l2))
   }"

definition serverHeaderHandler :: "'w loopy_env \<Rightarrow> serverHeaders \<Rightarrow> 'w loopyWriter \<Rightarrow> 'w outcome" where
  "serverHeaderHandler E hdr l =
     (case map_of (l_estdStreams l) (sh_streamID hdr) of
        None \<Rightarrow> Some (None, l)
      | Some r \<Rightarrow>
          if \<not> sh_endStream hdr then
            Some (writeHeader E (sh_streamID hdr) (sh_endStream hdr) (sh_hf hdr) (sh_onWrite hdr) l)
          else if os_state (l_strs l r) \<noteq> empty_state then
            Some (None, upd_str r (\<lambda>s. s\<lparr>os_trailer := Some hdr\<rparr>) l)
          else
            let (err, l1) = writeHeader E (sh_streamID hdr) (sh_endStream hdr) (sh_hf hdr) (sh_onWrite hdr) l
            in if err \<noteq> None then Some (err, l1)
               else do { c \<leftarrow> sh_cleanup hdr; cleanupStreamHandler E c l1 })"

definition errStreamDrain :: go_error where
  "errStreamDrain = Err ''the connection is draining''"

definition clientHeaderHandler :: "'w loopy_env \<Rightarrow> clientHeaders \<Rightarrow> 'w loopyWriter \<Rightarrow> 'w outcome" where
  "clientHeaderHandler E hdr l =
     (if l_draining l then do { cb \<leftarrow> ch_onOrphaned hdr; Some (None, ev (EvOnOrphaned cb errStreamDrain) l) }
      else do {
        cb \<leftarrow> ch_initStream hdr;
        let l1 = ev (EvInitStream cb (ch_streamID hdr)) l;
        if e_initStream E cb (ch_streamID hdr) \<noteq> None then Some (e_initStream E cb (ch_streamID hdr), l1)
        else
          let (err, l2) = writeHeader E (ch_streamID hdr) False (ch_hf hdr) (ch_onWrite hdr) l1
          in if err \<noteq> None then Some (err, l2)
             else Some (None, establish (ch_streamID hdr) (newOutStream (ch_streamID hdr) (ch_wq hdr)) l2)
      })"

definition preprocessData :: "dataFrame \<Rightarrow> 'w loopyWriter \<Rightarrow> 'w loopyWriter" where
  "preprocessData df l =
     (case map_of (l_estdStreams l) (df_streamID df) of
        None \<Rightarrow> l
      | Some r \<Rightarrow>
          let l1 = upd_str r (\<lambda>s. s\<lparr>os_data := os_data s @ [df]\<rparr>) l
          in if os_state (l_strs l1 r) = empty_state then activate r l1 else l1)"

definition pingHandler :: "'w loopy_env \<Rightarrow> bool \<Rightarrow> byte list \<Rightarrow> 'w loopyWriter \<Rightarrow> 'w outcome" where
  "pingHandler E ack data l =
     (let l1 = (if \<not> ack then ev (EvTimesnap data) l else l) in Some (fr_write E (FrPing ack data) l1))"

definition outFlowControlSizeRequestHandler :: "callback \<Rightarrow> 'w loopyWriter \<Rightarrow> 'w loopyWriter" where
  "outFlowControlSizeRequestHandler resp l = ev (EvQuota resp (l_sendQuota l)) l"

definition outStreamRequestHandler :: "uint32 \<Rightarrow> callback \<Rightarrow> 'w loopyWriter \<Rightarrow> 'w loopyWriter" where
  "outStreamRequestHandler streamID resp l = ev (EvStream resp (map_of (l_estdStreams l) streamID)) l"

definition earlyAbortStreamHandler :: "'w loopy_env \<Rightarrow> earlyAbortStream \<Rightarrow> 'w loopyWriter \<Rightarrow> 'w outcome" where
  "earlyAbortStreamHandler E eas l =
     (if l_side l = clientSide then Some (Some (Err ''earlyAbortStream not handled on client''), l)
      else
        let (err, l1) = writeHeader E (eas_streamID eas) True (eas_hf eas) None l
        in if err \<noteq> None then Some (err, l1)
           else if eas_rst eas then Some (fr_write E (FrRST (eas_streamID eas) 0) l1)
           else Some (None, l1))"

definition incomingGoAwayHandler :: "'w loopyWriter \<Rightarrow> 'w outcome" where
  "incomingGoAwayHandler l =
     (if l_side l = clientSide then
        let l1 = l\<lparr>l_draining := True\<rparr>
        in Some (if l_estdStreams l1 = [] then Some (Err ''received GOAWAY with no active streams'') else None, l1)
      else Some (None, l))"

definition goAwayHandler :: "'w loopy_env \<Rightarrow> goAway \<Rightarrow> 'w loopyWriter \<Rightarrow> 'w outcome" where
  "goAwayHandler E g l =
     (case e_ssGoAway E of
        None \<Rightarrow> Some (None, l)
      | Some f \<Rightarrow>
          let (draining, err, w) = f g (l_framer l); l1 = l\<lparr>l_framer := w\<rparr>
          in if err \<noteq> None then Some (err, l1) else Some (None, l1\<lparr>l_draining := draining\<rparr>))"

fun handle :: "'w loopy_env \<Rightarrow> cbItem \<Rightarrow> 'w loopyWriter \<Rightarrow> 'w outcome" where
  "handle E (IncomingWindowUpdate i n) l = Some (None, incomingWindowUpdateHandler i n l)"
| "handle E (OutgoingWindowUpdate i n) l = outgoingWindowUpdateHandler E i n l"
| "handle E (IncomingSettings ss) l = incomingSettingsHandler E ss l"
| "handle E (OutgoingSettings ss) l = outgoingSettingsHandler E ss l"
| "handle E (ClientHeaders h) l = clientHeaderHandler E h l"
| "handle E (ServerHeaders h) l = serverHeaderHandler E h l"
| "handle E (RegisterStream h) l = Some (None, registerStreamHandler h l)"
| "handle E (CleanupStream c) l = cleanupStreamHandler E c l"
| "handle E (EarlyAbortStream a) l = earlyAbortStreamHandler E a l"
| "handle E IncomingGoAway l = incomingGoAwayHandler l"
| "handle E (DataFrame d) l = Some (None, preprocessData d l)"
| "handle E (Ping ack d) l = pingHandler E ack d l"
| "handle E (GoAway g) l = goAwayHandler E g l"
| "handle E (OutFlowControlSizeRequest cb) l = Some (None, outFlowControlSizeRequestHandler cb l)"
| "handle E (OutStreamRequestForTesting i cb) l = Some (None, outStreamRequestHandler i cb l)"
| "handle E CloseConnection l = Some (Some ErrConnClosing, l)"

section \<open>Writing data\<close>

text \<open>
  \<open>processData\<close> in the order of the code. Starting a data item moves the references to its buffers
  into the stream's reader.
\<close>

definition start_item :: "outStream \<Rightarrow> dataFrame \<Rightarrow> mem \<Rightarrow> (dataFrame \<times> Reader \<times> mem) option" where
  "start_item str d m =
     (if df_processing d then Some (d, os_reader str, m)
      else do {
        (rd, m1) \<leftarrow> Reset (df_data d) (os_reader str) m;
        m2 \<leftarrow> bs_Free (df_data d) m1;
        Some (d\<lparr>df_processing := True\<rparr>, rd, m2)
      })"

definition updateStreamAfterWrite :: "'w loopy_env \<Rightarrow> addr \<Rightarrow> 'w loopyWriter \<Rightarrow> 'w outcome" where
  "updateStreamAfterWrite E r l =
     (if os_data (l_strs l r) = [] then
        (case os_trailer (l_strs l r) of
           None \<Rightarrow> Some (None, upd_str r (\<lambda>s. s\<lparr>os_state := empty_state\<rparr>) l)
         | Some t \<Rightarrow>
             let (err, l1) = writeHeader E (sh_streamID t) (sh_endStream t) (sh_hf t) (sh_onWrite t) l
             in if err \<noteq> None then Some (err, l1)
                else do { c \<leftarrow> sh_cleanup t; cleanupStreamHandler E c l1 })
      else if int (unat (l_oiws l)) - os_bytesOutStanding (l_strs l r) \<le> 0 then
        Some (None, upd_str r (\<lambda>s. s\<lparr>os_state := waitingOnStreamQuota\<rparr>) l)
      else Some (None, l\<lparr>l_activeStreams := l_activeStreams l @ [r]\<rparr>))"

text \<open>
  The sizes of one write: the part \<open>hSize\<close> of the message header and the part \<open>dSize\<close> of the data
  that fit into a frame and both flow-control windows.
\<close>

definition write_sizes :: "int \<Rightarrow> int \<Rightarrow> int \<Rightarrow> int \<Rightarrow> int \<times> int" where
  "write_sizes strQuota sendQuota hLen remaining =
     (let maxSize = min (min http2MaxFrameLen (max strQuota 0)) sendQuota;
          hSize = min maxSize hLen
      in (hSize, min (maxSize - hSize) remaining))"

definition write_item :: "'w loopy_env \<Rightarrow> addr \<Rightarrow> dataFrame \<Rightarrow> dataFrame list \<Rightarrow> 'w loopyWriter \<Rightarrow> (bool \<times> go_error option \<times> 'w loopyWriter) option" where
  "write_item E r d ds l =
     (let str = l_strs l r;
          rd = os_reader str;
          strQuota = int (unat (l_oiws l)) - os_bytesOutStanding str;
          (hSize, dSize) = write_sizes strQuota (int (unat (l_sendQuota l))) (int (length (df_h d))) (Remaining rd);
          remainingBytes = int (length (df_h d)) + Remaining rd - hSize - dSize;
          sz = hSize + dSize;
          writeBuf = (if 0 < hSize then [of_bytes (take (nat hSize) (df_h d))] else [])
      in do {
        (writeBuf1, perr) \<leftarrow> (if 0 < dSize then Peek (nat dSize) writeBuf rd (l_mem l) else Some (writeBuf, None));
        if perr \<noteq> None then Some (False, Some (Err ''insufficient bytes in reader''), l)
        else do {
          let l1 = ev (EvReplenish (os_wq str) sz) l;
          let endStream = (df_endStream d \<and> remainingBytes = 0);
          let l2 = (case df_onEachWrite d of None \<Rightarrow> l1 | Some cb \<Rightarrow> ev (EvOnEachWrite cb) l1);
          let (err, l3) = fr_write E (FrData (df_streamID d) endStream (map sbytes writeBuf1)) l2;
          (_, _, rd1, m1) \<leftarrow> Discard (nat dSize) rd (l_mem l3);
          let l4 = (upd_str r (\<lambda>s. s\<lparr>os_reader := rd1\<rparr>) l3)\<lparr>l_mem := m1\<rparr>;
          if err \<noteq> None then Some (False, err, l4)
          else do {
            let l5 = (upd_str r (\<lambda>s. s\<lparr>os_bytesOutStanding := os_bytesOutStanding s + sz,
                        os_data := d\<lparr>df_h := drop (nat hSize) (df_h d)\<rparr> # ds\<rparr>) l4)
                     \<lparr>l_sendQuota := l_sendQuota l4 - of_int sz\<rparr>;
            l6 \<leftarrow> (if remainingBytes = 0 then do {
                     (rd2, m2) \<leftarrow> Close rd1 m1;
                     Some ((upd_str r (\<lambda>s. s\<lparr>os_reader := rd2, os_data := ds\<rparr>) l5)\<lparr>l_mem := m2\<rparr>)
                   } else Some l5);
            (err1, l7) \<leftarrow> updateStreamAfterWrite E r l6;
            Some (False, err1, l7)
          }
        }
      })"

definition processData :: "'w loopy_env \<Rightarrow> 'w loopyWriter \<Rightarrow> (bool \<times> go_error option \<times> 'w loopyWriter) option" where
  "processData E l =
     (if l_sendQuota l = 0 then Some (True, None, l)
      else
        (case l_activeStreams l of
           [] \<Rightarrow> Some (True, None, l)
         | r # rest \<Rightarrow>
             (case os_data (l_strs l r) of
                [] \<Rightarrow> None
              | d0 # ds \<Rightarrow> do {
                  (d, rd, m1) \<leftarrow> start_item (l_strs l r) d0 (l_mem l);
                  let l1 = (upd_str r (\<lambda>s. s\<lparr>os_reader := rd, os_data := d # ds\<rparr>) l)
                           \<lparr>l_activeStreams := rest, l_mem := m1\<rparr>;
                  let isEmpty = (df_h d = [] \<and> Remaining rd = 0);
                  let strQuota = int (unat (l_oiws l1)) - os_bytesOutStanding (l_strs l1 r);
                  if strQuota \<le> 0 \<and> \<not> isEmpty
                  then Some (False, None, upd_str r (\<lambda>s. s\<lparr>os_state := waitingOnStreamQuota\<rparr>) l1)
                  else write_item E r d ds l1
                })))"

section \<open>The main loop\<close>

text \<open>
  \<open>run\<close> over the sequence of results its calls of \<open>cbuf.get\<close> return: a blocking call at the head of
  the outer loop, non-blocking ones in the inner loop, whose flag \<open>gosched\<close> is the state of the
  inner loop. \<open>Running\<close>: it waits for the next result.
\<close>

definition minBatchSize :: nat where
  "minBatchSize = 1000"

datatype run_pc = Outer | HasData bool

datatype run_result = Running run_pc | Exited "go_error option"

fun loopy_run :: "'w loopy_env \<Rightarrow> run_pc \<Rightarrow> get_result list \<Rightarrow> 'w loopyWriter \<Rightarrow> (run_result \<times> 'w loopyWriter) option" where
  "loopy_run E pc [] l = Some (Running pc, l)"
| "loopy_run E pc (GotErr e # gs) l = Some (Exited (Some e), l)"
| "loopy_run E pc (GotItem it # gs) l = do {
     (err, l1) \<leftarrow> handle E it l;
     if err \<noteq> None then Some (Exited err, l1)
     else do {
       (_, err1, l2) \<leftarrow> processData E l1;
       if err1 \<noteq> None then Some (Exited err1, l2)
       else loopy_run E (case pc of Outer \<Rightarrow> HasData True | HasData g \<Rightarrow> HasData g) gs l2
     }
   }"
| "loopy_run E Outer (GotNil # gs) l =
     Some (Exited (Some (Err ''transport: unknown control message type <nil>'')), l)"
| "loopy_run E (HasData g) (GotNil # gs) l = do {
     (isEmpty, err, l1) \<leftarrow> processData E l;
     if err \<noteq> None then Some (Exited err, l1)
     else if \<not> isEmpty then loopy_run E (HasData g) gs l1
     else if g \<and> e_offset E (l_framer l1) < minBatchSize then loopy_run E (HasData False) gs l1
     else loopy_run E Outer gs (l1\<lparr>l_framer := e_flush E (l_framer l1)\<rparr>)
   }"

text \<open>The deferred function of \<open>run\<close>: flush unless the exit is due to an I/O error, finish the buffer.\<close>

definition run_exit :: "'w loopy_env \<Rightarrow> go_error option \<Rightarrow> controlBuffer \<Rightarrow> 'w loopyWriter \<Rightarrow>
  ((callback \<times> go_error) list \<times> controlBuffer \<times> 'w loopyWriter) option"
where
  "run_exit E err c l = do {
     let l1 = (if isIOError err then l else l\<lparr>l_framer := e_flush E (l_framer l)\<rparr>);
     (log, c1, m) \<leftarrow> finish c (l_mem l1);
     Some (log, c1, l1\<lparr>l_mem := m\<rparr>)
   }"

section \<open>Invariant\<close>

text \<open>The buffer references a stream owns: those in its reader and those of frames not yet started.\<close>

definition frame_refs :: "dataFrame \<Rightarrow> addr multiset" where
  "frame_refs d = (if df_processing d then {#} else bs_refs (df_data d))"

definition frames_refs :: "dataFrame list \<Rightarrow> addr multiset" where
  "frames_refs ds = sum_list (map frame_refs ds)"

definition stream_refs :: "outStream \<Rightarrow> addr multiset" where
  "stream_refs s = bs_refs (rdata (os_reader s)) + frames_refs (os_data s)"

definition estd_refs :: "(uint32 \<times> addr) list \<Rightarrow> (addr \<Rightarrow> outStream) \<Rightarrow> addr multiset" where
  "estd_refs es strs = sum_list (map (\<lambda>(i, r). stream_refs (strs r)) es)"

lemma frames_refs_simps [simp]:
  "frames_refs [] = {#}" "frames_refs (d # ds) = frame_refs d + frames_refs ds"
  "frames_refs (ds @ es) = frames_refs ds + frames_refs es"
  by (simp_all add: frames_refs_def)

lemma estd_refs_simps [simp]:
  "estd_refs [] strs = {#}" "estd_refs ((i, r) # es) strs = stream_refs (strs r) + estd_refs es strs"
  "estd_refs (es @ es') strs = estd_refs es strs + estd_refs es' strs"
  by (simp_all add: estd_refs_def)

lemma mset_add_subD:
  assumes "A + B \<subseteq># (H :: 'a multiset)"
  shows "A \<subseteq># H" and "B \<subseteq># H"
  using assms mset_subset_eq_add_left mset_subset_eq_add_right subset_mset.order_trans by blast+

text \<open>The bytes a stream has still to send.\<close>

definition frame_bytes :: "mem \<Rightarrow> dataFrame \<Rightarrow> byte list" where
  "frame_bytes m d = df_h d @ bs_bytes (df_data d) m"

definition pending :: "outStream \<Rightarrow> mem \<Rightarrow> byte list" where
  "pending s m =
     (case os_data s of
        [] \<Rightarrow> []
      | d # ds \<Rightarrow> df_h d @ (if df_processing d then rbytes (os_reader s) m else bs_bytes (df_data d) m) @
          concat (map (frame_bytes m) ds))"

definition reader_wf :: "Reader \<Rightarrow> mem \<Rightarrow> bool" where
  "reader_wf rd m \<longleftrightarrow> list_all bwf (rdata rd) \<and>
     (rdata rd \<noteq> [] \<longrightarrow> bufferIdx rd \<le> length (bytes_of (hd (rdata rd)) m)) \<and>
     rlen rd = int (length (rbytes rd m))"

lemma reader_ok_iff: "reader_ok others rd m \<longleftrightarrow> mem_ok m (others + bs_refs (rdata rd)) \<and> reader_wf rd m"
  by (auto simp: reader_ok_def reader_wf_def)

text \<open>Trailers have END_STREAM and a cleanup of the same stream with a callback.\<close>

definition trailers_legal :: "serverHeaders \<Rightarrow> bool" where
  "trailers_legal t \<longleftrightarrow> (sh_endStream t \<longrightarrow>
     (\<exists>c. sh_cleanup t = Some c \<and> cs_onWrite c \<noteq> None \<and> cs_streamID c = sh_streamID t))"

definition stream_ok :: "uint32 \<Rightarrow> outStream \<Rightarrow> mem \<Rightarrow> bool" where
  "stream_ok i s m \<longleftrightarrow>
     os_id s = i \<and>
     (\<forall>d \<in> set (os_data s). df_streamID d = i \<and> list_all bwf (df_data d)) \<and>
     (\<forall>d \<in> set (tl (os_data s)). \<not> df_processing d) \<and>
     reader_wf (os_reader s) m \<and>
     (os_data s = [] \<or> \<not> df_processing (hd (os_data s)) \<longrightarrow> rdata (os_reader s) = []) \<and>
     (os_data s = [] \<longleftrightarrow> os_state s = empty_state) \<and>
     (\<forall>t. os_trailer s = Some t \<longrightarrow>
        os_data s \<noteq> [] \<and> sh_endStream t \<and> sh_streamID t = i \<and> trailers_legal t)"

text \<open>
  The structural invariant. Streams are listed as active exactly when they are established, in the
  active state and not being written; \<open>ext\<close> are the buffer references held elsewhere.
\<close>

definition loopy_ok :: "addr multiset \<Rightarrow> 'w loopyWriter \<Rightarrow> bool" where
  "loopy_ok ext l \<longleftrightarrow>
     distinct (map fst (l_estdStreams l)) \<and> distinct (map snd (l_estdStreams l)) \<and>
     distinct (l_activeStreams l) \<and>
     (\<forall>(i, r) \<in> set (l_estdStreams l). stream_ok i (l_strs l r) (l_mem l) \<and> r < l_next l) \<and>
     (\<forall>r. r \<in> set (l_activeStreams l) \<longleftrightarrow>
        r \<in> snd ` set (l_estdStreams l) \<and> os_state (l_strs l r) = active) \<and>
     mem_ok (l_mem l) (ext + estd_refs (l_estdStreams l) (l_strs l))"

lemma loopy_ok_flags [simp]:
  "loopy_ok ext (l\<lparr>l_framer := w\<rparr>) = loopy_ok ext l"
  "loopy_ok ext (l\<lparr>l_hEnc := h\<rparr>) = loopy_ok ext l"
  "loopy_ok ext (l\<lparr>l_log := log\<rparr>) = loopy_ok ext l"
  "loopy_ok ext (l\<lparr>l_draining := b\<rparr>) = loopy_ok ext l"
  "loopy_ok ext (l\<lparr>l_sendQuota := q\<rparr>) = loopy_ok ext l"
  "loopy_ok ext (l\<lparr>l_oiws := q\<rparr>) = loopy_ok ext l"
  by (simp_all add: loopy_ok_def)

lemma loopy_ok_ev [simp]: "loopy_ok ext (ev e l) = loopy_ok ext l"
  by (simp add: ev_def)

text \<open>
  What the rest of the program does with its own references does not disturb a stream, as the
  buffers the stream refers to keep their contents.
\<close>

definition same_bytes :: "addr multiset \<Rightarrow> mem \<Rightarrow> mem \<Rightarrow> bool" where
  "same_bytes own m m' \<longleftrightarrow> (\<forall>b. refs_of b \<subseteq># own \<longrightarrow> bytes_of b m' = bytes_of b m)"

lemma same_bytes_kept: "kept m m' \<Longrightarrow> mem_ok m' held \<Longrightarrow> own \<subseteq># held \<Longrightarrow> same_bytes own m m'"
  unfolding same_bytes_def using kept_bytes subset_mset.order_trans by blast

lemma same_bytes_sub: "same_bytes own m m' \<Longrightarrow> own' \<subseteq># own \<Longrightarrow> same_bytes own' m m'"
  unfolding same_bytes_def using subset_mset.order_trans by blast

lemma same_bs_bytes: "same_bytes own m m' \<Longrightarrow> bs_refs s \<subseteq># own \<Longrightarrow> bs_bytes s m' = bs_bytes s m"
proof (induction s)
  case (Cons b s)
  then have "refs_of b \<subseteq># own" "bs_refs s \<subseteq># own" by (auto dest: bs_refs_ConsD)
  then show ?case using Cons by (simp add: same_bytes_def)
qed simp

lemma reader_wf_same:
  assumes "same_bytes (bs_refs (rdata rd)) m m'"
  shows "rbytes rd m' = rbytes rd m" and "reader_wf rd m' = reader_wf rd m"
proof -
  have same: "bytes_of b m' = bytes_of b m" "bs_bytes s m' = bs_bytes s m" if "rdata rd = b # s" for b s
    using assms that same_bs_bytes [OF assms, of s] by (simp_all add: same_bytes_def)
  then show rb: "rbytes rd m' = rbytes rd m" by (auto simp: rbytes_def split: list.splits)
  show "reader_wf rd m' = reader_wf rd m"
    using same by (cases "rdata rd") (auto simp: reader_wf_def rb)
qed

lemma frame_bytes_same:
  assumes "same_bytes (frames_refs ds) m m'" and "\<forall>d \<in> set ds. \<not> df_processing d"
  shows "concat (map (frame_bytes m') ds) = concat (map (frame_bytes m) ds)"
  using assms
proof (induction ds)
  case (Cons d ds)
  then have "bs_bytes (df_data d) m' = bs_bytes (df_data d) m" "same_bytes (frames_refs ds) m m'"
    using same_bs_bytes [OF Cons.prems(1), of "df_data d"] same_bytes_sub [OF Cons.prems(1)] by (simp_all add: frame_refs_def)
  then show ?case using Cons by (simp add: frame_bytes_def)
qed simp

lemma stream_same:
  assumes "same_bytes (stream_refs s) m m'" and "stream_ok i s m"
  shows "stream_ok i s m'" and "pending s m' = pending s m"
proof -
  note rd = reader_wf_same [OF same_bytes_sub [OF assms(1)], of "os_reader s"]
  have rd: "rbytes (os_reader s) m' = rbytes (os_reader s) m" "reader_wf (os_reader s) m' = reader_wf (os_reader s) m"
    using rd by (simp_all add: stream_refs_def)
  show "stream_ok i s m'" using assms(2) unfolding stream_ok_def rd(2) .
  show "pending s m' = pending s m"
  proof (cases "os_data s")
    case (Cons d ds)
    have "same_bytes (frames_refs ds) m m'"
      by (rule same_bytes_sub [OF assms(1)])
        (simp add: stream_refs_def Cons subset_mset.add_increasing subset_mset.add_increasing2)
    moreover have "\<forall>d \<in> set ds. \<not> df_processing d" using assms(2) Cons by (simp add: stream_ok_def)
    moreover have "bs_bytes (df_data d) m' = bs_bytes (df_data d) m" if "\<not> df_processing d"
      by (rule same_bs_bytes [OF assms(1)])
        (simp add: stream_refs_def Cons that frame_refs_def subset_mset.add_increasing subset_mset.add_increasing2)
    ultimately show ?thesis using Cons rd(1) frame_bytes_same by (simp add: pending_def)
  qed (simp add: pending_def)
qed

end
