(* ===== verification/Loopy_Streams.thy ===== *)
theory Loopy_Streams
  imports Loopy_Writer "HOL-Library.Sublist"
begin

text \<open>
  The proof library for the loopy writer: working on one stream while the invariant holds for the
  others, establishing and removing streams, header blocks as sequences of frames, and the framer
  as the writer relies on it.
\<close>

section \<open>One stream at a time\<close>

text \<open>
  A sum over the established streams splits into the part of one stream and the rest. The
  invariant of all streams but \<open>r\<close> holds while \<open>r\<close> is being worked on.
\<close>

lemma estd_sum_split:
  assumes "distinct (map snd es)" and "(i, r) \<in> set es"
  shows "sum_list (map (\<lambda>(j, q). f q) es) =
    sum_list (map (\<lambda>(j, q). f q) (filter (\<lambda>(j, q). q \<noteq> r) es)) + (f r :: 'a :: comm_monoid_add)"
  using assms
proof (induction es)
  case (Cons e es)
  show ?case
  proof (cases "snd e = r")
    case True
    then have "filter (\<lambda>(j, q). q \<noteq> r) es = es"
      using Cons.prems(1) by (auto simp: filter_id_conv image_iff)
    then show ?thesis using True by (cases e) (simp add: add.commute)
  next
    case False
    then show ?thesis using Cons by (cases e) (auto simp: ac_simps)
  qed
qed simp

lemma estd_sum_cong:
  "(\<And>i r. (i, r) \<in> set es \<Longrightarrow> f r = g r) \<Longrightarrow>
   sum_list (map (\<lambda>(j, q). f q) es) = sum_list (map (\<lambda>(j, q). g q) es)"
  by (intro arg_cong [of _ _ sum_list] map_cong) auto

definition rest_refs :: "addr \<Rightarrow> 'w loopyWriter \<Rightarrow> addr multiset" where
  "rest_refs r l = estd_refs (filter (\<lambda>(j, q). q \<noteq> r) (l_estdStreams l)) (l_strs l)"

definition loopy_rest :: "addr \<Rightarrow> addr multiset \<Rightarrow> 'w loopyWriter \<Rightarrow> bool" where
  "loopy_rest r ext l \<longleftrightarrow>
     distinct (map fst (l_estdStreams l)) \<and> distinct (map snd (l_estdStreams l)) \<and>
     distinct (l_activeStreams l) \<and>
     (\<forall>(i, q) \<in> set (l_estdStreams l). (q \<noteq> r \<longrightarrow> stream_ok i (l_strs l q) (l_mem l)) \<and> q < l_next l) \<and>
     (\<forall>q. q \<noteq> r \<longrightarrow> (q \<in> set (l_activeStreams l) \<longleftrightarrow>
        q \<in> snd ` set (l_estdStreams l) \<and> os_state (l_strs l q) = active)) \<and>
     mem_ok (l_mem l) (ext + rest_refs r l + stream_refs (l_strs l r))"

lemma estd_refs_split:
  "distinct (map snd (l_estdStreams l)) \<Longrightarrow> (i, r) \<in> set (l_estdStreams l) \<Longrightarrow>
   estd_refs (l_estdStreams l) (l_strs l) = rest_refs r l + stream_refs (l_strs l r)"
  unfolding estd_refs_def rest_refs_def by (rule estd_sum_split)

lemma loopy_ok_rest:
  assumes "loopy_ok ext l" and "(i, r) \<in> set (l_estdStreams l)"
  shows "loopy_rest r ext l"
  using assms estd_refs_split [of l i r] unfolding loopy_ok_def loopy_rest_def by (auto simp: add.assoc)

lemma loopy_stream:
  assumes "loopy_ok ext l" and "(i, r) \<in> set (l_estdStreams l)"
  shows "stream_ok i (l_strs l r) (l_mem l)" and "r < l_next l"
  using assms by (auto simp: loopy_ok_def)

lemma estd_lookup:
  assumes "loopy_rest q ext l \<or> loopy_ok ext l"
  shows "map_of (l_estdStreams l) i = Some r \<longleftrightarrow> (i, r) \<in> set (l_estdStreams l)"
  using assms by (auto simp: loopy_ok_def loopy_rest_def)

lemma estd_unique:
  assumes "loopy_rest q ext l" and "(i, r) \<in> set (l_estdStreams l)" and "(j, r) \<in> set (l_estdStreams l)"
  shows "j = i"
  using assms inj_onD [of snd "set (l_estdStreams l)" "(j, r)" "(i, r)"]
  by (simp add: loopy_rest_def distinct_map)

lemma loopy_rest_ok:
  assumes "loopy_rest r ext l" and est: "(i, r) \<in> set (l_estdStreams l)"
    and "stream_ok i (l_strs l r) (l_mem l)" and "r \<in> set (l_activeStreams l) \<longleftrightarrow> os_state (l_strs l r) = active"
  shows "loopy_ok ext l"
proof -
  have "\<forall>(j, q) \<in> set (l_estdStreams l). stream_ok j (l_strs l q) (l_mem l) \<and> q < l_next l"
    using assms(1,3) estd_unique [OF assms(1) est] by (auto simp: loopy_rest_def)
  moreover have "q \<in> set (l_activeStreams l) \<longleftrightarrow> q \<in> snd ` set (l_estdStreams l) \<and> os_state (l_strs l q) = active" for q
  proof (cases "q = r")
    case True
    moreover have "r \<in> snd ` set (l_estdStreams l)" using est by force
    ultimately show ?thesis using assms(4) by simp
  qed (use assms(1) in \<open>simp add: loopy_rest_def\<close>)
  ultimately show ?thesis
    using assms(1) estd_refs_split [OF _ est] unfolding loopy_ok_def loopy_rest_def by (simp add: add.assoc)
qed

lemma refs_within:
  "(j, q) \<in> set es \<Longrightarrow> stream_refs (strs q) \<subseteq># estd_refs es strs"
  by (induction es) (auto simp: subset_mset.add_increasing subset_mset.add_increasing2)

definition changed :: "addr \<Rightarrow> outStream \<Rightarrow> mem \<Rightarrow> addr list \<Rightarrow> 'w loopyWriter \<Rightarrow> 'w loopyWriter" where
  "changed r s m as l = l\<lparr>l_strs := (l_strs l)(r := s), l_mem := m, l_activeStreams := as\<rparr>"

lemma changed_simps [simp]:
  "l_estdStreams (changed r s m as l) = l_estdStreams l" "l_strs (changed r s m as l) = (l_strs l)(r := s)"
  "l_mem (changed r s m as l) = m" "l_activeStreams (changed r s m as l) = as"
  "l_next (changed r s m as l) = l_next l" "l_sendQuota (changed r s m as l) = l_sendQuota l"
  "l_oiws (changed r s m as l) = l_oiws l" "l_framer (changed r s m as l) = l_framer l"
  "l_draining (changed r s m as l) = l_draining l" "l_side (changed r s m as l) = l_side l"
  by (simp_all add: changed_def)

lemma rest_refs_changed [simp]: "rest_refs r (changed r s m as l) = rest_refs r l"
  unfolding rest_refs_def estd_refs_def changed_simps by (rule estd_sum_cong) auto

lemma others_kept:
  assumes "loopy_rest r ext l" and "mem_ok m (ext' + rest_refs r l + own)" and "kept (l_mem l) m"
    and "(j, q) \<in> set (l_estdStreams l)" and "q \<noteq> r"
  shows "stream_ok j (l_strs l q) m" and "pending (l_strs l q) m = pending (l_strs l q) (l_mem l)"
proof -
  have "stream_refs (l_strs l q) \<subseteq># rest_refs r l"
    unfolding rest_refs_def by (rule refs_within) (use assms(4,5) in auto)
  then have "stream_refs (l_strs l q) \<subseteq># ext' + rest_refs r l + own"
    by (simp add: subset_mset.add_increasing subset_mset.add_increasing2)
  from stream_same [OF same_bytes_kept [OF assms(3,2) this], of j] assms(1,4,5)
  show "stream_ok j (l_strs l q) m" "pending (l_strs l q) m = pending (l_strs l q) (l_mem l)"
    by (auto simp: loopy_rest_def)
qed

lemma rest_change:
  assumes "loopy_rest r ext l" and "mem_ok m (ext' + rest_refs r l + stream_refs s)" and "kept (l_mem l) m"
    and "distinct as" and "\<And>q. q \<noteq> r \<Longrightarrow> q \<in> set as \<longleftrightarrow> q \<in> set (l_activeStreams l)"
  shows "loopy_rest r ext' (changed r s m as l)"
proof -
  have "\<forall>(j, q) \<in> set (l_estdStreams l).
    (q \<noteq> r \<longrightarrow> stream_ok j (l_strs (changed r s m as l) q) m) \<and> q < l_next l"
    using others_kept(1) [OF assms(1-3)] assms(1) by (auto simp: loopy_rest_def)
  then show ?thesis
    using assms(1,2,4,5) unfolding loopy_rest_def rest_refs_changed changed_simps by simp
qed

section \<open>Writing headers\<close>

text \<open>Operations that only use the framer, the HPACK encoder and the callbacks.\<close>

definition io_only :: "'w loopyWriter \<Rightarrow> 'w loopyWriter \<Rightarrow> bool" where
  "io_only l l' \<longleftrightarrow> l' = l\<lparr>l_framer := l_framer l', l_hEnc := l_hEnc l', l_log := l_log l'\<rparr>"

lemma io_only_refl [simp]: "io_only l l"
  by (simp add: io_only_def)

lemma io_only_trans: "io_only l l1 \<Longrightarrow> io_only l1 l2 \<Longrightarrow> io_only l l2"
  by (cases l; cases l1; cases l2) (simp add: io_only_def)

lemma io_only_fields:
  assumes "io_only l l'"
  shows "l_side l' = l_side l" "l_sendQuota l' = l_sendQuota l" "l_oiws l' = l_oiws l"
    "l_estdStreams l' = l_estdStreams l" "l_strs l' = l_strs l" "l_next l' = l_next l"
    "l_activeStreams l' = l_activeStreams l" "l_draining l' = l_draining l" "l_mem l' = l_mem l"
    "loopy_ok ext l' = loopy_ok ext l" "loopy_rest r ext l' = loopy_rest r ext l" "rest_refs r l' = rest_refs r l"
  by (subst assms [unfolded io_only_def]; simp add: loopy_rest_def rest_refs_def)+

lemma io_only_ev [simp]: "io_only l (ev e l)"
  by (simp add: io_only_def ev_def)

lemma io_only_write: "fr_write E f l = (err, l') \<Longrightarrow> io_only l l'"
  by (auto simp: fr_write_def io_only_def split: prod.splits)

text \<open>
  A header block in frames, by position: a HEADERS frame with the first \<open>http2MaxFrameLen\<close> bytes,
  then CONTINUATION frames, the last one with END_HEADERS. An empty block is one empty frame.
\<close>

definition fragment :: "byte list \<Rightarrow> nat \<Rightarrow> byte list" where
  "fragment hBuf k = take 16384 (drop (k * 16384) hBuf)"

definition n_fragments :: "byte list \<Rightarrow> nat" where
  "n_fragments hBuf = max 1 ((length hBuf + 16383) div 16384)"

definition header_frame :: "uint32 \<Rightarrow> bool \<Rightarrow> byte list \<Rightarrow> nat \<Rightarrow> frame" where
  "header_frame streamID endStream hBuf k =
     (if k = 0 then FrHeaders streamID (fragment hBuf 0) endStream (n_fragments hBuf = 1)
      else FrContinuation streamID (k + 1 = n_fragments hBuf) (fragment hBuf k))"

fun write_frames :: "'w loopy_env \<Rightarrow> frame list \<Rightarrow> 'w loopyWriter \<Rightarrow> go_error option \<times> 'w loopyWriter" where
  "write_frames E [] l = (None, l)"
| "write_frames E (f # fs) l =
     (let (err, l1) = fr_write E f l in if err \<noteq> None then (err, l1) else write_frames E fs l1)"

lemma write_frames_io: "write_frames E fs l = (err, l') \<Longrightarrow> io_only l l'"
  by (induction fs arbitrary: l)
    (auto split: prod.splits if_splits dest: io_only_write intro: io_only_trans)

lemma n_fragments_step: "16384 < length hBuf \<Longrightarrow> n_fragments hBuf = Suc (n_fragments (drop 16384 hBuf))"
  unfolding n_fragments_def by simp

lemma n_fragments_one: "n_fragments hBuf = 1 \<longleftrightarrow> length hBuf \<le> 16384"
  unfolding n_fragments_def by linarith

lemma fragment_step: "fragment (drop 16384 hBuf) k = fragment hBuf (Suc k)"
  by (simp add: fragment_def add.commute)

definition head_frame :: "uint32 \<Rightarrow> bool \<Rightarrow> bool \<Rightarrow> byte list \<Rightarrow> frame" where
  "head_frame i es first hBuf =
     (if first then FrHeaders i (fragment hBuf 0) es (n_fragments hBuf = 1)
      else FrContinuation i (n_fragments hBuf = 1) (fragment hBuf 0))"

definition tail_frames :: "uint32 \<Rightarrow> byte list \<Rightarrow> frame list" where
  "tail_frames i hBuf =
     map (\<lambda>k. FrContinuation i (k + 1 = n_fragments hBuf) (fragment hBuf k)) [1..<n_fragments hBuf]"

lemma write_fragments_step:
  "write_fragments E i es first hBuf l =
     (let (err, l1) = fr_write E (head_frame i es first hBuf) l
      in if err \<noteq> None \<or> length hBuf \<le> 16384 then (err, l1)
         else write_fragments E i es False (drop 16384 hBuf) l1)"
proof (cases "length hBuf \<le> 16384")
  case True
  then show ?thesis by (subst write_fragments.simps)
    (simp add: Let_def http2MaxFrameLen_def head_frame_def fragment_def n_fragments_one [simplified] split: prod.splits)
next
  case False
  then show ?thesis by (subst write_fragments.simps)
    (simp add: Let_def http2MaxFrameLen_def head_frame_def fragment_def n_fragments_one [simplified] split: prod.splits)
qed

lemma tail_frames_step:
  assumes "16384 < length hBuf"
  shows "tail_frames i hBuf = head_frame i es False (drop 16384 hBuf) # tail_frames i (drop 16384 hBuf)"
proof -
  let ?d = "drop 16384 hBuf"
  have n: "n_fragments hBuf = Suc (n_fragments ?d)" using assms n_fragments_step by blast
  have "0 < n_fragments ?d" by (simp add: n_fragments_def)
  then have "[1..<n_fragments hBuf] = 1 # map Suc [1..<n_fragments ?d]"
    unfolding n map_Suc_upt by (subst upt_conv_Cons) simp_all
  then show ?thesis unfolding tail_frames_def n
    by (simp add: fragment_step comp_def head_frame_def eq_commute [of "Suc 0"])
qed

lemma write_fragments_eq:
  "write_fragments E i es first hBuf l = write_frames E (head_frame i es first hBuf # tail_frames i hBuf) l"
proof (induction "length hBuf" arbitrary: first hBuf l rule: less_induct)
  case less
  obtain err l1 where w: "fr_write E (head_frame i es first hBuf) l = (err, l1)" by fastforce
  show ?case
  proof (cases "length hBuf \<le> 16384")
    case True
    then have "tail_frames i hBuf = []" by (simp add: tail_frames_def n_fragments_def)
    then show ?thesis using True w by (subst write_fragments_step) (simp add: Let_def)
  next
    case False
    then have "write_fragments E i es False (drop 16384 hBuf) l1 =
      write_frames E (head_frame i es False (drop 16384 hBuf) # tail_frames i (drop 16384 hBuf)) l1"
      by (intro less) simp
    then show ?thesis using False w tail_frames_step [of hBuf i es]
      by (subst write_fragments_step) (simp del: write_frames.simps, simp)
  qed
qed

section \<open>What the writer does, observed at the framer\<close>

definition is_data :: "frame \<Rightarrow> bool" where
  "is_data f = (case f of FrData _ _ _ \<Rightarrow> True | _ \<Rightarrow> False)"

lemma is_data_simps [simp]:
  "is_data (FrData i es p)" "\<not> is_data (FrHeaders i b es eh)" "\<not> is_data (FrContinuation i eh b)"
  "\<not> is_data (FrRST i n)" "\<not> is_data (FrSettings ss)" "\<not> is_data FrSettingsAck" "\<not> is_data (FrPing ack d)"
  "\<not> is_data (FrWindowUpdate i n)"
  by (simp_all add: is_data_def)

text \<open>
  The bytes each established stream has still to send; \<open>quiet\<close>: nothing changed but the connection,
  the encoder and the callbacks, and no DATA frame was written.
\<close>

definition pend :: "'w loopyWriter \<Rightarrow> uint32 \<Rightarrow> byte list option" where
  "pend l i = map_option (\<lambda>r. pending (l_strs l r) (l_mem l)) (map_of (l_estdStreams l) i)"

definition quiet :: "('w \<Rightarrow> frame list) \<Rightarrow> 'w loopyWriter \<Rightarrow> 'w loopyWriter \<Rightarrow> bool" where
  "quiet obs l l' \<longleftrightarrow> io_only l l' \<and> obs (l_framer l') = obs (l_framer l)"

lemma quiet_refl [simp]: "quiet obs l l"
  by (simp add: quiet_def)

lemma quiet_trans: "quiet obs l l1 \<Longrightarrow> quiet obs l1 l2 \<Longrightarrow> quiet obs l l2"
  by (auto simp: quiet_def intro: io_only_trans)

lemma quiet_ev [simp]: "quiet obs l (ev e l)"
  by (simp add: quiet_def) (simp add: ev_def)

lemma quiet_pend: "quiet obs l l' \<Longrightarrow> pend l' = pend l"
  using io_only_fields(4,5,9) [of l l'] by (simp add: quiet_def pend_def fun_eq_iff)

lemma pend_same:
  assumes "l_estdStreams l' = l_estdStreams l"
    and "\<And>j q. (j, q) \<in> set (l_estdStreams l) \<Longrightarrow> pending (l_strs l' q) (l_mem l') = pending (l_strs l q) (l_mem l)"
  shows "pend l' = pend l"
proof
  fix i
  show "pend l' i = pend l i"
    using assms(1) assms(2) [of i "the (map_of (l_estdStreams l) i)"]
    by (cases "map_of (l_estdStreams l) i") (auto simp: pend_def dest: map_of_SomeD)
qed

text \<open>
  The framer as the writer relies on it: \<open>obs\<close> is the sequence of DATA frames written so far. Only
  writing a DATA frame adds to it.
\<close>

locale data_framer =
  fixes E :: "'w loopy_env" and obs :: "'w \<Rightarrow> frame list"
  assumes obs_write: "e_write E f w = (err, w') \<Longrightarrow> obs w' = obs w @ (if is_data f then [f] else [])"
    and obs_flush: "obs (e_flush E w) = obs w"
    and obs_goAway: "e_ssGoAway E = Some h \<Longrightarrow> h g w = (d, err, w') \<Longrightarrow> obs w' = obs w"
begin

lemma quiet_write: "fr_write E f l = (err, l') \<Longrightarrow> \<not> is_data f \<Longrightarrow> quiet obs l l'"
  using obs_write [of f "l_framer l"] by (auto simp: fr_write_def quiet_def io_only_def split: prod.splits)

lemma quiet_write_frames:
  "write_frames E fs l = (err, l') \<Longrightarrow> list_all (\<lambda>f. \<not> is_data f) fs \<Longrightarrow> quiet obs l l'"
proof (induction fs arbitrary: l)
  case (Cons f fs)
  obtain e l1 where w: "fr_write E f l = (e, l1)" by fastforce
  then have "quiet obs l l1" using Cons.prems(2) by (auto dest: quiet_write)
  then show ?case using Cons w by (auto split: if_splits intro: quiet_trans)
qed simp

lemma quiet_writeHeader:
  assumes "writeHeader E i es hf cb l = (err, l')"
  shows "quiet obs l l'"
proof -
  let ?l = "case cb of None \<Rightarrow> l | Some cb \<Rightarrow> ev (EvOnWrite cb) l"
  obtain hBuf h where "encode_fields E hf [] (l_hEnc ?l) = (hBuf, h)" by fastforce
  then have "write_frames E (head_frame i es True hBuf # tail_frames i hBuf) (?l\<lparr>l_hEnc := h\<rparr>) = (err, l')"
    using assms by (simp add: writeHeader_def Let_def write_fragments_eq)
  then have "quiet obs (?l\<lparr>l_hEnc := h\<rparr>) l'"
    by (rule quiet_write_frames) (auto simp: head_frame_def tail_frames_def list_all_iff)
  moreover have "quiet obs l (?l\<lparr>l_hEnc := h\<rparr>)" by (auto simp: quiet_def io_only_def ev_def split: option.splits)
  ultimately show ?thesis by (blast intro: quiet_trans)
qed

end

section \<open>Waiting for window\<close>

text \<open>
  A stream that waits for stream quota has none. \<open>calm\<close>: no stream starts to wait; \<open>works_on\<close>: only
  the stream at \<open>r\<close> changes, or streams are removed.
\<close>

definition waits_ok :: "'w loopyWriter \<Rightarrow> addr \<Rightarrow> bool" where
  "waits_ok l r \<longleftrightarrow> (os_state (l_strs l r) = waitingOnStreamQuota \<longrightarrow>
     int (unat (l_oiws l)) \<le> os_bytesOutStanding (l_strs l r))"

definition waits :: "'w loopyWriter \<Rightarrow> bool" where
  "waits l \<longleftrightarrow> (\<forall>(i, r) \<in> set (l_estdStreams l). waits_ok l r)"

definition calm :: "'w loopyWriter \<Rightarrow> 'w loopyWriter \<Rightarrow> bool" where
  "calm l l' \<longleftrightarrow> l_oiws l' = l_oiws l \<and>
     (\<forall>(i, r) \<in> set (l_estdStreams l'). os_state (l_strs l' r) = waitingOnStreamQuota \<longrightarrow>
        (i, r) \<in> set (l_estdStreams l) \<and> os_state (l_strs l r) = waitingOnStreamQuota \<and>
        os_bytesOutStanding (l_strs l' r) = os_bytesOutStanding (l_strs l r))"

definition works_on :: "addr \<Rightarrow> 'w loopyWriter \<Rightarrow> 'w loopyWriter \<Rightarrow> bool" where
  "works_on r l l' \<longleftrightarrow> l_oiws l' = l_oiws l \<and>
     (\<forall>(j, q) \<in> set (l_estdStreams l'). (j, q) \<in> set (l_estdStreams l) \<and>
        (if q = r then waits_ok l' r else l_strs l' q = l_strs l q))"

lemma calm_refl [simp]: "calm l l"
  by (auto simp: calm_def)

lemma calm_trans: "calm l l1 \<Longrightarrow> calm l1 l2 \<Longrightarrow> calm l l2"
  unfolding calm_def by fastforce

lemma waits_calm: "waits l \<Longrightarrow> calm l l' \<Longrightarrow> waits l'"
  unfolding waits_def calm_def waits_ok_def by fastforce

lemma waits_works_on: "waits l \<Longrightarrow> works_on r l l' \<Longrightarrow> waits l'"
  unfolding waits_def works_on_def waits_ok_def by (fastforce split: if_splits)

lemma calm_quiet: "quiet obs l l' \<Longrightarrow> calm l l'"
  using io_only_fields(3-5) [of l l'] by (auto simp: quiet_def calm_def)

section \<open>Establishing and removing streams\<close>

lemma update_fresh: "i \<notin> fst ` set es \<Longrightarrow> AList.update i r es = es @ [(i, r)]"
  by (induction es) auto

lemma stream_ok_new: "stream_ok i (newOutStream i q) m"
  by (simp add: stream_ok_def newOutStream_def emptyReader_def reader_wf_def rbytes_def)

lemma establish_ok:
  assumes "loopy_ok ext l" and "i \<notin> fst ` set (l_estdStreams l)"
  shows "loopy_ok ext (establish i (newOutStream i q) l)"
    and "pend (establish i (newOutStream i q) l) = (pend l)(i \<mapsto> [])"
proof -
  let ?l = "establish i (newOutStream i q) l"
  have old: "r < l_next l" if "(j, r) \<in> set (l_estdStreams l)" for j r using assms(1) that by (auto simp: loopy_ok_def)
  have same: "l_strs ?l r = l_strs l r" if "(j, r) \<in> set (l_estdStreams l)" for j r
    using old [OF that] by (simp add: establish_def)
  have es: "l_estdStreams ?l = l_estdStreams l @ [(i, l_next l)]"
    using assms(2) by (simp add: establish_def update_fresh)
  have new: "l_strs ?l (l_next l) = newOutStream i q" by (simp add: establish_def)
  have flds: "l_mem ?l = l_mem l" "l_activeStreams ?l = l_activeStreams l" "l_next ?l = l_next l + 1"
    by (simp_all add: establish_def)
  have "estd_refs (l_estdStreams l) (l_strs ?l) = estd_refs (l_estdStreams l) (l_strs l)"
    unfolding estd_refs_def by (rule estd_sum_cong) (simp add: same)
  moreover have "stream_refs (newOutStream i q) = {#}"
    by (simp add: stream_refs_def newOutStream_def emptyReader_def)
  ultimately have "estd_refs (l_estdStreams ?l) (l_strs ?l) = estd_refs (l_estdStreams l) (l_strs l)"
    unfolding es estd_refs_simps new by simp
  moreover have "l_next l \<notin> snd ` set (l_estdStreams l)" using old by fastforce
  moreover have "l_next l \<notin> set (l_activeStreams l)" using assms(1) calculation(2) by (auto simp: loopy_ok_def)
  moreover have "os_state (newOutStream i q) = empty_state" by (simp add: newOutStream_def)
  ultimately show "loopy_ok ext ?l"
    using assms same stream_ok_new unfolding loopy_ok_def es flds
    by (auto simp: new less_Suc_eq)
  show "pend ?l = (pend l)(i \<mapsto> [])"
  proof
    fix j
    show "pend ?l j = ((pend l)(i \<mapsto> [])) j"
    proof (cases "j = i")
      case True
      then show ?thesis
        by (simp add: pend_def flds new establish_def update_conv' pending_def newOutStream_def)
    next
      case False
      then show ?thesis using same [of j "the (map_of (l_estdStreams l) j)"]
        by (cases "map_of (l_estdStreams l) j") (auto simp: pend_def establish_def update_conv' dest: map_of_SomeD)
    qed
  qed
qed

lemma pend_changed:
  assumes "loopy_rest r ext l" and est: "(i, r) \<in> set (l_estdStreams l)"
    and "mem_ok m (ext' + rest_refs r l + own)" and "kept (l_mem l) m"
  shows "pend (changed r s m as l) = (pend l)(i \<mapsto> pending s m)"
proof
  fix j
  have look: "map_of (l_estdStreams l) i = Some r" using est estd_lookup [of r ext l] assms(1) by blast
  show "pend (changed r s m as l) j = ((pend l)(i \<mapsto> pending s m)) j"
  proof (cases "map_of (l_estdStreams l) j")
    case None
    then show ?thesis using look by (auto simp: pend_def)
  next
    case (Some q)
    then have q: "(j, q) \<in> set (l_estdStreams l)" by (rule map_of_SomeD)
    show ?thesis
    proof (cases "q = r")
      case True
      then show ?thesis using estd_unique [OF assms(1) est] q Some by (simp add: pend_def)
    next
      case False
      then have "j \<noteq> i" using look Some by auto
      then show ?thesis using others_kept(2) [OF assms(1,3,4) q False] False Some by (simp add: pend_def)
    qed
  qed
qed

lemma change_ok:
  assumes "loopy_ok ext l" and est: "(i, r) \<in> set (l_estdStreams l)"
    and "mem_ok m (ext' + rest_refs r l + stream_refs s)" and "kept (l_mem l) m"
    and "distinct as" and "\<And>q. q \<noteq> r \<Longrightarrow> q \<in> set as \<longleftrightarrow> q \<in> set (l_activeStreams l)"
    and "stream_ok i s m" and "r \<in> set as \<longleftrightarrow> os_state s = active"
  shows "loopy_ok ext' (changed r s m as l)" and "pend (changed r s m as l) = (pend l)(i \<mapsto> pending s m)"
proof -
  note rest = loopy_ok_rest [OF assms(1,2)]
  show "loopy_ok ext' (changed r s m as l)"
    by (rule loopy_rest_ok [OF rest_change [OF rest assms(3,4,5,6)]]) (use assms in auto)
  show "pend (changed r s m as l) = (pend l)(i \<mapsto> pending s m)" by (rule pend_changed [OF rest est assms(3,4)])
qed

lemma delete_filter:
  assumes "loopy_rest q ext l" and "(i, r) \<in> set (l_estdStreams l)"
  shows "AList.delete i (l_estdStreams l) = filter (\<lambda>(j, q). q \<noteq> r) (l_estdStreams l)"
proof -
  have dist: "distinct (map fst (l_estdStreams l))" using assms(1) by (simp add: loopy_rest_def)
  have "i \<noteq> j \<longleftrightarrow> q' \<noteq> r" if "(j, q') \<in> set (l_estdStreams l)" for j q'
    using that assms(2) estd_unique [OF assms, of j] eq_key_imp_eq_value [OF dist, of i q' r] by blast
  then show ?thesis unfolding AList.delete_eq by (intro filter_cong) auto
qed

lemma free_frames_ok:
  "mem_ok m (others + frames_refs ds) \<Longrightarrow> \<exists>m'. free_frames ds m = Some m' \<and> mem_ok m' others \<and> kept m m'"
proof (induction ds arbitrary: m)
  case (Cons d ds)
  show ?case
  proof (cases "df_processing d")
    case True
    then show ?thesis using Cons by (simp add: frame_refs_def)
  next
    case False
    then have "mem_ok m ((others + frames_refs ds) + bs_refs (df_data d))"
      using Cons.prems by (simp add: frame_refs_def ac_simps)
    from bs_Free_ok [OF this] obtain m1
      where m1: "bs_Free (df_data d) m = Some m1" "mem_ok m1 (others + frames_refs ds)" "kept m m1" by blast
    then show ?thesis using Cons.IH [OF m1(2)] False by (auto intro: kept_trans)
  qed
qed auto

text \<open>Removing a stream that is not necessarily in a consistent state.\<close>

definition removed :: "uint32 \<Rightarrow> addr \<Rightarrow> outStream \<Rightarrow> mem \<Rightarrow> 'w loopyWriter \<Rightarrow> 'w loopyWriter" where
  "removed i r s m l = (changed r s m (remove1 r (l_activeStreams l)) l)\<lparr>l_estdStreams := AList.delete i (l_estdStreams l)\<rparr>"

lemma removed_ok:
  assumes "loopy_rest r ext l" and est: "(i, r) \<in> set (l_estdStreams l)"
    and "mem_ok m (ext + rest_refs r l)" and "kept (l_mem l) m"
  shows "loopy_ok ext (removed i r s m l)" and "pend (removed i r s m l) = (pend l)(i := None)"
proof -
  note del = delete_filter [OF assms(1,2)]
  have es: "l_estdStreams (removed i r s m l) = filter (\<lambda>(j, q). q \<noteq> r) (l_estdStreams l)"
    unfolding removed_def by (simp add: del)
  have fld: "l_mem (removed i r s m l) = m" "l_activeStreams (removed i r s m l) = remove1 r (l_activeStreams l)"
    "l_next (removed i r s m l) = l_next l" "l_strs (removed i r s m l) = (l_strs l)(r := s)"
    by (simp_all add: removed_def)
  have mem: "mem_ok m (ext + rest_refs r l + {#})" using assms(3) by simp
  have "estd_refs (l_estdStreams (removed i r s m l)) (l_strs (removed i r s m l)) = rest_refs r l"
    unfolding es fld rest_refs_def estd_refs_def by (rule estd_sum_cong) auto
  moreover have "q \<in> set (remove1 r (l_activeStreams l)) \<longleftrightarrow>
    q \<in> snd ` set (filter (\<lambda>(j, q). q \<noteq> r) (l_estdStreams l)) \<and> os_state (((l_strs l)(r := s)) q) = active" for q
  proof (cases "q = r")
    case False
    then have "q \<in> snd ` set (filter (\<lambda>(j, q). q \<noteq> r) (l_estdStreams l)) \<longleftrightarrow> q \<in> snd ` set (l_estdStreams l)"
      by force
    then show ?thesis using False assms(1) by (simp add: loopy_rest_def)
  qed (use assms(1) in \<open>auto simp: loopy_rest_def\<close>)
  moreover have "\<forall>(j, q) \<in> set (filter (\<lambda>(j, q). q \<noteq> r) (l_estdStreams l)).
    stream_ok j (((l_strs l)(r := s)) q) m \<and> q < l_next l"
    using others_kept(1) [OF assms(1) mem assms(4)] assms(1) by (auto simp: loopy_rest_def)
  moreover have "distinct (map fst (filter (\<lambda>(j, q). q \<noteq> r) (l_estdStreams l)))"
    "distinct (map snd (filter (\<lambda>(j, q). q \<noteq> r) (l_estdStreams l)))" "distinct (l_activeStreams l)"
    using assms(1) by (simp_all add: loopy_rest_def distinct_map_filter)
  ultimately show "loopy_ok ext (removed i r s m l)"
    using assms(3) unfolding loopy_ok_def es fld by simp blast
  show "pend (removed i r s m l) = (pend l)(i := None)"
  proof
    fix j
    have "pend (removed i r s m l) j = (if j = i then None else pend (changed r s m [] l) j)"
      by (simp add: pend_def removed_def AList.delete_conv')
    then show "pend (removed i r s m l) j = ((pend l)(i := None)) j"
      using fun_cong [OF pend_changed [OF assms(1,2) mem assms(4), of s "[]"], of j] by simp
  qed
qed

lemma remove_stream_ok:
  assumes "loopy_rest r ext l" and est: "(i, r) \<in> set (l_estdStreams l)"
    and "reader_wf (os_reader (l_strs l r)) (l_mem l)"
  shows "\<exists>s m. remove_stream i l = Some (removed i r s m l) \<and> mem_ok m (ext + rest_refs r l) \<and> kept (l_mem l) m"
proof -
  let ?s = "l_strs l r"
  let ?o = "ext + rest_refs r l"
  have "mem_ok (l_mem l) ((?o + frames_refs (os_data ?s)) + bs_refs (rdata (os_reader ?s)))"
    using assms(1) by (simp add: loopy_rest_def stream_refs_def ac_simps)
  then have "reader_ok (?o + frames_refs (os_data ?s)) (os_reader ?s) (l_mem l)"
    using assms(3) by (simp add: reader_ok_iff)
  from Close_ok [OF this] obtain rd m1 where cl: "Close (os_reader ?s) (l_mem l) = Some (rd, m1)"
    "mem_ok m1 (?o + frames_refs (os_data ?s))" "kept (l_mem l) m1" by blast
  from free_frames_ok [OF cl(2)] obtain m2 where fr: "free_frames (os_data ?s) m1 = Some m2" "mem_ok m2 ?o" "kept m1 m2"
    by blast
  have "remove_stream i l = Some (removed i r (?s\<lparr>os_reader := rd, os_data := [], os_trailer := None\<rparr>) m2 l)"
    using est estd_lookup [of r ext l i r] assms(1) cl(1) fr(1)
    by (simp add: remove_stream_def removed_def changed_def upd_str_def)
  then show ?thesis using fr(2) kept_trans [OF cl(3) fr(3)] by blast
qed

end
