(* ===== verification/Loopy_Handlers.thy ===== *)
theory Loopy_Handlers
  imports Loopy_Streams
begin

text \<open>
  The handlers of the loopy writer: under what its producers guarantee of an item, every handler
  returns, keeps the invariant and writes no DATA frame; only data frames add to what a stream has
  to send.
\<close>

section \<open>Handlers\<close>

text \<open>
  What producers guarantee of an item: fresh stream identifiers, the callbacks the writer calls
  unconditionally, trailers with their cleanup, and references to the buffers of a data frame.
\<close>

fun fits :: "uint32 set \<Rightarrow> addr multiset \<Rightarrow> cbItem \<Rightarrow> bool" where
  "fits used held (RegisterStream h) = (rs_streamID h \<notin> used)"
| "fits used held (ClientHeaders h) = (ch_streamID h \<notin> used \<and> ch_initStream h \<noteq> None \<and> ch_onOrphaned h \<noteq> None)"
| "fits used held (ServerHeaders h) = trailers_legal h"
| "fits used held (CleanupStream c) = (cs_onWrite c \<noteq> None)"
| "fits used held (DataFrame d) = (bs_refs (df_data d) \<subseteq># held \<and> list_all bwf (df_data d) \<and> \<not> df_processing d)"
| "fits used held _ = True"

fun new_ids :: "cbItem \<Rightarrow> uint32 set" where
  "new_ids (RegisterStream h) = {rs_streamID h}"
| "new_ids (ClientHeaders h) = {ch_streamID h}"
| "new_ids _ = {}"

text \<open>The connection window an item grants, and the references and bytes it adds to the streams.\<close>

fun grant :: "cbItem \<Rightarrow> uint32" where
  "grant (IncomingWindowUpdate i n) = (if i = 0 then n else 0)"
| "grant _ = 0"

fun taken :: "cbItem \<Rightarrow> 'w loopyWriter \<Rightarrow> addr multiset" where
  "taken (DataFrame d) l = (if pend l (df_streamID d) = None then {#} else bs_refs (df_data d))"
| "taken _ l = {#}"

fun added :: "cbItem \<Rightarrow> mem \<Rightarrow> uint32 \<Rightarrow> byte list" where
  "added (DataFrame d) m i = (if i = df_streamID d then frame_bytes m d else [])"
| "added _ m i = []"

definition handled :: "('w \<Rightarrow> frame list) \<Rightarrow> cbItem \<Rightarrow> addr multiset \<Rightarrow> 'w loopyWriter \<Rightarrow> 'w loopyWriter \<Rightarrow> bool" where
  "handled obs it held l l' \<longleftrightarrow>
     loopy_ok (held - taken it l) l' \<and> obs (l_framer l') = obs (l_framer l) \<and>
     l_sendQuota l' = l_sendQuota l + grant it \<and>
     (\<forall>j b'. pend l' j = Some b' \<longrightarrow>
        (\<exists>b. pend l j = Some b \<and> b' = b @ added it (l_mem l) j) \<or> pend l j = None \<and> j \<in> new_ids it \<and> b' = [])"

lemma pend_at:
  assumes "loopy_ok held l" and "(i, r) \<in> set (l_estdStreams l)"
  shows "pend l i = Some (pending (l_strs l r) (l_mem l))"
  using assms estd_lookup [of r held l i r] by (simp add: pend_def)

lemma pending_flags [simp]:
  "pending (s\<lparr>os_bytesOutStanding := n\<rparr>) m = pending s m" "pending (s\<lparr>os_state := st\<rparr>) m = pending s m"
  "pending (s\<lparr>os_trailer := t\<rparr>) m = pending s m"
  by (cases "os_data s"; simp add: pending_def)+

lemma pend_None: "pend l i = None \<longleftrightarrow> map_of (l_estdStreams l) i = None"
  by (simp add: pend_def)

lemma tweak_ok:
  assumes "loopy_ok held l" and est: "(i, r) \<in> set (l_estdStreams l)"
    and "st = empty_state \<longleftrightarrow> os_state (l_strs l r) = empty_state" and "r \<in> set as \<longleftrightarrow> st = active"
    and "distinct as" and "\<And>q. q \<noteq> r \<Longrightarrow> q \<in> set as \<longleftrightarrow> q \<in> set (l_activeStreams l)"
  shows "loopy_ok held (changed r ((l_strs l r)\<lparr>os_bytesOutStanding := n, os_state := st\<rparr>) (l_mem l) as l)"
    and "pend (changed r ((l_strs l r)\<lparr>os_bytesOutStanding := n, os_state := st\<rparr>) (l_mem l) as l) = pend l"
proof -
  let ?s = "(l_strs l r)\<lparr>os_bytesOutStanding := n, os_state := st\<rparr>"
  have mem: "mem_ok (l_mem l) (held + rest_refs r l + stream_refs ?s)"
    using loopy_ok_rest [OF assms(1,2)] by (simp add: loopy_rest_def stream_refs_def)
  have ok: "stream_ok i ?s (l_mem l)" using loopy_stream(1) [OF assms(1,2)] assms(3) by (simp add: stream_ok_def) blast
  note ch = change_ok [OF assms(1,2) mem kept_refl assms(5,6) ok]
  show "loopy_ok held (changed r ?s (l_mem l) as l)" by (rule ch(1)) (use assms(4) in simp_all)
  have "pend (changed r ?s (l_mem l) as l) = (pend l)(i \<mapsto> pending ?s (l_mem l))"
    by (rule ch(2)) (use assms(4) in simp_all)
  then show "pend (changed r ?s (l_mem l) as l) = pend l" using pend_at [OF assms(1,2)] by (simp add: fun_upd_idem)
qed

lemma active_iff:
  assumes "loopy_ok held l" and "(i, r) \<in> set (l_estdStreams l)"
  shows "r \<in> set (l_activeStreams l) \<longleftrightarrow> os_state (l_strs l r) = active"
proof -
  have "r \<in> snd ` set (l_estdStreams l)" using assms(2) by force
  then show ?thesis using assms(1) by (simp add: loopy_ok_def)
qed

lemma loopy_distinct: "loopy_ok held l \<Longrightarrow> distinct (l_activeStreams l)"
  by (simp add: loopy_ok_def)

lemma activate_ok:
  assumes "loopy_ok held l" and "(i, r) \<in> set (l_estdStreams l)" and "os_state (l_strs l r) = waitingOnStreamQuota"
  shows "loopy_ok held (activate r l)" and "pend (activate r l) = pend l"
proof -
  have eq: "activate r l = changed r ((l_strs l r)\<lparr>os_bytesOutStanding := os_bytesOutStanding (l_strs l r), os_state := active\<rparr>)
      (l_mem l) (l_activeStreams l @ [r]) l"
    by (simp add: activate_def upd_str_def changed_def)
  have "r \<notin> set (l_activeStreams l)" using active_iff [OF assms(1,2)] assms(3) by simp
  then have as: "distinct (l_activeStreams l @ [r])" using loopy_distinct [OF assms(1)] by simp
  note tw = tweak_ok [OF assms(1,2) _ _ as]
  show "loopy_ok held (activate r l)" unfolding eq by (rule tw(1)) (use assms(3) in simp_all)
  show "pend (activate r l) = pend l" unfolding eq by (rule tw(2)) (use assms(3) in simp_all)
qed

lemma activate_fields [simp]:
  "l_estdStreams (activate r l) = l_estdStreams l" "l_framer (activate r l) = l_framer l"
  "l_sendQuota (activate r l) = l_sendQuota l" "l_oiws (activate r l) = l_oiws l"
  by (simp_all add: activate_def upd_str_def)

lemma window_update_ok:
  assumes "loopy_ok held l"
  shows "loopy_ok held (incomingWindowUpdateHandler i n l)" and "pend (incomingWindowUpdateHandler i n l) = pend l"
    and "l_framer (incomingWindowUpdateHandler i n l) = l_framer l"
    and "l_sendQuota (incomingWindowUpdateHandler i n l) = l_sendQuota l + (if i = 0 then n else 0)"
proof -
  let ?l = "incomingWindowUpdateHandler i n l"
  have "loopy_ok held ?l \<and> pend ?l = pend l \<and> l_framer ?l = l_framer l \<and>
    l_sendQuota ?l = l_sendQuota l + (if i = 0 then n else 0)"
  proof (cases "i = 0 \<or> map_of (l_estdStreams l) i = None")
    case True
    then show ?thesis using assms by (auto simp: incomingWindowUpdateHandler_def pend_def fun_eq_iff)
  next
    case False
    then obtain r where i: "i \<noteq> 0" and r: "map_of (l_estdStreams l) i = Some r" by auto
    then have est: "(i, r) \<in> set (l_estdStreams l)" by (simp add: map_of_SomeD)
    define l1 where "l1 = changed r ((l_strs l r)\<lparr>os_bytesOutStanding := os_bytesOutStanding (l_strs l r) - int (unat n),
        os_state := os_state (l_strs l r)\<rparr>) (l_mem l) (l_activeStreams l) l"
    have l1: "loopy_ok held l1" "pend l1 = pend l" unfolding l1_def
      by (rule tweak_ok [OF assms est refl active_iff [OF assms est] loopy_distinct [OF assms]]; simp)+
    have "l1 = upd_str r (\<lambda>s. s\<lparr>os_bytesOutStanding := os_bytesOutStanding s - int (unat n)\<rparr>) l"
      by (simp add: l1_def upd_str_def changed_def)
    then have "?l = (if 0 < int (unat (l_oiws l1)) - os_bytesOutStanding (l_strs l1 r) \<and>
        os_state (l_strs l1 r) = waitingOnStreamQuota then activate r l1 else l1)"
      using i r by (simp add: incomingWindowUpdateHandler_def Let_def)
    moreover have "(i, r) \<in> set (l_estdStreams l1)" "l_framer l1 = l_framer l" "l_sendQuota l1 = l_sendQuota l"
      using est by (simp_all add: l1_def)
    ultimately show ?thesis using l1 activate_ok [OF l1(1)] i by simp
  qed
  then show "loopy_ok held ?l" "pend ?l = pend l" "l_framer ?l = l_framer l"
    "l_sendQuota ?l = l_sendQuota l + (if i = 0 then n else 0)" by simp_all
qed

text \<open>The iteration over a map visits every entry once.\<close>

definition map_order :: "'w loopy_env \<Rightarrow> bool" where
  "map_order E \<longleftrightarrow> (\<forall>es. mset (e_order E es) = mset es)"

lemma reactivate_ok:
  assumes "loopy_ok held l" and "set es \<subseteq> set (l_estdStreams l)"
  shows "loopy_ok held (reactivate es l) \<and> pend (reactivate es l) = pend l \<and>
    l_framer (reactivate es l) = l_framer l \<and> l_sendQuota (reactivate es l) = l_sendQuota l"
  using assms
proof (induction es arbitrary: l)
  case (Cons e es)
  obtain i r where e: "e = (i, r)" by (cases e)
  then have "(i, r) \<in> set (l_estdStreams l)" using Cons.prems(2) by simp
  then show ?case using Cons e activate_ok [OF Cons.prems(1), of i r] by simp
qed simp

lemma applySettings_ok:
  assumes "loopy_ok held l" and "map_order E"
  shows "loopy_ok held (applySettings E ss l) \<and> pend (applySettings E ss l) = pend l \<and>
    l_framer (applySettings E ss l) = l_framer l \<and> l_sendQuota (applySettings E ss l) = l_sendQuota l"
  using assms(1)
proof (induction ss arbitrary: l)
  case (Cons s ss)
  have order: "set (e_order E es) = set es" for es
    using assms(2) by (intro mset_eq_setD) (simp add: map_order_def)
  have flags: "pend (l\<lparr>l_oiws := n\<rparr>) = pend l" "pend (l\<lparr>l_hEnc := h\<rparr>) = pend l" for n h
    by (simp_all add: pend_def fun_eq_iff)
  have "loopy_ok held (applySetting E s l) \<and> pend (applySetting E s l) = pend l \<and>
    l_framer (applySetting E s l) = l_framer l \<and> l_sendQuota (applySetting E s l) = l_sendQuota l"
    using reactivate_ok [of held "l\<lparr>l_oiws := set_Val s\<rparr>" "e_order E (l_estdStreams l)"] Cons.prems
    by (simp add: applySetting_def Let_def order flags)
  then show ?case using Cons.IH [of "applySetting E s l"] by simp
qed simp

lemma preprocess_ok:
  assumes "loopy_ok held l" and "fits used held (DataFrame d)"
  shows "handled obs (DataFrame d) held l (preprocessData d l)"
proof (cases "map_of (l_estdStreams l) (df_streamID d)")
  case None
  then show ?thesis using assms(1) by (simp add: handled_def preprocessData_def pend_None) (auto simp: pend_def)
next
  case (Some r)
  let ?i = "df_streamID d" and ?s = "l_strs l r"
  have est: "(?i, r) \<in> set (l_estdStreams l)" using Some by (rule map_of_SomeD)
  define st as where "st = (if os_state ?s = empty_state then active else os_state ?s)"
    and "as = (if os_state ?s = empty_state then l_activeStreams l @ [r] else l_activeStreams l)"
  let ?s' = "?s\<lparr>os_data := os_data ?s @ [d], os_state := st\<rparr>"
  have eq: "preprocessData d l = changed r ?s' (l_mem l) as l"
    using Some by (simp add: preprocessData_def upd_str_def activate_def changed_def st_def as_def)
  have ok: "stream_ok ?i ?s (l_mem l)" using loopy_stream(1) [OF assms(1) est] .
  have sub: "bs_refs (df_data d) \<subseteq># held" and d: "\<not> df_processing d" "list_all bwf (df_data d)"
    using assms(2) by simp_all
  have held: "held = (held - bs_refs (df_data d)) + bs_refs (df_data d)" using sub by simp
  have "mem_ok (l_mem l) (held + rest_refs r l + stream_refs ?s)"
    using loopy_ok_rest [OF assms(1) est] by (simp add: loopy_rest_def)
  then have "mem_ok (l_mem l) ((held - bs_refs (df_data d)) + rest_refs r l + stream_refs ?s')"
    by (subst (asm) held) (simp add: stream_refs_def frame_refs_def d(1) ac_simps)
  moreover have "stream_ok ?i ?s' (l_mem l)"
    using ok d by (cases "os_data ?s") (auto simp: stream_ok_def st_def)
  moreover have "distinct as" "r \<in> set as \<longleftrightarrow> os_state ?s' = active" "\<And>q. q \<noteq> r \<Longrightarrow> q \<in> set as \<longleftrightarrow> q \<in> set (l_activeStreams l)"
    using loopy_distinct [OF assms(1)] active_iff [OF assms(1) est] by (auto simp: as_def st_def)
  moreover have "pending ?s' (l_mem l) = pending ?s (l_mem l) @ frame_bytes (l_mem l) d"
    using d(1) by (cases "os_data ?s") (simp_all add: pending_def frame_bytes_def)
  ultimately show ?thesis
    using change_ok [OF assms(1) est _ kept_refl, of "held - bs_refs (df_data d)" ?s' as] pend_at [OF assms(1) est]
    unfolding eq by (simp add: handled_def)
qed

context data_framer
begin

lemma remove_rst:
  assumes "cs_onWrite c = Some cb" and "remove_stream (cs_streamID c) (ev (EvOnWrite cb) l) = Some l1"
  shows "\<exists>err l'. cleanupStreamHandler E c l = Some (err, l') \<and> quiet obs l1 l'"
proof -
  obtain err l2 where w: "fr_write E (FrRST (cs_streamID c) (cs_rstCode c)) l1 = (err, l2)" by fastforce
  then have "quiet obs l1 l2" by (rule quiet_write) simp
  then show ?thesis using assms w by (simp add: cleanupStreamHandler_def)
qed

lemma quiet_removed_ev: "quiet obs (removed i r s m l) (removed i r s m (ev e l))"
  by (simp add: quiet_def io_only_def removed_def changed_def ev_def)

lemma cleanup_rest_ok:
  assumes "cs_onWrite c = Some cb" and "loopy_rest r held l" and "(cs_streamID c, r) \<in> set (l_estdStreams l)"
    and "reader_wf (os_reader (l_strs l r)) (l_mem l)"
  shows "\<exists>err l' s m. cleanupStreamHandler E c l = Some (err, l') \<and> quiet obs (removed (cs_streamID c) r s m l) l' \<and>
    mem_ok m (held + rest_refs r l) \<and> kept (l_mem l) m"
proof -
  let ?l = "ev (EvOnWrite cb) l"
  note q = io_only_fields [OF io_only_ev [of l "EvOnWrite cb"]]
  obtain s m where rm: "remove_stream (cs_streamID c) ?l = Some (removed (cs_streamID c) r s m ?l)"
    "mem_ok m (held + rest_refs r ?l)" "kept (l_mem ?l) m"
    using remove_stream_ok [of r held ?l "cs_streamID c"] assms(2-4) by (auto simp: q)
  obtain err l' where cl: "cleanupStreamHandler E c l = Some (err, l')" "quiet obs (removed (cs_streamID c) r s m ?l) l'"
    using remove_rst [OF assms(1) rm(1)] by blast
  from quiet_trans [OF quiet_removed_ev cl(2)] show ?thesis using cl(1) rm(2,3) by (auto simp: q)
qed

lemma quiet_removed:
  assumes "quiet obs (removed i r s m l) l'" and "loopy_rest r held l" and "(i, r) \<in> set (l_estdStreams l)"
    and "mem_ok m (held + rest_refs r l)" and "kept (l_mem l) m"
  shows "loopy_ok held l'" and "pend l' = (pend l)(i := None)" and "obs (l_framer l') = obs (l_framer l)"
    and "l_sendQuota l' = l_sendQuota l" and "l_activeStreams l' = remove1 r (l_activeStreams l)"
proof -
  note rm = removed_ok [OF assms(2-5), of s]
  have q: "io_only (removed i r s m l) l'" "obs (l_framer l') = obs (l_framer (removed i r s m l))"
    using assms(1) by (simp_all add: quiet_def)
  note f = io_only_fields [OF q(1)]
  show "loopy_ok held l'" using rm(1) by (simp add: f)
  show "pend l' = (pend l)(i := None)" using quiet_pend [OF assms(1)] rm(2) by simp
  show "obs (l_framer l') = obs (l_framer l)" using q(2) by (simp add: removed_def)
  show "l_sendQuota l' = l_sendQuota l" by (simp add: f removed_def)
  show "l_activeStreams l' = remove1 r (l_activeStreams l)" by (simp add: f removed_def)
qed

lemma cleanup_ok:
  assumes "loopy_ok held l" and "cs_onWrite c \<noteq> None"
  shows "\<exists>err l'. cleanupStreamHandler E c l = Some (err, l') \<and> loopy_ok held l' \<and>
    pend l' = (pend l)(cs_streamID c := None) \<and> obs (l_framer l') = obs (l_framer l) \<and> l_sendQuota l' = l_sendQuota l"
proof -
  obtain cb where cb: "cs_onWrite c = Some cb" using assms(2) by blast
  show ?thesis
  proof (cases "map_of (l_estdStreams l) (cs_streamID c)")
    case None
    then have "remove_stream (cs_streamID c) (ev (EvOnWrite cb) l) = Some (ev (EvOnWrite cb) l)"
      by (simp add: remove_stream_def ev_def)
    from remove_rst [OF cb this] obtain err l' where l': "cleanupStreamHandler E c l = Some (err, l')" "quiet obs l l'"
      using quiet_trans [OF quiet_ev] by blast
    moreover have "(pend l)(cs_streamID c := None) = pend l" using None by (simp add: fun_upd_idem pend_None)
    ultimately show ?thesis
      using assms(1) quiet_pend [OF l'(2)] io_only_fields [of l l'] by (auto simp: quiet_def)
  next
    case (Some r)
    then have est: "(cs_streamID c, r) \<in> set (l_estdStreams l)" by (rule map_of_SomeD)
    have "reader_wf (os_reader (l_strs l r)) (l_mem l)"
      using loopy_stream(1) [OF assms(1) est] by (simp add: stream_ok_def)
    note rest = loopy_ok_rest [OF assms(1) est]
    obtain err l' s m where "cleanupStreamHandler E c l = Some (err, l')"
      and rm: "quiet obs (removed (cs_streamID c) r s m l) l'" "mem_ok m (held + rest_refs r l)" "kept (l_mem l) m"
      using cleanup_rest_ok [OF cb rest est \<open>reader_wf _ _\<close>] by blast
    then show ?thesis using quiet_removed [OF rm(1) rest est rm(2,3)] by blast
  qed
qed

lemma handled_quiet:
  assumes "loopy_ok held l" and "quiet obs l l'" and "grant it = 0" and "taken it l = {#}" and "\<And>m j. added it m j = []"
  shows "handled obs it held l l'"
  using assms quiet_pend [OF assms(2)] io_only_fields [of l l'] by (simp add: handled_def quiet_def)

lemma handled_cleanup:
  assumes "cleanupStreamHandler E c l1 = Some (err, l')" and "cs_onWrite c \<noteq> None" and "loopy_ok held l"
    and "quiet obs l l1" and "grant it = 0" and "taken it l = {#}" and "\<And>m j. added it m j = []"
  shows "handled obs it held l l'"
proof -
  have "loopy_ok held l1" "pend l1 = pend l" "l_sendQuota l1 = l_sendQuota l" "obs (l_framer l1) = obs (l_framer l)"
    using assms(3,4) io_only_fields [of l l1] quiet_pend [OF assms(4)] by (simp_all add: quiet_def)
  then show ?thesis using cleanup_ok [of held l1 c] assms(1,2,5-7) by (auto simp: handled_def)
qed

lemma server_headers_ok:
  assumes "loopy_ok held l" and "trailers_legal h"
  shows "\<exists>err l'. serverHeaderHandler E h l = Some (err, l') \<and> (err = None \<longrightarrow> handled obs (ServerHeaders h) held l l')"
proof (cases "map_of (l_estdStreams l) (sh_streamID h)")
  case None
  then show ?thesis using assms(1) handled_quiet [of held l l "ServerHeaders h"] by (simp add: serverHeaderHandler_def)
next
  case (Some r)
  then have est: "(sh_streamID h, r) \<in> set (l_estdStreams l)" by (rule map_of_SomeD)
  obtain err l1 where w: "writeHeader E (sh_streamID h) (sh_endStream h) (sh_hf h) (sh_onWrite h) l = (err, l1)" by fastforce
  note q = quiet_writeHeader [OF w]
  consider "\<not> sh_endStream h" | "sh_endStream h" "os_state (l_strs l r) \<noteq> empty_state"
    | "sh_endStream h" "os_state (l_strs l r) = empty_state" by blast
  then show ?thesis
  proof cases
    case 1
    then show ?thesis using Some w assms(1) handled_quiet [OF assms(1) q, of "ServerHeaders h"]
      by (simp add: serverHeaderHandler_def)
  next
    case 2
    let ?s = "(l_strs l r)\<lparr>os_trailer := Some h\<rparr>"
    have "mem_ok (l_mem l) (held + rest_refs r l + stream_refs ?s)"
      using loopy_ok_rest [OF assms(1) est] by (simp add: loopy_rest_def stream_refs_def)
    moreover have "stream_ok (sh_streamID h) ?s (l_mem l)"
      using loopy_stream(1) [OF assms(1) est] 2 assms(2) by (simp add: stream_ok_def)
    ultimately have "loopy_ok held (changed r ?s (l_mem l) (l_activeStreams l) l)"
      "pend (changed r ?s (l_mem l) (l_activeStreams l) l) = pend l"
      using change_ok [OF assms(1) est _ kept_refl loopy_distinct [OF assms(1)], of held ?s] pend_at [OF assms(1) est]
        active_iff [OF assms(1) est] by (simp_all add: fun_upd_idem)
    moreover have "serverHeaderHandler E h l = Some (None, changed r ?s (l_mem l) (l_activeStreams l) l)"
      using Some 2 by (simp add: serverHeaderHandler_def upd_str_def changed_def)
    ultimately show ?thesis by (simp add: handled_def)
  next
    case 3
    then obtain c where c: "sh_cleanup h = Some c" "cs_onWrite c \<noteq> None" using assms(2) by (auto simp: trailers_legal_def)
    have "loopy_ok held l1" using assms(1) q io_only_fields [of l l1] by (simp add: quiet_def)
    from cleanup_ok [OF this c(2)] obtain err2 l2 where cl: "cleanupStreamHandler E c l1 = Some (err2, l2)" by blast
    show ?thesis using Some 3 w c cl handled_cleanup [OF cl c(2) assms(1) q, of "ServerHeaders h"]
      by (cases err) (simp_all add: serverHeaderHandler_def)
  qed
qed

lemma client_headers_ok:
  assumes "loopy_ok held l" and "fits used held (ClientHeaders h)" and "fst ` set (l_estdStreams l) \<subseteq> used"
  shows "\<exists>err l'. clientHeaderHandler E h l = Some (err, l') \<and> (err = None \<longrightarrow> handled obs (ClientHeaders h) held l l')"
proof -
  let ?i = "ch_streamID h"
  obtain cb cb' where cb: "ch_initStream h = Some cb" "ch_onOrphaned h = Some cb'" using assms(2) by auto
  let ?l = "ev (EvInitStream cb ?i) l"
  obtain err l1 where w: "writeHeader E ?i False (ch_hf h) (ch_onWrite h) ?l = (err, l1)" by fastforce
  have q: "quiet obs l l1" using quiet_trans [OF quiet_ev quiet_writeHeader [OF w]] .
  have l1: "loopy_ok held l1" "l_estdStreams l1 = l_estdStreams l" "pend l1 = pend l"
    "obs (l_framer l1) = obs (l_framer l)" "l_sendQuota l1 = l_sendQuota l"
    using q assms(1) io_only_fields [of l l1] quiet_pend [OF q] by (simp_all add: quiet_def)
  have fresh: "?i \<notin> fst ` set (l_estdStreams l1)" using assms(2,3) l1(2) by auto
  then have "pend l ?i = None" unfolding l1(3) [symmetric] pend_None by (simp add: map_of_eq_None_iff)
  then have "handled obs (ClientHeaders h) held l (establish ?i (newOutStream ?i (ch_wq h)) l1)"
    using establish_ok [OF l1(1) fresh, of "ch_wq h"] l1 by (simp add: handled_def) (simp add: establish_def)
  moreover have "handled obs (ClientHeaders h) held l (ev (EvOnOrphaned cb' errStreamDrain) l)"
    using assms(1) by (intro handled_quiet) simp_all
  ultimately show ?thesis using cb w by (auto simp: clientHeaderHandler_def Let_def)
qed

lemma early_abort_ok:
  assumes "loopy_ok held l"
  shows "\<exists>err l'. earlyAbortStreamHandler E a l = Some (err, l') \<and> handled obs (EarlyAbortStream a) held l l'"
proof -
  obtain err l1 where w: "writeHeader E (eas_streamID a) True (eas_hf a) None l = (err, l1)" by fastforce
  obtain err2 l2 where r: "fr_write E (FrRST (eas_streamID a) 0) l1 = (err2, l2)" by fastforce
  note q1 = quiet_writeHeader [OF w]
  have q2: "quiet obs l l2" using quiet_trans [OF q1 quiet_write [OF r]] by simp
  have "handled obs (EarlyAbortStream a) held l x" if "x \<in> {l, l1, l2}" for x
    using that q1 q2 assms by (auto intro!: handled_quiet)
  then show ?thesis using w r by (auto simp: earlyAbortStreamHandler_def)
qed

lemma go_away_ok:
  assumes "loopy_ok held l"
  shows "\<exists>err l'. goAwayHandler E g l = Some (err, l') \<and> handled obs (GoAway g) held l l'"
proof (cases "e_ssGoAway E")
  case None
  then show ?thesis using assms handled_quiet [of held l l "GoAway g"] by (simp add: goAwayHandler_def)
next
  case (Some h)
  obtain b err w where w: "h g (l_framer l) = (b, err, w)" by (cases "h g (l_framer l)")
  then have "obs w = obs (l_framer l)" using obs_goAway [OF Some] by blast
  then have "handled obs (GoAway g) held l (l\<lparr>l_framer := w\<rparr>)"
    "handled obs (GoAway g) held l (l\<lparr>l_framer := w, l_draining := b\<rparr>)"
    using assms by (simp_all add: handled_def pend_def)
  then show ?thesis using Some w by (cases err) (simp_all add: goAwayHandler_def Let_def)
qed

lemma write_ok:
  assumes "loopy_ok held l" and "\<not> is_data f" and "quiet obs l l1"
    and "grant it = 0" and "taken it l = {#}" and "\<And>m j. added it m j = []"
  shows "\<exists>err l'. fr_write E f l1 = (err, l') \<and> handled obs it held l l'"
proof -
  obtain err l' where w: "fr_write E f l1 = (err, l')" by fastforce
  then show ?thesis using handled_quiet [OF assms(1) quiet_trans [OF assms(3) quiet_write [OF w assms(2)]] assms(4-6)]
    by blast
qed

lemma settings_ok:
  assumes "loopy_ok held l" and "map_order E"
  shows "\<exists>err l'. incomingSettingsHandler E ss l = Some (err, l') \<and> handled obs (IncomingSettings ss) held l l'"
proof -
  note ap = applySettings_ok [OF assms, of ss]
  obtain err l' where w: "fr_write E FrSettingsAck (applySettings E ss l) = (err, l')" by fastforce
  have q: "quiet obs (applySettings E ss l) l'" using quiet_write [OF w] by simp
  have "loopy_ok held l'" "pend l' = pend l" "l_sendQuota l' = l_sendQuota l" "obs (l_framer l') = obs (l_framer l)"
    using ap q quiet_pend [OF q] io_only_fields [of "applySettings E ss l" l'] by (simp_all add: quiet_def)
  then show ?thesis using w by (simp add: incomingSettingsHandler_def handled_def)
qed

lemma handle_ok:
  assumes "loopy_ok held l" and "map_order E" and "fits used held it" and "fst ` set (l_estdStreams l) \<subseteq> used"
  shows "\<exists>err l'. handle E it l = Some (err, l') \<and> (err = None \<longrightarrow> handled obs it held l l')"
proof (cases it)
  case (IncomingWindowUpdate i n)
  then show ?thesis using window_update_ok [OF assms(1), of i n] by (simp add: handled_def)
next
  case (OutgoingWindowUpdate i n)
  then show ?thesis using write_ok [OF assms(1) _ quiet_refl, of "FrWindowUpdate i n" it]
    by (auto simp: outgoingWindowUpdateHandler_def)
next
  case (IncomingSettings ss)
  then show ?thesis using settings_ok [OF assms(1,2), of ss] by auto
next
  case (OutgoingSettings ss)
  then show ?thesis using write_ok [OF assms(1) _ quiet_refl, of "FrSettings ss" it]
    by (auto simp: outgoingSettingsHandler_def)
next
  case (RegisterStream h)
  then have "rs_streamID h \<notin> fst ` set (l_estdStreams l)" using assms(3,4) by auto
  then show ?thesis using RegisterStream establish_ok [OF assms(1), of "rs_streamID h" "rs_wq h"]
    by (simp add: handled_def registerStreamHandler_def) (simp add: establish_def pend_None map_of_eq_None_iff)
next
  case (CleanupStream c)
  then show ?thesis using cleanup_ok [OF assms(1), of c] assms(3) handled_cleanup [OF _ _ assms(1) quiet_refl, of c _ _ it]
    by fastforce
next
  case (Ping ack d)
  have "quiet obs l (if \<not> ack then ev (EvTimesnap d) l else l)" by simp
  from write_ok [OF assms(1) _ this, of "FrPing ack d" it] show ?thesis
    using Ping by (cases ack) (auto simp: pingHandler_def)
next
  case IncomingGoAway
  then show ?thesis using assms(1) by (simp add: incomingGoAwayHandler_def handled_def pend_def)
next
  case (OutFlowControlSizeRequest cb)
  then show ?thesis using handled_quiet [OF assms(1) quiet_ev, where it = it] by (simp add: outFlowControlSizeRequestHandler_def)
next
  case (OutStreamRequestForTesting i cb)
  then show ?thesis using handled_quiet [OF assms(1) quiet_ev, where it = it] by (simp add: outStreamRequestHandler_def)
next
  case (ServerHeaders h)
  then show ?thesis using server_headers_ok [OF assms(1)] assms(3) by simp
next
  case (ClientHeaders h)
  then show ?thesis using client_headers_ok [OF assms(1) _ assms(4)] assms(3) by simp
next
  case (EarlyAbortStream a)
  then show ?thesis using early_abort_ok [OF assms(1), of a] by auto
next
  case (GoAway g)
  then show ?thesis using go_away_ok [OF assms(1), of g] by auto
next
  case (DataFrame d)
  then show ?thesis using preprocess_ok [OF assms(1)] assms(3) by simp
qed simp_all

end

end
