(* ===== verification/Loopy_Data.thy ===== *)
theory Loopy_Data
  imports Loopy_Handlers
begin

text \<open>
  Writing data: one call of \<open>processData\<close> takes the next active stream in turn and writes one DATA
  frame within both flow-control windows, and the loop of calls ends.
\<close>

section \<open>One item of a stream\<close>

lemma bs_Ref_kept: "bs_Ref s m = Some m' \<Longrightarrow> kept m m'"
proof (induction s arbitrary: m)
  case (Cons b s)
  then obtain m1 where m1: "Ref b m = Some m1" "bs_Ref s m1 = Some m'" by (auto simp: bind_eq_Some_conv)
  have "kept m m1" using m1(1) by (cases b) (auto simp: kept_def buf_Ref_def Let_def split: if_splits)
  then show ?case using Cons.IH [OF m1(2)] by (rule kept_trans)
qed simp

definition item_bytes :: "outStream \<Rightarrow> dataFrame \<Rightarrow> mem \<Rightarrow> byte list" where
  "item_bytes s d m = df_h d @ (if df_processing d then rbytes (os_reader s) m else bs_bytes (df_data d) m)"

lemma start_item_ok:
  assumes "stream_ok i s m" and "os_data s = d # ds" and "mem_ok m (others + stream_refs s)"
  shows "\<exists>rd m1. start_item s d m = Some (d\<lparr>df_processing := True\<rparr>, rd, m1) \<and> kept m m1 \<and> reader_wf rd m1 \<and>
    mem_ok m1 (others + frames_refs ds + bs_refs (rdata rd)) \<and> df_h d @ rbytes rd m1 = item_bytes s d m"
proof (cases "df_processing d")
  case True
  then have "start_item s d m = Some (d\<lparr>df_processing := True\<rparr>, os_reader s, m)"
    by (cases d) (simp add: start_item_def)
  moreover have "mem_ok m (others + frames_refs ds + bs_refs (rdata (os_reader s)))"
    using assms(2,3) True by (simp add: stream_refs_def frame_refs_def ac_simps)
  ultimately show ?thesis using assms(1) True by (simp add: stream_ok_def item_bytes_def)
next
  case False
  have rd: "rdata (os_reader s) = []" and wf: "list_all bwf (df_data d)"
    using assms(1,2) False by (simp_all add: stream_ok_def)
  let ?h = "others + frames_refs ds + bs_refs (df_data d)"
  have mem: "mem_ok m ?h" using assms(2,3) False rd by (simp add: stream_refs_def frame_refs_def ac_simps)
  obtain m1 where m1: "bs_Ref (df_data d) m = Some m1" "mem_ok m1 (?h + bs_refs (df_data d))"
    "\<forall>c. ReadOnlyData c m1 = ReadOnlyData c m" using bs_Ref_ok [OF mem, of "df_data d"] by auto
  have len: "bs_Len (df_data d) m1 = Some (length (bs_bytes (df_data d) m))"
    using bs_Len_ok [OF m1(2) _ wf] bs_bytes_same [OF m1(3)] by simp
  obtain m2 where m2: "bs_Free (df_data d) m1 = Some m2" "mem_ok m2 ?h" "kept m1 m2" using bs_Free_ok [OF m1(2)] by blast
  let ?rd = "(os_reader s)\<lparr>rdata := df_data d, rlen := int (length (bs_bytes (df_data d) m)), bufferIdx := 0\<rparr>"
  have "start_item s d m = Some (d\<lparr>df_processing := True\<rparr>, ?rd, m2)"
    using False rd m1(1) m2(1) len by (simp add: start_item_def Reset_def)
  moreover have "bs_bytes (df_data d) m2 = bs_bytes (df_data d) m"
    using kept_bs_bytes [OF m2(3,2), of "df_data d"] bs_bytes_same [OF m1(3)] by simp
  then have "rbytes ?rd m2 = bs_bytes (df_data d) m" by (cases "df_data d") (simp_all add: rbytes_def)
  moreover have "reader_wf ?rd m2" using calculation(2) wf by (simp add: reader_wf_def)
  ultimately show ?thesis
    using False m2(2) kept_trans [OF bs_Ref_kept [OF m1(1)] m2(3)] by (simp add: item_bytes_def)
qed

lemma write_sizes_ok:
  assumes "write_sizes q sq (int a) (int b) = (hs, ds)" and "0 \<le> sq"
  shows "0 \<le> hs" "hs \<le> int a" "0 \<le> ds" "ds \<le> int b" "hs < int a \<Longrightarrow> ds = 0"
    "hs + ds = min (min (min 16384 (max q 0)) sq) (int a + int b)"
proof -
  define M where "M = min (min 16384 (max q 0)) sq"
  have M: "0 \<le> M" using assms(2) by (simp add: M_def)
  have hs: "hs = min M (int a)" and ds: "ds = min (M - hs) (int b)"
    using assms(1) by (auto simp: write_sizes_def http2MaxFrameLen_def Let_def M_def)
  show "0 \<le> hs" "hs \<le> int a" using M by (simp_all add: hs)
  show "0 \<le> ds" "ds \<le> int b" "hs < int a \<Longrightarrow> ds = 0" by (simp_all add: ds) (simp_all add: hs)
  show "hs + ds = min (min (min 16384 (max q 0)) sq) (int a + int b)"
    unfolding M_def [symmetric] ds unfolding hs by (cases "M \<le> int a") simp_all
qed

lemma write_sizes_cases:
  assumes "int n = min (min (min 16384 (max q 0)) sq) (int (length (x @ y)))" and "0 \<le> sq"
  shows "\<exists>hs ds. write_sizes q sq (int (length x)) (int (length y)) = (int hs, int ds) \<and> hs + ds = n \<and>
    hs \<le> length x \<and> ds \<le> length y \<and> (hs < length x \<longrightarrow> ds = 0)"
proof -
  obtain h e where w: "write_sizes q sq (int (length x)) (int (length y)) = (h, e)" by fastforce
  note wo = write_sizes_ok [OF w assms(2)]
  obtain hs where hs: "h = int hs" using wo(1) nonneg_int_cases by blast
  obtain ds where ds: "e = int ds" using wo(3) nonneg_int_cases by blast
  have "int (hs + ds) = int n" using wo(6) assms(1) by (simp only: hs ds length_append of_nat_add)
  then show ?thesis using w wo(2,4,5) unfolding hs ds by auto
qed

lemma take_parts:
  assumes "hs \<le> length a" and "hs < length a \<Longrightarrow> ds = 0"
  shows "take hs a @ take ds b = take (hs + ds) (a @ b)" and "drop hs a @ drop ds b = drop (hs + ds) (a @ b)"
  using assms by (cases "hs = length a"; simp)+

section \<open>How much work is left\<close>

definition own :: "outStream \<Rightarrow> mem \<Rightarrow> nat" where
  "own s m = length (pending s m) + length (os_data s)"

definition estd_weight :: "'w loopyWriter \<Rightarrow> nat" where
  "estd_weight l = sum_list (map (\<lambda>(j, q). own (l_strs l q) (l_mem l)) (l_estdStreams l))"

definition weight :: "'w loopyWriter \<Rightarrow> nat" where
  "weight l = estd_weight l + length (l_activeStreams l)"

lemma weight_quiet: "quiet obs l l' \<Longrightarrow> weight l' = weight l"
  using io_only_fields(4,5,7,9) [of l l'] by (simp add: quiet_def weight_def estd_weight_def)

lemma estd_weight_rest:
  assumes "loopy_rest r held l" and "(i, r) \<in> set (l_estdStreams l)"
    and "mem_ok m (held' + rest_refs r l + rs)" and "kept (l_mem l) m"
  shows "estd_weight l = sum_list (map (\<lambda>(j, q). own (((l_strs l)(r := s)) q) m) (filter (\<lambda>(j, q). q \<noteq> r) (l_estdStreams l)))
    + own (l_strs l r) (l_mem l)"
proof -
  have "distinct (map snd (l_estdStreams l))" using assms(1) by (simp add: loopy_rest_def)
  then have "estd_weight l = sum_list (map (\<lambda>(j, q). own (l_strs l q) (l_mem l)) (filter (\<lambda>(j, q). q \<noteq> r) (l_estdStreams l)))
    + own (l_strs l r) (l_mem l)"
    unfolding estd_weight_def by (rule estd_sum_split) (rule assms(2))
  moreover have "sum_list (map (\<lambda>(j, q). own (l_strs l q) (l_mem l)) (filter (\<lambda>(j, q). q \<noteq> r) (l_estdStreams l))) =
    sum_list (map (\<lambda>(j, q). own (((l_strs l)(r := s)) q) m) (filter (\<lambda>(j, q). q \<noteq> r) (l_estdStreams l)))"
    by (rule estd_sum_cong) (use others_kept(2) [OF assms(1,3,4)] in \<open>auto simp: own_def\<close>)
  ultimately show ?thesis by simp
qed

lemma weight_changed:
  assumes "loopy_rest r held l" and est: "(i, r) \<in> set (l_estdStreams l)"
    and "mem_ok m (held' + rest_refs r l + rs)" and "kept (l_mem l) m"
  shows "weight (changed r s m as l) + own (l_strs l r) (l_mem l) + length (l_activeStreams l) =
    weight l + own s m + length as"
proof -
  have "distinct (map snd (l_estdStreams l))" using assms(1) by (simp add: loopy_rest_def)
  then have "estd_weight (changed r s m as l) =
    sum_list (map (\<lambda>(j, q). own (((l_strs l)(r := s)) q) m) (filter (\<lambda>(j, q). q \<noteq> r) (l_estdStreams l))) + own s m"
    using estd_sum_split [OF _ est, of "\<lambda>q. own (((l_strs l)(r := s)) q) m"] by (simp add: estd_weight_def)
  then show ?thesis using estd_weight_rest [OF assms, of s] by (simp add: weight_def)
qed

lemma weight_removed:
  assumes "loopy_rest r held l" and "(i, r) \<in> set (l_estdStreams l)"
    and "mem_ok m (held' + rest_refs r l + rs)" and "kept (l_mem l) m"
  shows "weight (removed i r s m l) + own (l_strs l r) (l_mem l) \<le> weight l"
proof -
  have "estd_weight (removed i r s m l) =
    sum_list (map (\<lambda>(j, q). own (((l_strs l)(r := s)) q) m) (filter (\<lambda>(j, q). q \<noteq> r) (l_estdStreams l)))"
    by (simp add: estd_weight_def removed_def delete_filter [OF assms(1,2)])
  moreover have "length (remove1 r (l_activeStreams l)) \<le> length (l_activeStreams l)" by (simp add: length_remove1)
  ultimately show ?thesis using estd_weight_rest [OF assms, of s] by (simp add: weight_def removed_def)
qed

section \<open>After a write\<close>

text \<open>A stream in the middle of \<open>processData\<close>: its state does not say yet whether data is left.\<close>

definition stream_mid :: "uint32 \<Rightarrow> outStream \<Rightarrow> mem \<Rightarrow> bool" where
  "stream_mid i s m \<longleftrightarrow>
     os_id s = i \<and> os_state s = active \<and>
     (\<forall>d \<in> set (os_data s). df_streamID d = i \<and> list_all bwf (df_data d)) \<and>
     (\<forall>d \<in> set (tl (os_data s)). \<not> df_processing d) \<and>
     reader_wf (os_reader s) m \<and>
     (os_data s = [] \<or> \<not> df_processing (hd (os_data s)) \<longrightarrow> rdata (os_reader s) = []) \<and>
     (\<forall>t. os_trailer s = Some t \<longrightarrow> sh_endStream t \<and> sh_streamID t = i \<and> trailers_legal t)"

lemma mid_ok:
  assumes "stream_mid i s m" and "st = empty_state \<longleftrightarrow> os_data s = []" and "os_data s = [] \<Longrightarrow> os_trailer s = None"
  shows "stream_ok i (s\<lparr>os_state := st\<rparr>) m"
  using assms by (auto simp: stream_mid_def stream_ok_def)

text \<open>What \<open>processData\<close> leaves of the stream \<open>i\<close> at \<open>r\<close> when it returns no error.\<close>

definition settled :: "('w \<Rightarrow> frame list) \<Rightarrow> uint32 \<Rightarrow> addr \<Rightarrow> addr multiset \<Rightarrow> 'w loopyWriter \<Rightarrow> 'w loopyWriter \<Rightarrow> bool" where
  "settled obs i r held l l' \<longleftrightarrow>
     loopy_ok held l' \<and> obs (l_framer l') = obs (l_framer l) \<and> l_sendQuota l' = l_sendQuota l \<and>
     (l_activeStreams l' = l_activeStreams l \<and> weight l' \<le> weight l \<or>
      l_activeStreams l' = l_activeStreams l @ [r] \<and> weight l' = weight l + 1) \<and>
     (pend l' = pend l \<and> os_bytesOutStanding (l_strs l' r) = os_bytesOutStanding (l_strs l r) \<or>
      os_data (l_strs l r) = [] \<and> pend l' = (pend l)(i := None)) \<and>
     works_on r l l'"

lemma settle_changed:
  assumes "loopy_rest r held l" and est: "(i, r) \<in> set (l_estdStreams l)" and "stream_mid i (l_strs l r) (l_mem l)"
    and "r \<notin> set (l_activeStreams l)" and "st = empty_state \<longleftrightarrow> os_data (l_strs l r) = []"
    and "os_data (l_strs l r) = [] \<Longrightarrow> os_trailer (l_strs l r) = None"
    and "as = (if st = active then l_activeStreams l @ [r] else l_activeStreams l)"
    and "st = waitingOnStreamQuota \<Longrightarrow> int (unat (l_oiws l)) \<le> os_bytesOutStanding (l_strs l r)"
  shows "settled obs i r held l (changed r ((l_strs l r)\<lparr>os_state := st\<rparr>) (l_mem l) as l)"
proof -
  let ?s = "(l_strs l r)\<lparr>os_state := st\<rparr>"
  let ?l = "changed r ?s (l_mem l) as l"
  have mem: "mem_ok (l_mem l) (held + rest_refs r l + stream_refs ?s)"
    using assms(1) by (simp add: loopy_rest_def stream_refs_def)
  have as: "distinct as" "\<And>q. q \<noteq> r \<Longrightarrow> q \<in> set as \<longleftrightarrow> q \<in> set (l_activeStreams l)"
    using assms(1,4,7) by (auto simp: loopy_rest_def)
  have "loopy_rest r held ?l" by (rule rest_change [OF assms(1) mem kept_refl as])
  then have "loopy_ok held ?l"
    by (rule loopy_rest_ok) (use est mid_ok [OF assms(3,5,6)] assms(4,7) in auto)
  moreover have "pend ?l = pend l"
    using pend_changed [OF assms(1) est mem kept_refl, of ?s as] est estd_lookup [of r held l i r] assms(1)
    by (simp add: fun_upd_idem pend_def)
  moreover have "weight ?l + length (l_activeStreams l) = weight l + length as"
    using weight_changed [OF assms(1) est mem kept_refl, of ?s as] by (simp add: own_def)
  moreover have "works_on r l ?l" using assms(8) by (auto simp: works_on_def waits_ok_def)
  ultimately show ?thesis using assms(7) by (auto simp: settled_def)
qed

context data_framer
begin

lemma settle_trailer:
  assumes "loopy_rest r held l" and est: "(i, r) \<in> set (l_estdStreams l)" and mid: "stream_mid i (l_strs l r) (l_mem l)"
    and "r \<notin> set (l_activeStreams l)" and "os_data (l_strs l r) = []" and "os_trailer (l_strs l r) = Some t"
  shows "\<exists>err l'. updateStreamAfterWrite E r l = Some (err, l') \<and> (err = None \<longrightarrow> settled obs i r held l l')"
proof -
  obtain c cb where c: "sh_cleanup t = Some c" "cs_onWrite c = Some cb" "cs_streamID c = i" "sh_streamID t = i"
  proof -
    have "sh_endStream t" "sh_streamID t = i" "trailers_legal t" using mid assms(6) by (simp_all add: stream_mid_def)
    then show ?thesis using that by (auto simp: trailers_legal_def)
  qed
  obtain e1 l1 where w: "writeHeader E (sh_streamID t) (sh_endStream t) (sh_hf t) (sh_onWrite t) l = (e1, l1)" by fastforce
  note q = quiet_writeHeader [OF w]
  have io: "io_only l l1" and o1: "obs (l_framer l1) = obs (l_framer l)" using q by (simp_all add: quiet_def)
  note f = io_only_fields [OF io]
  have l1: "loopy_rest r held l1" "(i, r) \<in> set (l_estdStreams l1)" "reader_wf (os_reader (l_strs l1 r)) (l_mem l1)"
    using assms(1,2) mid by (simp_all add: f stream_mid_def)
  obtain err l' s m where cl: "cleanupStreamHandler E c l1 = Some (err, l')"
    and rm: "quiet obs (removed i r s m l1) l'" "mem_ok m (held + rest_refs r l1)" "kept (l_mem l1) m"
    using cleanup_rest_ok [OF c(2) l1(1) _ l1(3)] l1(2) c(3) by blast
  note r = quiet_removed [OF rm(1) l1(1,2) rm(2,3)]
  have "mem_ok m (held + rest_refs r l1 + {#})" using rm(2) by simp
  from weight_removed [OF l1(1,2) this rm(3), of s] have "weight l' \<le> weight l"
    using weight_quiet [OF rm(1)] weight_quiet [OF q] by simp
  moreover have "remove1 r (l_activeStreams l) = l_activeStreams l" using assms(4) by (rule remove1_idem)
  moreover have "works_on r l l'"
    using io_only_fields(3-5) [of "removed i r s m l1" l'] rm(1) delete_filter [OF l1(1,2)]
    by (auto simp: works_on_def quiet_def removed_def f)
  ultimately have "settled obs i r held l l'"
    using r quiet_pend [OF q] o1 assms(5) by (simp add: settled_def f)
  moreover have "updateStreamAfterWrite E r l = Some (if e1 \<noteq> None then (e1, l1) else (err, l'))"
    using assms(5,6) w c(1) cl by (simp add: updateStreamAfterWrite_def)
  ultimately show ?thesis by (cases e1) simp_all
qed

lemma updateStreamAfterWrite_ok:
  assumes "loopy_rest r held l" and est: "(i, r) \<in> set (l_estdStreams l)" and mid: "stream_mid i (l_strs l r) (l_mem l)"
    and "r \<notin> set (l_activeStreams l)"
  shows "\<exists>err l'. updateStreamAfterWrite E r l = Some (err, l') \<and> (err = None \<longrightarrow> settled obs i r held l l')"
proof (cases "os_data (l_strs l r) = [] \<and> os_trailer (l_strs l r) \<noteq> None")
  case True
  then show ?thesis using settle_trailer [OF assms] by blast
next
  case False
  define st where "st = (if os_data (l_strs l r) = [] then empty_state
    else if int (unat (l_oiws l)) - os_bytesOutStanding (l_strs l r) \<le> 0 then waitingOnStreamQuota else active)"
  define as where "as = (if st = active then l_activeStreams l @ [r] else l_activeStreams l)"
  have "os_state (l_strs l r) = active" using mid by (simp add: stream_mid_def)
  then have same: "(l_strs l r)\<lparr>os_state := active\<rparr> = l_strs l r" by (cases "l_strs l r") simp
  have "updateStreamAfterWrite E r l = Some (None, changed r ((l_strs l r)\<lparr>os_state := st\<rparr>) (l_mem l) as l)"
    using False by (auto simp: updateStreamAfterWrite_def st_def as_def upd_str_def changed_def same)
  moreover have "settled obs i r held l (changed r ((l_strs l r)\<lparr>os_state := st\<rparr>) (l_mem l) as l)"
    by (rule settle_changed [OF assms]) (use False in \<open>simp_all add: st_def as_def split: if_splits\<close>)
  ultimately show ?thesis by simp
qed

end

section \<open>One DATA frame\<close>

definition after_data :: "addr \<Rightarrow> outStream \<Rightarrow> mem \<Rightarrow> nat \<Rightarrow> 'w \<Rightarrow> loopy_event list \<Rightarrow> 'w loopyWriter \<Rightarrow> 'w loopyWriter" where
  "after_data r s m n w log l = (changed r s m (l_activeStreams l) l)
     \<lparr>l_sendQuota := l_sendQuota l - of_nat n, l_framer := w, l_log := log\<rparr>"

lemma write_item_eq:
  assumes "write_sizes (int (unat (l_oiws l)) - os_bytesOutStanding s) (int (unat (l_sendQuota l)))
      (int (length (df_h d))) (int b) = (int hs, int dsz)"
    and "s = l_strs l r" and "rlen (os_reader s) = int b" and "wb = (if 0 < hs then [of_bytes (take hs (df_h d))] else [])"
    and "0 < dsz \<Longrightarrow> Peek dsz wb (os_reader s) (l_mem l) = Some (wb @ ts, None)"
    and "Discard dsz (os_reader s) (l_mem l) = Some (k, e, rd1, m1)"
    and "fin \<longleftrightarrow> length (df_h d) + b = hs + dsz" and "fin \<Longrightarrow> Close rd1 m1 = Some (rd2, m2)"
    and "e_write E (FrData (df_streamID d) (df_endStream d \<and> fin) (map sbytes (wb @ (if 0 < dsz then ts else [])))) (l_framer l)
      = (werr, w)"
    and "s' = s\<lparr>os_reader := if fin then rd2 else rd1, os_bytesOutStanding := os_bytesOutStanding s + int (hs + dsz),
           os_data := if fin then ds else d\<lparr>df_h := drop hs (df_h d)\<rparr> # ds\<rparr>"
  shows "\<exists>log l4. write_item E r d ds l = (if werr \<noteq> None then Some (False, werr, l4)
    else do { (err, l7) \<leftarrow> updateStreamAfterWrite E r (after_data r s' (if fin then m2 else m1) (hs + dsz) w log l);
              Some (False, err, l7) })"
proof -
  let ?ev = "l_log l @ EvReplenish (os_wq s) (int hs + int dsz) #
    (case df_onEachWrite d of None \<Rightarrow> [] | Some cb \<Rightarrow> [EvOnEachWrite cb])"
  let ?l3 = "l\<lparr>l_log := ?ev, l_framer := w\<rparr>"
  have rem: "Remaining (os_reader s) = int b" using assms(3) by (simp add: Remaining_def)
  have fin: "int (length (df_h d)) + int b - int hs - int dsz = 0 \<longleftrightarrow> fin" using assms(7) by linarith
  have wb: "(if 0 < int hs then [of_bytes (take (nat (int hs)) (df_h d))] else []) = wb" using assms(4) by simp
  have peek: "(if 0 < int dsz then Peek (nat (int dsz)) wb (os_reader s) (l_mem l) else Some (wb, None)) =
    Some (wb @ (if 0 < dsz then ts else []), None)" using assms(5) by simp
  have evs: "(case df_onEachWrite d of None \<Rightarrow> ev (EvReplenish (os_wq s) (int hs + int dsz)) l
      | Some cb \<Rightarrow> ev (EvOnEachWrite cb) (ev (EvReplenish (os_wq s) (int hs + int dsz)) l)) = l\<lparr>l_log := ?ev\<rparr>"
    by (simp add: ev_def split: option.splits)
  have wr: "fr_write E (FrData (df_streamID d) (df_endStream d \<and> fin) (map sbytes (wb @ (if 0 < dsz then ts else []))))
    (l\<lparr>l_log := ?ev\<rparr>) = (werr, ?l3)" using assms(9) by (simp add: fr_write_def)
  have swap: "s\<lparr>os_bytesOutStanding := n, os_reader := rd\<rparr> = s\<lparr>os_reader := rd, os_bytesOutStanding := n\<rparr>" for s :: outStream and n rd
    by (cases s) simp
  show ?thesis
    unfolding write_item_def Let_def assms(2) [symmetric] rem assms(1) prod.case wb peek fin bind.bind_lunit evs wr
    by (intro exI [of _ ?ev] exI [of _ "(upd_str r (\<lambda>s. s\<lparr>os_reader := rd1\<rparr>) ?l3)\<lparr>l_mem := m1\<rparr>"])
      (use assms(6,8) in \<open>cases l; simp add: assms(2,10) after_data_def changed_def upd_str_def swap\<close>)
qed

lemma works_on_changed: "works_on r (changed r s m as l) l' \<Longrightarrow> works_on r l l'"
  by (fastforce simp: works_on_def split: if_splits)

lemma works_on_after: "works_on r (after_data r s m n w log l) l' \<Longrightarrow> works_on r l l'"
  by (fastforce simp: works_on_def after_data_def split: if_splits)

lemma after_data_fields [simp]:
  "l_estdStreams (after_data r s m n w log l) = l_estdStreams l" "l_strs (after_data r s m n w log l) = (l_strs l)(r := s)"
  "l_mem (after_data r s m n w log l) = m" "l_activeStreams (after_data r s m n w log l) = l_activeStreams l"
  "l_framer (after_data r s m n w log l) = w" "l_sendQuota (after_data r s m n w log l) = l_sendQuota l - of_nat n"
  "weight (after_data r s m n w log l) = weight (changed r s m (l_activeStreams l) l)"
  "pend (after_data r s m n w log l) = pend (changed r s m (l_activeStreams l) l)"
  "loopy_rest r held (after_data r s m n w log l) = loopy_rest r held (changed r s m (l_activeStreams l) l)"
  by (simp_all add: after_data_def weight_def estd_weight_def pend_def loopy_rest_def rest_refs_def fun_eq_iff)

text \<open>What one DATA frame with the next \<open>n\<close> bytes of stream \<open>i\<close> leaves.\<close>

definition sent_data :: "('w \<Rightarrow> frame list) \<Rightarrow> uint32 \<Rightarrow> addr \<Rightarrow> addr multiset \<Rightarrow> nat \<Rightarrow> frame \<Rightarrow> 'w loopyWriter \<Rightarrow> 'w loopyWriter \<Rightarrow> bool" where
  "sent_data obs i r held n f l l' \<longleftrightarrow>
     loopy_ok held l' \<and> obs (l_framer l') = obs (l_framer l) @ [f] \<and> l_sendQuota l' = l_sendQuota l - of_nat n \<and>
     l_activeStreams l' \<in> {l_activeStreams l, l_activeStreams l @ [r]} \<and> weight l' \<le> weight l \<and>
     (let b = pending (l_strs l r) (l_mem l)
      in pend l' = (pend l)(i \<mapsto> drop n b) \<and>
           os_bytesOutStanding (l_strs l' r) = os_bytesOutStanding (l_strs l r) + int n \<or>
         pend l' = (pend l)(i := None) \<and> drop n b = []) \<and>
     works_on r l l'"

lemma sent_settled:
  assumes "settled obs i r held (after_data r s m n w log l) l'" and "loopy_rest r held l" and "(i, r) \<in> set (l_estdStreams l)"
    and "mem_ok m (held + rest_refs r l + stream_refs s)" and "kept (l_mem l) m"
    and "pending s m = drop n (pending (l_strs l r) (l_mem l))" and "own s m < own (l_strs l r) (l_mem l)"
    and "os_bytesOutStanding s = os_bytesOutStanding (l_strs l r) + int n" and "obs w = obs (l_framer l) @ [f]"
  shows "sent_data obs i r held n f l l'"
proof -
  note pc = pend_changed [OF assms(2-5), of s "l_activeStreams l"]
  have "os_data s = [] \<Longrightarrow> pending s m = []" by (simp add: pending_def)
  moreover have "weight (changed r s m (l_activeStreams l) l) + 1 \<le> weight l"
    using weight_changed [OF assms(2-5), of s "l_activeStreams l"] assms(7) by simp
  ultimately show ?thesis
    using assms(1,6,8,9) pc by (auto simp: settled_def sent_data_def Let_def dest: works_on_after)
qed

lemma stream_midI:
  assumes "stream_mid i s m" and "os_data s = d # ds" and "df_processing d" and "reader_wf rd m'"
    and "fin \<Longrightarrow> rdata rd = []"
  shows "stream_mid i (s\<lparr>os_reader := rd, os_bytesOutStanding := n,
    os_data := if fin then ds else d\<lparr>df_h := h\<rparr> # ds\<rparr>) m'"
  using assms by (cases ds) (auto simp: stream_mid_def)

lemma pending_unstarted:
  "os_data s = ds \<Longrightarrow> \<forall>d \<in> set ds. \<not> df_processing d \<Longrightarrow> pending s m = concat (map (frame_bytes m) ds)"
  by (cases ds) (simp_all add: pending_def frame_bytes_def)

text \<open>The stream after the first \<open>hs + ds\<close> bytes of its current item were written.\<close>

definition advance :: "outStream \<Rightarrow> dataFrame \<Rightarrow> dataFrame list \<Rightarrow> bool \<Rightarrow> Reader \<Rightarrow> nat \<Rightarrow> nat \<Rightarrow> outStream" where
  "advance s d ds fin rd hs n = s\<lparr>os_reader := rd, os_bytesOutStanding := os_bytesOutStanding s + int n,
     os_data := if fin then ds else d\<lparr>df_h := drop hs (df_h d)\<rparr> # ds\<rparr>"

lemma advance_ok:
  assumes mid: "stream_mid i s m" and d: "os_data s = d # ds" "df_processing d" and "mem_ok m' (others + stream_refs s')"
    and "kept m m'" and s': "s' = advance s d ds fin rd hs n" and rd: "reader_wf rd m'" "fin \<Longrightarrow> rdata rd = []"
    and b: "b = df_h d @ rbytes (os_reader s) m" and "fin \<longleftrightarrow> n = length b" and "n \<le> length b"
    and "\<not> fin \<Longrightarrow> drop hs (df_h d) @ rbytes rd m' = drop n b" and "b = [] \<or> 0 < n"
  shows "stream_mid i s' m'" and "pending s' m' = drop n (pending s m)" and "own s' m' < own s m"
proof -
  show "stream_mid i s' m'" unfolding s' advance_def by (rule stream_midI [OF mid d rd])
  have un: "\<forall>d \<in> set ds. \<not> df_processing d" using mid d by (simp add: stream_mid_def)
  have "frames_refs ds \<subseteq># others + stream_refs s'"
    unfolding s' by (simp add: advance_def stream_refs_def subset_mset.add_increasing subset_mset.add_increasing2)
  from frame_bytes_same [OF same_bytes_kept [OF assms(5,4) this] un]
  have rest: "concat (map (frame_bytes m') ds) = concat (map (frame_bytes m) ds)" .
  have old: "pending s m = b @ concat (map (frame_bytes m) ds)" using d b by (simp add: pending_def)
  show new: "pending s' m' = drop n (pending s m)"
  proof (cases fin)
    case True
    then show ?thesis using pending_unstarted [of s' ds m'] un rest old assms(10) s' by (simp add: advance_def)
  next
    case False
    have "pending s' m' = drop hs (df_h d) @ rbytes rd m' @ concat (map (frame_bytes m') ds)"
      using False d(2) s' by (simp add: advance_def pending_def)
    then show ?thesis using rest old assms(11,12) False by simp
  qed
  show "own s' m' < own s m"
    unfolding own_def new using old d(1) assms(10,11,13) s' by (auto simp: advance_def)
qed

lemma discard_close:
  assumes "reader_ok others rd m"
  obtains k e rd1 m1 rd2 m2 where "Discard n rd m = Some (k, e, rd1, m1)" and "reader_wf rd1 m1" and "kept m m1"
    and "mem_ok m1 (others + bs_refs (rdata rd1))" and "rbytes rd1 m1 = drop n (rbytes rd m)"
    and "Close rd1 m1 = Some (rd2, m2)" and "reader_wf rd2 m2" and "kept m m2" and "mem_ok m2 others" and "rdata rd2 = []"
proof -
  obtain k e rd1 m1 where dis: "Discard n rd m = Some (k, e, rd1, m1)" "advanced others n rd m rd1 m1"
    using Discard_ok [OF assms, of n] by blast
  then have ok1: "reader_ok others rd1 m1" "rbytes rd1 m1 = drop n (rbytes rd m)" "kept m m1"
    by (simp_all add: advanced_def)
  obtain rd2 m2 where cl: "Close rd1 m1 = Some (rd2, m2)" "mem_ok m2 others" "kept m1 m2" "reader_ok others rd2 m2"
    using Close_ok [OF ok1(1)] by blast
  have "rdata rd2 = []" using cl(1) by (auto simp: Close_def bind_eq_Some_conv)
  then show ?thesis
    using that [OF dis(1) _ ok1(3) _ ok1(2) cl(1) _ kept_trans [OF ok1(3) cl(3)] cl(2)] ok1(1) cl(4)
    by (simp add: reader_ok_iff)
qed

context data_framer
begin

lemma finish_write:
  assumes "loopy_rest r held l" and est: "(i, r) \<in> set (l_estdStreams l)" and "r \<notin> set (l_activeStreams l)"
    and "stream_mid i s m" and "mem_ok m (held + rest_refs r l + stream_refs s)" and "kept (l_mem l) m"
    and "pending s m = drop n (pending (l_strs l r) (l_mem l))" and "own s m < own (l_strs l r) (l_mem l)"
    and "os_bytesOutStanding s = os_bytesOutStanding (l_strs l r) + int n"
    and "e_write E f (l_framer l) = (None, w)" and "is_data f"
  shows "\<exists>err l'. updateStreamAfterWrite E r (after_data r s m n w log l) = Some (err, l') \<and>
    (err = None \<longrightarrow> sent_data obs i r held n f l l')"
proof -
  have "loopy_rest r held (after_data r s m n w log l)"
    unfolding after_data_fields by (rule rest_change [OF assms(1,5,6)]) (use assms(1) in \<open>simp_all add: loopy_rest_def\<close>)
  from updateStreamAfterWrite_ok [OF this, of i] obtain err l'
    where "updateStreamAfterWrite E r (after_data r s m n w log l) = Some (err, l')"
      and st: "err = None \<longrightarrow> settled obs i r held (after_data r s m n w log l) l'"
    using est assms(3,4) by auto
  moreover have "obs w = obs (l_framer l) @ [f]" using obs_write [OF assms(10)] assms(11) by simp
  ultimately show ?thesis using sent_settled [OF _ assms(1,2,5,6,7,8,9)] by blast
qed

lemma write_item_ok:
  assumes "loopy_rest r held l" and est: "(i, r) \<in> set (l_estdStreams l)" and "r \<notin> set (l_activeStreams l)"
    and mid: "stream_mid i (l_strs l r) (l_mem l)" and s: "s = l_strs l r" and d: "os_data s = d # ds" "df_processing d"
    and b: "b = df_h d @ rbytes (os_reader s) (l_mem l)"
    and n: "int n = min (min (min 16384 (max (int (unat (l_oiws l)) - os_bytesOutStanding s) 0)) (int (unat (l_sendQuota l))))
        (int (length b))"
    and pos: "b = [] \<or> 0 < n"
  shows "\<exists>ps err l'. write_item E r d ds l = Some (False, err, l') \<and> concat ps = take n b \<and>
    (err = None \<longrightarrow> sent_data obs i r held n (FrData i (df_endStream d \<and> n = length b) ps) l l')"
proof -
  let ?rd = "os_reader s" and ?m = "l_mem l"
  let ?B = "rbytes ?rd ?m" and ?o = "held + rest_refs r l + frames_refs ds"
  have wf: "reader_wf ?rd ?m" and sid: "df_streamID d = i" using mid d(1) s by (simp_all add: stream_mid_def)
  then have len: "rlen ?rd = int (length ?B)" by (simp add: reader_wf_def)
  have rok: "reader_ok ?o ?rd ?m" using assms(1) wf s d
    by (simp add: reader_ok_iff loopy_rest_def stream_refs_def frame_refs_def ac_simps)
  obtain hs dsz where sz: "write_sizes (int (unat (l_oiws l)) - os_bytesOutStanding s) (int (unat (l_sendQuota l)))
      (int (length (df_h d))) (int (length ?B)) = (int hs, int dsz)"
    and hn: "hs + dsz = n" "hs \<le> length (df_h d)" "dsz \<le> length ?B" "hs < length (df_h d) \<Longrightarrow> dsz = 0"
    using write_sizes_cases [OF n [unfolded b] of_nat_0_le_iff] by blast
  define fin where "fin \<longleftrightarrow> n = length b"
  have fin: "fin \<longleftrightarrow> length (df_h d) + length ?B = hs + dsz" "n \<le> length b" using hn b by (auto simp: fin_def)
  define wb where "wb = (if 0 < hs then [of_bytes (take hs (df_h d))] else [])"
  obtain ts where ts: "Peek dsz wb ?rd ?m = Some (wb @ ts, None)" "concat (map sbytes ts) = take dsz ?B"
    using Peek_ok [OF rok, of dsz wb] hn(3) by auto
  obtain k e rd1 m1 rd2 m2 where dis: "Discard dsz ?rd ?m = Some (k, e, rd1, m1)" "reader_wf rd1 m1" "kept ?m m1"
    "mem_ok m1 (?o + bs_refs (rdata rd1))" "rbytes rd1 m1 = drop dsz ?B"
    and cl: "Close rd1 m1 = Some (rd2, m2)" "reader_wf rd2 m2" "kept ?m m2" "mem_ok m2 ?o" "rdata rd2 = []"
    using discard_close [OF rok] by metis
  define rd' m' ps where "rd' = (if fin then rd2 else rd1)" and "m' = (if fin then m2 else m1)"
    and "ps = map sbytes (wb @ (if 0 < dsz then ts else []))"
  define s' where "s' = advance s d ds fin rd' hs n"
  have mem: "mem_ok m' (held + rest_refs r l + stream_refs s')" "kept ?m m'" "reader_wf rd' m'" "fin \<Longrightarrow> rdata rd' = []"
    using dis(2-4) cl(2-5) d(2)
    by (auto simp: m'_def rd'_def s'_def advance_def stream_refs_def frame_refs_def ac_simps)
  have "\<not> fin \<Longrightarrow> drop hs (df_h d) @ rbytes rd' m' = drop n b"
    using take_parts(2) [OF hn(2,4)] hn(1) dis(5) b by (simp add: rd'_def m'_def)
  note adv = advance_ok [OF mid [folded s] d mem(1,2) s'_def mem(3,4) b fin_def fin(2) this pos]
  have ps: "concat ps = take n b"
    using ts(2) take_parts(1) [OF hn(2,4), of ?B] hn(1) b by (auto simp: ps_def wb_def)
  let ?f = "FrData i (df_endStream d \<and> n = length b) ps"
  obtain werr w where wr: "e_write E ?f (l_framer l) = (werr, w)" by fastforce
  obtain log l4 where eq: "write_item E r d ds l = (if werr \<noteq> None then Some (False, werr, l4)
    else do { (err, l7) \<leftarrow> updateStreamAfterWrite E r (after_data r s' m' n w log l); Some (False, err, l7) })"
    using write_item_eq [OF sz s len wb_def ts(1) dis(1) fin(1) cl(1) wr [folded fin_def sid, unfolded ps_def]
      s'_def [unfolded advance_def rd'_def, folded hn(1)]] unfolding hn(1) m'_def by blast
  show ?thesis
  proof (cases werr)
    case None
    from finish_write [OF assms(1-3) adv(1) mem(1,2) _ _ _ wr [unfolded None], of n log] adv(2,3) obtain err l'
      where "updateStreamAfterWrite E r (after_data r s' m' n w log l) = Some (err, l')"
        "err = None \<longrightarrow> sent_data obs i r held n ?f l l'" by (auto simp: s s'_def advance_def)
    then show ?thesis using eq None ps by auto
  qed (use eq ps in auto)
qed

end

section \<open>One call of processData\<close>

text \<open>The first active stream is taken off the list and its next item started.\<close>

lemma take_stream:
  assumes ok: "loopy_ok held l" and act: "l_activeStreams l = r # rest"
  obtains i d ds rd m where "(i, r) \<in> set (l_estdStreams l)" and "os_data (l_strs l r) = d # ds" and "df_streamID d = i"
    and "start_item (l_strs l r) d (l_mem l) = Some (d\<lparr>df_processing := True\<rparr>, rd, m)"
    and "df_h d @ rbytes rd m = item_bytes (l_strs l r) d (l_mem l)" and "rlen rd = int (length (rbytes rd m))"
    and "let l1 = changed r ((l_strs l r)\<lparr>os_reader := rd, os_data := d\<lparr>df_processing := True\<rparr> # ds\<rparr>) m rest l
         in loopy_rest r held l1 \<and> stream_mid i (l_strs l1 r) m \<and> r \<notin> set rest \<and> pend l1 = pend l \<and>
            pending (l_strs l1 r) m = pending (l_strs l r) (l_mem l) \<and> weight l1 + 1 = weight l"
proof -
  let ?s = "l_strs l r"
  have "r \<in> snd ` set (l_estdStreams l)" "os_state ?s = active" using ok act by (auto simp: loopy_ok_def)
  then obtain i where est: "(i, r) \<in> set (l_estdStreams l)" and st: "os_state ?s = active" by auto
  note sok = loopy_stream(1) [OF ok est] and rest = loopy_ok_rest [OF ok est]
  obtain d ds where d: "os_data ?s = d # ds" using sok st by (cases "os_data ?s") (auto simp: stream_ok_def)
  have "mem_ok (l_mem l) (held + rest_refs r l + stream_refs ?s)" using rest by (simp add: loopy_rest_def)
  from start_item_ok [OF sok d this] obtain rd m where
    start: "start_item ?s d (l_mem l) = Some (d\<lparr>df_processing := True\<rparr>, rd, m)" "kept (l_mem l) m" "reader_wf rd m"
    "mem_ok m (held + rest_refs r l + frames_refs ds + bs_refs (rdata rd))" "df_h d @ rbytes rd m = item_bytes ?s d (l_mem l)"
    by blast
  let ?s1 = "?s\<lparr>os_reader := rd, os_data := d\<lparr>df_processing := True\<rparr> # ds\<rparr>"
  have mem: "mem_ok m (held + rest_refs r l + stream_refs ?s1)"
    using start(4) by (simp add: stream_refs_def frame_refs_def ac_simps)
  have un: "\<forall>d \<in> set ds. \<not> df_processing d" using sok d by (simp add: stream_ok_def)
  have "frames_refs ds \<subseteq># held + rest_refs r l + stream_refs ?s1"
    by (simp add: stream_refs_def subset_mset.add_increasing subset_mset.add_increasing2)
  from frame_bytes_same [OF same_bytes_kept [OF start(2) mem this] un]
  have "pending ?s1 m = pending ?s (l_mem l)" using d start(5) by (simp add: pending_def item_bytes_def)
  moreover have dist: "distinct (r # rest)" using loopy_distinct [OF ok] act by simp
  then have "loopy_rest r held (changed r ?s1 m rest l)" using act by (intro rest_change [OF rest mem start(2)]) auto
  moreover have "pend (changed r ?s1 m rest l) = pend l"
    using pend_changed [OF rest est mem start(2), of ?s1 rest] pend_at [OF ok est] calculation(1) by (simp add: fun_upd_idem)
  moreover have "weight (changed r ?s1 m rest l) + 1 = weight l"
    using weight_changed [OF rest est mem start(2), of ?s1 rest] calculation(1) act d by (simp add: own_def)
  moreover have "stream_mid i ?s1 m" using sok st start(3) d by (simp add: stream_ok_def stream_mid_def)
  ultimately show ?thesis using that [OF est d _ start(1,5)] sok d start(3) dist
    by (simp add: Let_def stream_ok_def reader_wf_def)
qed

definition data_sent :: "('w \<Rightarrow> frame list) \<Rightarrow> uint32 \<Rightarrow> addr \<Rightarrow> addr multiset \<Rightarrow> nat \<Rightarrow> frame \<Rightarrow> 'w loopyWriter \<Rightarrow> 'w loopyWriter \<Rightarrow> bool" where
  "data_sent obs i r held n f l l' \<longleftrightarrow>
     loopy_ok held l' \<and> obs (l_framer l') = obs (l_framer l) @ [f] \<and> l_sendQuota l' = l_sendQuota l - of_nat n \<and>
     l_activeStreams l' \<in> {tl (l_activeStreams l), tl (l_activeStreams l) @ [r]} \<and> weight l' < weight l \<and>
     (\<exists>b. pend l i = Some b \<and>
        (pend l' = (pend l)(i \<mapsto> drop n b) \<and>
           os_bytesOutStanding (l_strs l' r) = os_bytesOutStanding (l_strs l r) + int n \<or>
         pend l' = (pend l)(i := None) \<and> drop n b = [])) \<and>
     works_on r l l'"

text \<open>The stream is taken off the active list because its window is exhausted.\<close>

definition parked :: "addr \<Rightarrow> addr multiset \<Rightarrow> 'w loopyWriter \<Rightarrow> 'w loopyWriter \<Rightarrow> bool" where
  "parked r held l l' \<longleftrightarrow>
     loopy_ok held l' \<and> l_framer l' = l_framer l \<and> l_sendQuota l' = l_sendQuota l \<and> pend l' = pend l \<and>
     l_activeStreams l' = tl (l_activeStreams l) \<and> weight l' < weight l \<and>
     os_state (l_strs l' r) = waitingOnStreamQuota \<and>
     os_bytesOutStanding (l_strs l' r) = os_bytesOutStanding (l_strs l r) \<and> works_on r l l'"

definition frame_size :: "'w loopyWriter \<Rightarrow> outStream \<Rightarrow> byte list \<Rightarrow> int" where
  "frame_size l s b = min (min (min 16384 (max (int (unat (l_oiws l)) - os_bytesOutStanding s) 0)) (int (unat (l_sendQuota l))))
     (int (length b))"

context data_framer
begin

lemma processData_ok:
  assumes "loopy_ok held l" and "l_activeStreams l = r # rest" and "l_sendQuota l \<noteq> 0"
  obtains i d ds ps err l' where "(i, r) \<in> set (l_estdStreams l)" and "os_data (l_strs l r) = d # ds"
    and "processData E l = Some (False, err, l')"
    and "let s = l_strs l r; b = item_bytes s d (l_mem l); n = nat (frame_size l s b)
         in if int (unat (l_oiws l)) \<le> os_bytesOutStanding s \<and> b \<noteq> []
            then err = None \<and> parked r held l l'
            else concat ps = take n b \<and>
              (err = None \<longrightarrow> data_sent obs i r held n (FrData i (df_endStream d \<and> n = length b) ps) l l')"
proof -
  let ?s = "l_strs l r"
  obtain i d ds rd m where est: "(i, r) \<in> set (l_estdStreams l)" and d: "os_data ?s = d # ds" "df_streamID d = i"
    and start: "start_item ?s d (l_mem l) = Some (d\<lparr>df_processing := True\<rparr>, rd, m)"
      "df_h d @ rbytes rd m = item_bytes ?s d (l_mem l)" "rlen rd = int (length (rbytes rd m))"
    and l1: "let l1 = changed r (?s\<lparr>os_reader := rd, os_data := d\<lparr>df_processing := True\<rparr> # ds\<rparr>) m rest l
         in loopy_rest r held l1 \<and> stream_mid i (l_strs l1 r) m \<and> r \<notin> set rest \<and> pend l1 = pend l \<and>
            pending (l_strs l1 r) m = pending ?s (l_mem l) \<and> weight l1 + 1 = weight l"
    by (rule take_stream [OF assms(1,2)])
  define s1 where "s1 = ?s\<lparr>os_reader := rd, os_data := d\<lparr>df_processing := True\<rparr> # ds\<rparr>"
  define l1 where "l1 = changed r s1 m rest l"
  define b where "b = item_bytes ?s d (l_mem l)"
  define q where "q = int (unat (l_oiws l)) - os_bytesOutStanding ?s"
  have l1: "loopy_rest r held l1" "stream_mid i (l_strs l1 r) (l_mem l1)" "r \<notin> set (l_activeStreams l1)" "pend l1 = pend l"
    "pending (l_strs l1 r) (l_mem l1) = pending ?s (l_mem l)" "weight l1 + 1 = weight l" "(i, r) \<in> set (l_estdStreams l1)"
    using l1 est unfolding s1_def [symmetric] l1_def [symmetric] by (simp_all add: Let_def) (simp_all add: l1_def)
  have l1eq: "(upd_str r (\<lambda>s. s\<lparr>os_reader := rd, os_data := d\<lparr>df_processing := True\<rparr> # ds\<rparr>) l)
      \<lparr>l_activeStreams := rest, l_mem := m\<rparr> = l1"
    by (cases l) (simp add: l1_def s1_def changed_def upd_str_def)
  have upd: "l_oiws (upd_str r f l) = l_oiws l" "l_strs (upd_str r f l) = (l_strs l)(r := f (l_strs l r))" for f
    by (simp_all add: upd_str_def)
  have f1: "l_oiws l1 = l_oiws l" "os_bytesOutStanding (l_strs l1 r) = os_bytesOutStanding ?s"
    "l_sendQuota l1 = l_sendQuota l" "os_data (l_strs l1 r) = d\<lparr>df_processing := True\<rparr> # ds"
    "os_reader (l_strs l1 r) = rd" "l_mem l1 = m" "l_activeStreams l1 = rest" "l_framer l1 = l_framer l"
    by (simp_all add: l1_def s1_def)
  have work: "works_on r l1 l' \<Longrightarrow> works_on r l l'" for l' unfolding l1_def by (rule works_on_changed)
  have empty: "df_h d = [] \<and> Remaining rd = 0 \<longleftrightarrow> b = []"
    using start(2,3) by (simp add: Remaining_def b_def flip: start(2))
  have pd: "processData E l = (if q \<le> 0 \<and> b \<noteq> [] then Some (False, None, upd_str r (\<lambda>s. s\<lparr>os_state := waitingOnStreamQuota\<rparr>) l1)
    else write_item E r (d\<lparr>df_processing := True\<rparr>) ds l1)"
    using assms(2,3) d(1) start(1) empty
    by (cases "b = []") (simp_all add: processData_def Let_def l1eq upd q_def)
  show ?thesis
  proof (cases "q \<le> 0 \<and> b \<noteq> []")
    case True
    let ?l = "changed r ((l_strs l1 r)\<lparr>os_state := waitingOnStreamQuota\<rparr>) (l_mem l1) (l_activeStreams l1) l1"
    have "settled obs i r held l1 ?l"
      by (rule settle_changed [OF l1(1,7,2,3)]) (use True in \<open>simp_all add: l1_def s1_def q_def\<close>)
    then have "parked r held l ?l" using assms(2) l1(4,6) work [of ?l]
      by (auto simp: settled_def parked_def) (simp_all add: l1_def s1_def)
    moreover have "processData E l = Some (False, None, ?l)" using True pd by (simp add: upd_str_def changed_def)
    ultimately show ?thesis using that [OF est d(1)] True by (simp add: Let_def b_def q_def)
  next
    case False
    define n where "n = nat (frame_size l ?s b)"
    have fs: "int n = frame_size l ?s b" by (simp add: n_def frame_size_def)
    have "0 < int (unat (l_sendQuota l))" using assms(3) by (simp add: unat_gt_0 del: of_nat_unat)
    then have "b = [] \<or> 0 < n"
      using False fs unfolding frame_size_def q_def [symmetric] by (cases b) (simp_all del: of_nat_unat)
    moreover have "b = df_h (d\<lparr>df_processing := True\<rparr>) @ rbytes (os_reader (l_strs l1 r)) (l_mem l1)"
      using start(2) by (simp add: b_def f1)
    ultimately obtain ps err l' where w: "write_item E r (d\<lparr>df_processing := True\<rparr>) ds l1 = Some (False, err, l')"
      "concat ps = take n b"
      "err = None \<longrightarrow> sent_data obs i r held n (FrData i (df_endStream d \<and> n = length b) ps) l1 l'"
      using write_item_ok [OF l1(1,7,3,2) refl f1(4), of b n] fs by (auto simp: f1 frame_size_def)
    have "pend l i = Some (pending ?s (l_mem l))" by (rule pend_at [OF assms(1) est])
    then have "err = None \<longrightarrow> data_sent obs i r held n (FrData i (df_endStream d \<and> n = length b) ps) l l'"
      using w(3) l1(4-6) assms(2) work [of l'] by (auto simp: sent_data_def data_sent_def f1 Let_def)
    then show ?thesis using that [OF est d(1), of err l' ps] w(1,2) pd False by (auto simp: Let_def b_def q_def n_def)
  qed
qed

end

end
