(* ===== verification/Loopy_System.thy ===== *)
theory Loopy_System
  imports Loopy_Data
begin

text \<open>
  The loopy writer in its transport: items arrive, data is written, and the rest of the program
  goes on using its own buffers in between. The properties of the writer are stated here, over
  every framer, HPACK encoder and GOAWAY handler; the frames written are recorded.
\<close>

section \<open>No stream waits in vain\<close>

lemma set_alist_delete: "set (AList.delete i es) \<subseteq> set es"
  by (auto simp: AList.delete_eq)

lemma set_alist_update: "set (AList.update i r es) \<subseteq> insert (i, r) (set es)"
  by (induction es) auto

lemma calm_remove: "remove_stream i l = Some l' \<Longrightarrow> calm l l'"
  using set_alist_delete [of i "l_estdStreams l"]
  by (auto simp: remove_stream_def calm_def upd_str_def bind_eq_Some_conv split: option.splits if_splits)

lemma calm_establish: "loopy_ok held l \<Longrightarrow> calm l (establish i (newOutStream i q) l)"
  using set_alist_update [of i "l_next l" "l_estdStreams l"]
  by (fastforce simp: calm_def establish_def newOutStream_def loopy_ok_def split: if_splits)

lemma calm_activate: "calm l (activate r l)"
  by (auto simp: calm_def activate_def upd_str_def)

lemma calm_flags [simp]: "calm l (l\<lparr>l_framer := w\<rparr>)" "calm l (l\<lparr>l_draining := b\<rparr>)" "calm l (l\<lparr>l_framer := w, l_draining := b\<rparr>)"
  by (auto simp: calm_def)

lemma calm_preprocess: "calm l (preprocessData d l)"
  by (auto simp: preprocessData_def calm_def activate_def upd_str_def Let_def split: option.splits)

lemma waits_window_update:
  assumes "waits l"
  shows "waits (incomingWindowUpdateHandler i n l)"
proof (cases "i = 0 \<or> map_of (l_estdStreams l) i = None")
  case True
  then show ?thesis using assms by (auto simp: incomingWindowUpdateHandler_def waits_def waits_ok_def)
next
  case False
  then obtain r where r: "map_of (l_estdStreams l) i = Some r" "i \<noteq> 0" by auto
  define l1 where "l1 = upd_str r (\<lambda>s. s\<lparr>os_bytesOutStanding := os_bytesOutStanding s - int (unat n)\<rparr>) l"
  have eq: "incomingWindowUpdateHandler i n l = (if 0 < int (unat (l_oiws l1)) - os_bytesOutStanding (l_strs l1 r) \<and>
        os_state (l_strs l1 r) = waitingOnStreamQuota then activate r l1 else l1)"
    using r by (simp add: incomingWindowUpdateHandler_def l1_def Let_def)
  have "waits_ok (activate r l1) r" by (simp add: waits_ok_def activate_def upd_str_def)
  then have "waits_ok (incomingWindowUpdateHandler i n l) r"
    unfolding eq by (auto simp: waits_ok_def [of l1] simp del: of_nat_unat)
  moreover have "waits_ok (incomingWindowUpdateHandler i n l) q = waits_ok l q" if "q \<noteq> r" for q
    unfolding eq using that by (simp add: waits_ok_def activate_def l1_def upd_str_def)
  moreover have "l_estdStreams (incomingWindowUpdateHandler i n l) = l_estdStreams l"
    unfolding eq by (simp add: activate_def l1_def upd_str_def)
  ultimately show ?thesis using assms unfolding waits_def by force
qed

lemma reactivate_wakes:
  "l_estdStreams (reactivate es l) = l_estdStreams l \<and>
   (os_state (l_strs (reactivate es l) r) = waitingOnStreamQuota \<longrightarrow>
      os_state (l_strs l r) = waitingOnStreamQuota \<and> r \<notin> snd ` set es)"
proof (induction es arbitrary: l)
  case (Cons e es)
  obtain i q where e: "e = (i, q)" by (cases e)
  define l1 where "l1 = (if os_state (l_strs l q) = waitingOnStreamQuota then activate q l else l)"
  have "os_state (l_strs l1 r) = waitingOnStreamQuota \<longrightarrow> os_state (l_strs l r) = waitingOnStreamQuota \<and> r \<noteq> q"
    "l_estdStreams l1 = l_estdStreams l" by (auto simp: l1_def activate_def upd_str_def)
  moreover have "reactivate (e # es) l = reactivate es l1" by (simp add: e l1_def)
  ultimately show ?case using Cons.IH [of l1] e by auto
qed simp

lemma waits_settings:
  assumes "waits l" and "map_order E"
  shows "waits (applySettings E ss l)"
  using assms(1)
proof (induction ss arbitrary: l)
  case (Cons s ss)
  let ?l = "reactivate (e_order E (l_estdStreams l)) (l\<lparr>l_oiws := set_Val s\<rparr>)"
  have order: "set (e_order E es) = set es" for es
    using assms(2) by (intro mset_eq_setD) (simp add: map_order_def)
  have "os_state (l_strs ?l r) \<noteq> waitingOnStreamQuota" if "(i, r) \<in> set (l_estdStreams ?l)" for i r
  proof -
    have "r \<in> snd ` set (l_estdStreams l)" using that reactivate_wakes [of _ "l\<lparr>l_oiws := set_Val s\<rparr>" r] by force
    then show ?thesis using reactivate_wakes [of "e_order E (l_estdStreams l)" "l\<lparr>l_oiws := set_Val s\<rparr>" r] order by simp
  qed
  then have "waits ?l" by (auto simp: waits_def waits_ok_def)
  moreover have "waits (l\<lparr>l_oiws := set_Val s\<rparr>)" if "\<not> l_oiws l < set_Val s"
  proof -
    have "int (unat (set_Val s)) \<le> int (unat (l_oiws l))" using that by (simp add: word_less_nat_alt del: of_nat_unat)
    then have "waits_ok l r \<Longrightarrow> waits_ok (l\<lparr>l_oiws := set_Val s\<rparr>) r" for r
      unfolding waits_ok_def by (simp del: of_nat_unat) linarith
    then show ?thesis using Cons.prems by (auto simp: waits_def)
  qed
  moreover have "waits (l\<lparr>l_hEnc := h\<rparr>)" for h using Cons.prems by (simp add: waits_def waits_ok_def)
  ultimately have "waits (applySetting E s l)" using Cons.prems by (simp add: applySetting_def Let_def)
  then show ?case using Cons.IH by simp
qed simp

context data_framer
begin

lemma calm_write: "fr_write E f l = (err, l') \<Longrightarrow> calm l l'"
  by (auto simp: fr_write_def calm_def split: prod.splits)

lemma calm_header: "writeHeader E i es hf cb l = (err, l') \<Longrightarrow> calm l l'"
  by (rule calm_quiet [OF quiet_writeHeader])

lemma calm_ev: "calm l (ev e l)"
  by (rule calm_quiet [OF quiet_ev])

lemma calm_cleanup:
  assumes "cleanupStreamHandler E c l = Some (err, l')"
  shows "calm l l'"
proof -
  obtain cb l1 where l1: "remove_stream (cs_streamID c) (ev (EvOnWrite cb) l) = Some l1"
    and "l' = l1 \<or> (\<exists>e. fr_write E (FrRST (cs_streamID c) (cs_rstCode c)) l1 = (e, l'))"
    using assms by (auto simp: cleanupStreamHandler_def bind_eq_Some_conv split: if_splits prod.splits)
  then have "calm l1 l'" using calm_write by auto
  then show ?thesis using calm_trans [OF calm_trans [OF calm_ev calm_remove [OF l1]]] by blast
qed

lemma calm_server_headers:
  assumes "serverHeaderHandler E h l = Some (err, l')"
  shows "calm l l'"
proof (cases "map_of (l_estdStreams l) (sh_streamID h)")
  case None
  then show ?thesis using assms by (simp add: serverHeaderHandler_def)
next
  case (Some r)
  obtain e1 l1 where w: "writeHeader E (sh_streamID h) (sh_endStream h) (sh_hf h) (sh_onWrite h) l = (e1, l1)" by fastforce
  have "calm l (upd_str r (\<lambda>s. s\<lparr>os_trailer := Some h\<rparr>) l)" by (auto simp: calm_def upd_str_def)
  moreover have "calm l l1" by (rule calm_header [OF w])
  moreover have "cleanupStreamHandler E c l1 = Some (err, l') \<Longrightarrow> calm l l'" for c
    using calm_trans [OF calm_header [OF w] calm_cleanup] .
  ultimately show ?thesis
    using assms Some w by (auto simp: serverHeaderHandler_def bind_eq_Some_conv split: if_splits)
qed

lemma calm_client_headers:
  assumes "clientHeaderHandler E h l = Some (err, l')" and "loopy_ok held l"
  shows "calm l l'"
proof (cases "l_draining l")
  case True
  then show ?thesis using assms(1) calm_ev by (auto simp: clientHeaderHandler_def bind_eq_Some_conv)
next
  case False
  then obtain cb where cb: "ch_initStream h = Some cb" using assms(1) by (auto simp: clientHeaderHandler_def bind_eq_Some_conv)
  let ?l = "ev (EvInitStream cb (ch_streamID h)) l"
  obtain e1 l1 where w: "writeHeader E (ch_streamID h) False (ch_hf h) (ch_onWrite h) ?l = (e1, l1)" by fastforce
  have l1: "calm l l1" using calm_trans [OF calm_ev calm_header [OF w]] .
  have "loopy_ok held l1"
    using assms(2) quiet_writeHeader [OF w] io_only_fields(10) [of ?l l1] by (simp add: quiet_def)
  from calm_trans [OF l1 calm_establish [OF this]] show ?thesis
    using assms(1) False cb w l1 calm_ev by (auto simp: clientHeaderHandler_def Let_def split: if_splits)
qed

lemma calm_early_abort:
  assumes "earlyAbortStreamHandler E a l = Some (err, l')"
  shows "calm l l'"
proof -
  obtain e1 l1 where w: "writeHeader E (eas_streamID a) True (eas_hf a) None l = (e1, l1)" by fastforce
  obtain e2 l2 where r: "fr_write E (FrRST (eas_streamID a) 0) l1 = (e2, l2)" by fastforce
  have "calm l l1" "calm l l2" using calm_header [OF w] calm_trans [OF calm_header [OF w] calm_write [OF r]] by blast+
  then show ?thesis using assms w r by (auto simp: earlyAbortStreamHandler_def split: if_splits)
qed

lemma handle_waits:
  assumes "handle E it l = Some (err, l')" and "waits l" and "loopy_ok held l" and "map_order E"
  shows "waits l'"
proof -
  consider (upd) i n where "it = IncomingWindowUpdate i n" | (set) ss where "it = IncomingSettings ss" | (calm) "calm l l'"
  proof (cases it)
    case (Ping ack d)
    then have "calm (if \<not> ack then ev (EvTimesnap d) l else l) l'"
      using assms(1) by (auto simp: pingHandler_def Let_def intro: calm_write)
    moreover have "calm l (if \<not> ack then ev (EvTimesnap d) l else l)" by (simp add: calm_ev)
    ultimately show ?thesis using calm_trans that(3) by blast
  next
    case (GoAway g)
    then show ?thesis using assms(1) that(3)
      by (auto simp: goAwayHandler_def Let_def split: option.splits prod.splits if_splits)
  next
    case IncomingGoAway
    then show ?thesis using assms(1) that(3)
      by (auto simp: incomingGoAwayHandler_def Let_def split: if_splits)
  qed (use assms(1,3) that calm_write calm_server_headers calm_client_headers calm_early_abort calm_cleanup
      calm_establish [OF assms(3)] in
    \<open>auto simp: outgoingWindowUpdateHandler_def outgoingSettingsHandler_def registerStreamHandler_def
      outFlowControlSizeRequestHandler_def outStreamRequestHandler_def calm_ev calm_preprocess\<close>)
  then show ?thesis
  proof cases
    case upd
    then show ?thesis using assms(1,2) waits_window_update by auto
  next
    case set
    then have "calm (applySettings E ss l) l'"
      using assms(1) by (auto simp: incomingSettingsHandler_def intro: calm_write)
    then show ?thesis using waits_calm [OF waits_settings [OF assms(2,4)]] by blast
  qed (rule waits_calm [OF assms(2)])
qed

lemma processData_waits:
  assumes "processData E l = Some (b, None, l')" and "waits l" and "loopy_ok held l"
  shows "waits l'"
proof (cases "l_sendQuota l = 0 \<or> l_activeStreams l = []")
  case True
  then show ?thesis using assms(1,2) by (auto simp: processData_def split: if_splits)
next
  case False
  then obtain r rest where act: "l_activeStreams l = r # rest" and nz: "l_sendQuota l \<noteq> 0"
    by (cases "l_activeStreams l") auto
  have "works_on r l l'"
    by (rule processData_ok [OF assms(3) act nz])
      (use assms(1) in \<open>simp add: Let_def parked_def data_sent_def split: if_splits\<close>)
  then show ?thesis by (rule waits_works_on [OF assms(2)])
qed

end

section \<open>The observed framer\<close>

definition observed :: "'w loopy_env \<Rightarrow> ('w \<times> frame list) loopy_env" where
  "observed E = \<lparr>
     e_write = (\<lambda>f (w, fs). let (err, w') = e_write E f w in (err, (w', fs @ [f]))),
     e_flush = (\<lambda>(w, fs). (e_flush E w, fs)),
     e_offset = (\<lambda>(w, fs). e_offset E w),
     e_hpack = e_hpack E,
     e_initStream = e_initStream E,
     e_ssGoAway = map_option (\<lambda>h g (w, fs). let (b, err, w') = h g w in (b, err, (w', fs))) (e_ssGoAway E),
     e_order = e_order E\<rparr>"

definition data_frames :: "'w \<times> frame list \<Rightarrow> frame list" where
  "data_frames w = filter is_data (snd w)"

interpretation obs: data_framer "observed E" data_frames for E
  by unfold_locales (auto simp: observed_def data_frames_def split: prod.splits)

lemma map_order_observed [simp]: "map_order (observed E) = map_order E"
  by (simp add: map_order_def observed_def)

fun data_on :: "uint32 \<Rightarrow> frame \<Rightarrow> byte list" where
  "data_on i (FrData j es ps) = (if i = j then concat ps else [])"
| "data_on i _ = []"

fun data_len :: "frame \<Rightarrow> nat" where
  "data_len (FrData j es ps) = length (concat ps)"
| "data_len _ = 0"

text \<open>The data bytes written so far, on one stream and in all.\<close>

definition sent :: "uint32 \<Rightarrow> ('w \<times> frame list) loopyWriter \<Rightarrow> byte list" where
  "sent i l = concat (map (data_on i) (data_frames (l_framer l)))"

definition total_sent :: "('w \<times> frame list) loopyWriter \<Rightarrow> nat" where
  "total_sent l = sum_list (map data_len (data_frames (l_framer l)))"

section \<open>Interleavings\<close>

record 'w loopy_sys =
  y_l :: "('w \<times> frame list) loopyWriter"
  y_held :: "addr multiset"
  y_used :: "uint32 set"
  y_given :: "uint32 \<Rightarrow> byte list"
  y_granted :: nat

text \<open>
  \<open>y_held\<close> are the buffer references of the rest of the program, \<open>y_used\<close> the stream identifiers
  used so far, \<open>y_given\<close> the bytes handed to the writer for each stream and \<open>y_granted\<close> the
  connection window granted by the peer.
\<close>

definition item_done :: "cbItem \<Rightarrow> ('w \<times> frame list) loopyWriter \<Rightarrow> 'w loopy_sys \<Rightarrow> 'w loopy_sys" where
  "item_done it l' y = y\<lparr>y_l := l', y_held := y_held y - taken it (y_l y), y_used := y_used y \<union> new_ids it,
     y_given := (\<lambda>i. y_given y i @ (if pend (y_l y) i = None then [] else added it (l_mem (y_l y)) i)),
     y_granted := y_granted y + unat (grant it)\<rparr>"

inductive loopy_step :: "'w loopy_env \<Rightarrow> 'w loopy_sys \<Rightarrow> 'w loopy_sys \<Rightarrow> bool" for E where
  others: "mem_ok m (held + estd_refs (l_estdStreams (y_l y)) (l_strs (y_l y))) \<Longrightarrow>
    same_bytes (estd_refs (l_estdStreams (y_l y)) (l_strs (y_l y))) (l_mem (y_l y)) m \<Longrightarrow>
    loopy_step E y (y\<lparr>y_l := (y_l y)\<lparr>l_mem := m\<rparr>, y_held := held\<rparr>)"
| item: "fits (y_used y) (y_held y) it \<Longrightarrow> unat (l_sendQuota (y_l y)) + unat (grant it) < 2 ^ 32 \<Longrightarrow>
    handle (observed E) it (y_l y) = Some (None, l') \<Longrightarrow>
    loopy_step E y (item_done it l' y)"
| write_data: "processData (observed E) (y_l y) = Some (b, None, l') \<Longrightarrow> loopy_step E y (y\<lparr>y_l := l'\<rparr>)"
| flush: "loopy_step E y (y\<lparr>y_l := (y_l y)\<lparr>l_framer := e_flush (observed E) (l_framer (y_l y))\<rparr>\<rparr>)"

definition loopy_start :: "'w loopy_env \<Rightarrow> 'w loopy_sys \<Rightarrow> bool" where
  "loopy_start E y \<longleftrightarrow> map_order E \<and>
     (\<exists>sd w m. mem_ok m (y_held y) \<and> y_l y = newLoopyWriter sd (w, []) m) \<and>
     y_used y = {} \<and> y_given y = (\<lambda>_. []) \<and> y_granted y = 0"

section \<open>Invariant\<close>

definition loopy_inv :: "'w loopy_env \<Rightarrow> 'w loopy_sys \<Rightarrow> bool" where
  "loopy_inv E y \<longleftrightarrow>
     map_order E \<and> loopy_ok (y_held y) (y_l y) \<and> waits (y_l y) \<and> fst ` set (l_estdStreams (y_l y)) \<subseteq> y_used y \<and>
     (\<forall>i b. pend (y_l y) i = Some b \<longrightarrow> sent i (y_l y) @ b = y_given y i) \<and>
     (\<forall>i. prefix (sent i (y_l y)) (y_given y i)) \<and>
     (\<forall>i. i \<notin> y_used y \<longrightarrow> y_given y i = []) \<and>
     unat (l_sendQuota (y_l y)) + total_sent (y_l y) = 65535 + y_granted y"

lemma keys_pend: "i \<in> fst ` set (l_estdStreams l) \<longleftrightarrow> pend l i \<noteq> None"
  by (simp add: pend_def map_of_eq_None_iff)

lemma loopy_inv_start: "loopy_start E y \<Longrightarrow> loopy_inv E y"
  by (auto simp: loopy_start_def loopy_inv_def loopy_ok_def newLoopyWriter_def waits_def pend_def sent_def total_sent_def
      data_frames_def defaultWindowSize_def)

lemma loopy_inv_others:
  assumes "loopy_inv E y" and "mem_ok m (held + estd_refs (l_estdStreams (y_l y)) (l_strs (y_l y)))"
    and "same_bytes (estd_refs (l_estdStreams (y_l y)) (l_strs (y_l y))) (l_mem (y_l y)) m"
  shows "loopy_inv E (y\<lparr>y_l := (y_l y)\<lparr>l_mem := m\<rparr>, y_held := held\<rparr>)"
proof -
  let ?l = "y_l y"
  have ok: "loopy_ok (y_held y) ?l" using assms(1) by (simp add: loopy_inv_def)
  have each: "stream_ok j (l_strs ?l q) m \<and> pending (l_strs ?l q) m = pending (l_strs ?l q) (l_mem ?l)"
    if "(j, q) \<in> set (l_estdStreams ?l)" for j q
    using stream_same [OF same_bytes_sub [OF assms(3) refs_within [OF that]]] loopy_stream(1) [OF ok that] by blast
  have "loopy_ok held (?l\<lparr>l_mem := m\<rparr>)" using ok each assms(2) by (auto simp: loopy_ok_def)
  moreover have "pend (?l\<lparr>l_mem := m\<rparr>) = pend ?l" using each by (intro pend_same) auto
  moreover have "waits (?l\<lparr>l_mem := m\<rparr>) = waits ?l" by (simp add: waits_def waits_ok_def)
  moreover have "sent i (?l\<lparr>l_mem := m\<rparr>) = sent i ?l" "total_sent (?l\<lparr>l_mem := m\<rparr>) = total_sent ?l" for i
    by (simp_all add: sent_def total_sent_def)
  ultimately show ?thesis using assms(1) by (simp add: loopy_inv_def)
qed

lemma fits_new: "fits used held it \<Longrightarrow> i \<in> new_ids it \<Longrightarrow> i \<notin> used"
  by (cases it) auto

lemma sent_same: "data_frames (l_framer l') = data_frames (l_framer l) \<Longrightarrow> sent i l' = sent i l \<and> total_sent l' = total_sent l"
  by (simp add: sent_def total_sent_def)

lemma loopy_inv_item:
  assumes inv: "loopy_inv E y" and fit: "fits (y_used y) (y_held y) it"
    and "unat (l_sendQuota (y_l y)) + unat (grant it) < 2 ^ 32" and h: "handle (observed E) it (y_l y) = Some (None, l')"
  shows "loopy_inv E (item_done it l' y)"
proof -
  let ?l = "y_l y"
  have ok: "loopy_ok (y_held y) ?l" "map_order (observed E)" "fst ` set (l_estdStreams ?l) \<subseteq> y_used y"
    and given: "\<And>i b. pend ?l i = Some b \<Longrightarrow> sent i ?l @ b = y_given y i" "\<And>i. prefix (sent i ?l) (y_given y i)"
      "\<And>i. i \<notin> y_used y \<Longrightarrow> y_given y i = []"
    using inv by (simp_all add: loopy_inv_def)
  have hd: "handled data_frames it (y_held y) ?l l'" using obs.handle_ok [OF ok(1,2) fit ok(3)] h by simp
  then have snt: "sent i l' = sent i ?l" "total_sent l' = total_sent ?l" for i
    using sent_same [of l' ?l] by (simp_all add: handled_def)
  have pd: "(\<exists>b. pend ?l j = Some b \<and> b' = b @ added it (l_mem ?l) j) \<or> pend ?l j = None \<and> j \<in> new_ids it \<and> b' = []"
    if "pend l' j = Some b'" for j b' using hd that by (simp add: handled_def)
  have unused: "pend ?l i = None" if "i \<notin> y_used y" for i using ok(3) that keys_pend [of i ?l] by blast
  have "sent i ?l @ b = y_given y i @ (if pend ?l i = None then [] else added it (l_mem ?l) i)" if "pend l' i = Some b" for i b
    using pd [OF that]
  proof
    assume "pend ?l i = None \<and> i \<in> new_ids it \<and> b = []"
    then show ?thesis using given(2) [of i] given(3) [of i] fits_new [OF fit, of i] by simp
  qed (use given(1) [of i] in auto)
  moreover have "fst ` set (l_estdStreams l') \<subseteq> y_used y \<union> new_ids it"
    using pd ok(3) unfolding subset_iff keys_pend by fastforce
  moreover have "unat (l_sendQuota l') = unat (l_sendQuota ?l) + unat (grant it)"
    using hd assms(3) by (simp add: handled_def unat_word_ariths)
  moreover have "waits l'" using obs.handle_waits [OF h _ ok(1,2)] inv by (simp add: loopy_inv_def)
  ultimately show ?thesis using inv hd unused by (simp add: loopy_inv_def item_done_def handled_def snt)
qed

lemma nat_frame_size: "nat (frame_size l s b) \<le> length b" "nat (frame_size l s b) \<le> unat (l_sendQuota l)"
  by (simp_all add: frame_size_def nat_le_iff del: of_nat_unat)

lemma loopy_inv_sent:
  assumes inv: "loopy_inv E y" and est: "(i, r) \<in> set (l_estdStreams (y_l y))"
    and "os_data (l_strs (y_l y) r) = d # ds" and "c = item_bytes (l_strs (y_l y) r) d (l_mem (y_l y))"
    and "n \<le> length c" and "n \<le> unat (l_sendQuota (y_l y))" and ps: "concat ps = take n c"
    and sent: "data_sent data_frames i r (y_held y) n (FrData i es ps) (y_l y) l'" and "waits l'"
  shows "loopy_inv E (y\<lparr>y_l := l'\<rparr>)"
proof -
  let ?l = "y_l y"
  have ok: "loopy_ok (y_held y) ?l" using inv by (simp add: loopy_inv_def)
  have "prefix c (pending (l_strs ?l r) (l_mem ?l))" using assms(3,4) by (simp add: pending_def item_bytes_def)
  then obtain B where B: "pend ?l i = Some B" "take n c = take n B" "n \<le> length B"
    using pend_at [OF ok est] assms(5) by (auto simp: prefix_def)
  have fr: "data_frames (l_framer l') = data_frames (l_framer ?l) @ [FrData i es ps]" using sent by (simp add: data_sent_def)
  then have snt: "sent j l' = sent j ?l @ (if j = i then take n B else [])" "total_sent l' = total_sent ?l + n" for j
    using ps B assms(5) by (simp_all add: sent_def total_sent_def)
  have pd: "pend l' = (pend ?l)(i \<mapsto> drop n B) \<or> pend l' = (pend ?l)(i := None)" using sent B(1) by (auto simp: data_sent_def)
  then have "sent j l' @ b = y_given y j" if "pend l' j = Some b" for j b
    using inv that B(1) by (cases "j = i") (auto simp: loopy_inv_def snt)
  moreover have "prefix (sent j l') (y_given y j)" for j
  proof (cases "j = i")
    case True
    have "y_given y i = (sent i ?l @ take n B) @ drop n B" using inv B(1) by (simp add: loopy_inv_def)
    then show ?thesis using True snt(1) [of i] by (metis prefixI)
  qed (use inv in \<open>simp add: loopy_inv_def snt\<close>)
  moreover have "fst ` set (l_estdStreams l') \<subseteq> y_used y"
    using pd inv B(1) unfolding loopy_inv_def subset_iff keys_pend by (auto split: if_splits)
  moreover have "unat (l_sendQuota ?l) < 2 ^ 32" using unsigned_less [of "l_sendQuota ?l"] by simp
  then have "unat (of_nat n :: uint32) = n" using assms(6) by (simp add: unat_of_nat)
  then have "unat (l_sendQuota l') + n = unat (l_sendQuota ?l)"
    using sent assms(6) by (simp add: data_sent_def unat_sub word_le_nat_alt)
  ultimately show ?thesis using inv sent assms(9) by (simp add: loopy_inv_def data_sent_def snt)
qed

lemma loopy_inv_data:
  assumes inv: "loopy_inv E y" and pd: "processData (observed E) (y_l y) = Some (b, None, l')"
  shows "loopy_inv E (y\<lparr>y_l := l'\<rparr>)"
proof (cases "l_sendQuota (y_l y) = 0 \<or> l_activeStreams (y_l y) = []")
  case True
  then have "l' = y_l y" using pd by (auto simp: processData_def split: if_splits)
  then show ?thesis using inv by simp
next
  case False
  let ?l = "y_l y"
  have ok: "loopy_ok (y_held y) ?l" using inv by (simp add: loopy_inv_def)
  have w: "waits l'" using obs.processData_waits [OF pd _ ok] inv by (simp add: loopy_inv_def)
  obtain r rest where act: "l_activeStreams ?l = r # rest" and nz: "l_sendQuota ?l \<noteq> 0"
    using False by (cases "l_activeStreams ?l") auto
  obtain i d ds ps err l2 where est: "(i, r) \<in> set (l_estdStreams ?l)" and d: "os_data (l_strs ?l r) = d # ds"
    and "processData (observed E) ?l = Some (False, err, l2)"
    and res: "let s = l_strs ?l r; b = item_bytes s d (l_mem ?l); n = nat (frame_size ?l s b)
         in if int (unat (l_oiws ?l)) \<le> os_bytesOutStanding s \<and> b \<noteq> []
            then err = None \<and> parked r (y_held y) ?l l2
            else concat ps = take n b \<and>
              (err = None \<longrightarrow> data_sent data_frames i r (y_held y) n (FrData i (df_endStream d \<and> n = length b) ps) ?l l2)"
    by (rule obs.processData_ok [OF ok act nz])
  then have l2: "err = None" "l2 = l'" using pd by simp_all
  show ?thesis
  proof (cases "parked r (y_held y) ?l l'")
    case True
    then show ?thesis using inv w sent_same [of l' ?l] by (auto simp: parked_def loopy_inv_def keys_pend subset_iff)
  next
    case False
    define c where "c = item_bytes (l_strs ?l r) d (l_mem ?l)"
    define n where "n = nat (frame_size ?l (l_strs ?l r) c)"
    have sent: "concat ps = take n c" "data_sent data_frames i r (y_held y) n (FrData i (df_endStream d \<and> n = length c) ps) ?l l'"
      using res False l2 by (auto simp: Let_def c_def n_def split: if_splits)
    have n: "n \<le> length c" "n \<le> unat (l_sendQuota ?l)" using nat_frame_size [of ?l "l_strs ?l r" c] by (simp_all add: n_def)
    show ?thesis by (rule loopy_inv_sent [OF inv est d c_def n sent w])
  qed
qed

lemma loopy_inv_step:
  assumes "loopy_inv E y" and "loopy_step E y z"
  shows "loopy_inv E z"
  using assms(2)
proof cases
  case flush
  let ?l = "(y_l y)\<lparr>l_framer := e_flush (observed E) (l_framer (y_l y))\<rparr>"
  have "sent i ?l = sent i (y_l y) \<and> total_sent ?l = total_sent (y_l y)" for i
    by (rule sent_same) (simp add: obs.obs_flush)
  moreover have "pend ?l = pend (y_l y)" "waits ?l = waits (y_l y)" by (simp_all add: pend_def fun_eq_iff waits_def waits_ok_def)
  ultimately show ?thesis using assms(1) flush by (simp add: loopy_inv_def)
qed (use assms(1) loopy_inv_others loopy_inv_item loopy_inv_data in auto)

interpretation loopy: inductive_invariant "loopy_start E" "loopy_step E" "loopy_inv E" for E
  by unfold_locales (erule loopy_inv_start, erule (1) loopy_inv_step)

section \<open>The inner loop\<close>

lemma loopy_run_ends:
  assumes "loopy_ok held l"
  shows "\<exists>k res l'. k \<le> weight l + 2 \<and> loopy_run (observed E) (HasData g) (replicate k GotNil) l = Some (res, l') \<and>
    (res = Running Outer \<or> (\<exists>e. res = Exited (Some e)))"
  using assms
proof (induction "weight l" arbitrary: l rule: less_induct)
  case less
  show ?case
  proof (cases "l_sendQuota l = 0 \<or> l_activeStreams l = []")
    case True
    then have pd: "processData (observed E) l = Some (True, None, l)" by (auto simp: processData_def)
    then have "loopy_run (observed E) (HasData False) [GotNil] l =
        Some (Running Outer, l\<lparr>l_framer := e_flush (observed E) (l_framer l)\<rparr>)" by simp
    then show ?thesis using pd
      by (cases "g \<and> e_offset (observed E) (l_framer l) < minBatchSize")
        (rule exI [of _ 2], simp add: numeral_2_eq_2, rule exI [of _ 1], auto)
  next
    case False
    then obtain r rest where act: "l_activeStreams l = r # rest" and nz: "l_sendQuota l \<noteq> 0"
      by (cases "l_activeStreams l") auto
    have "\<exists>err l'. processData (observed E) l = Some (False, err, l') \<and> (err = None \<longrightarrow> loopy_ok held l' \<and> weight l' < weight l)"
      by (rule obs.processData_ok [OF less.prems act nz]) (auto simp: Let_def parked_def data_sent_def split: if_splits)
    then obtain err l' where pd: "processData (observed E) l = Some (False, err, l')"
      and l': "err = None \<longrightarrow> loopy_ok held l' \<and> weight l' < weight l" by blast
    show ?thesis
    proof (cases err)
      case None
      then obtain k res l2 where "k \<le> weight l' + 2" "loopy_run (observed E) (HasData g) (replicate k GotNil) l' = Some (res, l2)"
        "res = Running Outer \<or> (\<exists>e. res = Exited (Some e))" using less.hyps l' by blast
      then show ?thesis using pd None l' by (intro exI [of _ "Suc k"]) auto
    qed (use pd in \<open>intro exI [of _ 1], auto\<close>)
  qed
qed

lemma fragments_upto: "concat (map (fragment b) [0..<n]) = take (n * 16384) b"
  by (induction n) (simp_all add: fragment_def take_add add.commute [of 16384])

lemma fragments_concat: "concat (map (fragment b) [0..<n_fragments b]) = b"
proof -
  have "length b \<le> n_fragments b * 16384" unfolding n_fragments_def by linarith
  then show ?thesis by (simp add: fragments_upto)
qed

section \<open>Properties\<close>

text \<open>A run used by the witnesses: a server stream is registered and gets a message of three bytes.\<close>

definition demo_env :: "unit loopy_env" where
  "demo_env = \<lparr>e_write = (\<lambda>f w. (None, w)), e_flush = (\<lambda>w. w), e_offset = (\<lambda>w. 0), e_hpack = (\<lambda>h f. []),
     e_initStream = (\<lambda>cb i. None), e_ssGoAway = None, e_order = (\<lambda>es. es)\<rparr>"

definition demo_y0 :: "unit loopy_sys" where
  "demo_y0 = \<lparr>y_l = newLoopyWriter serverSide ((), []) mem0, y_held = {#}, y_used = {}, y_given = (\<lambda>_. []), y_granted = 0\<rparr>"

definition demo_reg :: cbItem where
  "demo_reg = RegisterStream \<lparr>rs_streamID = 1, rs_wq = 0\<rparr>"

definition demo_msg :: cbItem where
  "demo_msg = DataFrame \<lparr>df_streamID = 1, df_endStream = True, df_h = [7, 8, 9], df_data = [], df_processing = False,
     df_onEachWrite = None\<rparr>"

definition demo_next :: "cbItem \<Rightarrow> unit loopy_sys \<Rightarrow> unit loopy_sys" where
  "demo_next it y = item_done it (snd (the (handle (observed demo_env) it (y_l y)))) y"

definition demo_y1 :: "unit loopy_sys" where
  "demo_y1 = demo_next demo_reg demo_y0"

definition demo_y2 :: "unit loopy_sys" where
  "demo_y2 = demo_next demo_msg demo_y1"

lemmas demo_loopy = demo_y2_def demo_y1_def demo_y0_def demo_next_def demo_reg_def demo_msg_def item_done_def
  newLoopyWriter_def registerStreamHandler_def establish_def newOutStream_def preprocessData_def upd_str_def activate_def

lemma demo_y1_l: "y_l demo_y1 = registerStreamHandler \<lparr>rs_streamID = 1, rs_wq = 0\<rparr> (y_l demo_y0)"
  "y_used demo_y1 = {1}" "y_held demo_y1 = {#}"
  by (simp_all add: demo_y1_def demo_next_def demo_reg_def item_done_def) (simp_all add: demo_y0_def)

lemma demo_loopy_reach: "reach (loopy_start demo_env) (loopy_step demo_env) demo_y2"
proof -
  have "mem_ok mem0 {#}" using bufinv.reachable_inv [OF reach_start, of "(mem0, {#})"] by (simp add: buf_initial_def)
  then have "loopy_start demo_env demo_y0"
    unfolding loopy_start_def map_order_def by (auto simp: demo_env_def demo_y0_def)
  then have 0: "reach (loopy_start demo_env) (loopy_step demo_env) demo_y0" by (rule reach_start)
  have "loopy_step demo_env demo_y0 demo_y1" unfolding demo_y1_def demo_next_def
    by (rule item) (simp_all add: demo_reg_def demo_y0_def newLoopyWriter_def defaultWindowSize_def)
  then have 1: "reach (loopy_start demo_env) (loopy_step demo_env) demo_y1" by (rule reach_more [OF 0])
  have "loopy_step demo_env demo_y1 demo_y2" unfolding demo_y2_def demo_next_def
    by (rule item) (simp_all add: demo_msg_def demo_y1_l demo_y0_def registerStreamHandler_def establish_def newLoopyWriter_def
        defaultWindowSize_def)
  then show ?thesis by (rule reach_more [OF 1])
qed

lemma demo_y2_facts:
  "l_activeStreams (y_l demo_y2) = [0]" "l_sendQuota (y_l demo_y2) = 65535" "l_estdStreams (y_l demo_y2) = [(1, 0)]"
  "y_given demo_y2 1 = [7, 8, 9]" "os_data (l_strs (y_l demo_y2) 0) \<noteq> []" "y_granted demo_y2 = 0"
  by (simp_all add: demo_loopy defaultWindowSize_def pend_def frame_bytes_def)

text \<open>
  C1: The bytes of every stream go out exactly once and in order: however the arrival of control
  items, the writing of data and the rest of the program interleave, the payloads of the DATA
  frames written for a stream are a prefix of the messages handed to the writer for it, and while
  the stream is established what it has still to send is precisely the rest.
\<close>

theorem stream_bytes_in_order:
  assumes "reach (loopy_start E) (loopy_step E) y"
  shows "prefix (sent i (y_l y)) (y_given y i) \<and>
    (\<forall>b. pend (y_l y) i = Some b \<longrightarrow> sent i (y_l y) @ b = y_given y i)"
  using loopy.reachable_inv [OF assms] by (simp add: loopy_inv_def)

theorem stream_bytes_in_order_witness: "prefix (sent 1 (y_l demo_y2)) [7, 8, 9]"
  using stream_bytes_in_order [OF demo_loopy_reach, of 1] demo_y2_facts(4) by simp

text \<open>
  C3: The peer's connection window is never exceeded: the DATA bytes written and the remaining
  send quota add up to the initial window of 65535 bytes and all increments received, as long as
  the increments themselves stay in the 32-bit range of the quota.
\<close>

theorem connection_window_respected:
  assumes "reach (loopy_start E) (loopy_step E) y"
  shows "total_sent (y_l y) + unat (l_sendQuota (y_l y)) = 65535 + y_granted y"
  using loopy.reachable_inv [OF assms] by (simp add: loopy_inv_def)

theorem connection_window_respected_witness: "total_sent (y_l demo_y2) = 0"
  using connection_window_respected [OF demo_loopy_reach] demo_y2_facts(2,6) by simp

text \<open>
  C2: No stream is forgotten: an established stream with data is on the list of active streams,
  or it waits for stream quota and its stream window really is exhausted. Window updates and
  growing initial windows wake up exactly the streams that can go on.
\<close>

theorem no_stream_stuck:
  assumes "reach (loopy_start E) (loopy_step E) y" and "(i, r) \<in> set (l_estdStreams (y_l y))"
    and "os_data (l_strs (y_l y) r) \<noteq> []"
  shows "r \<in> set (l_activeStreams (y_l y)) \<or> os_state (l_strs (y_l y) r) = waitingOnStreamQuota \<and>
    int (unat (l_oiws (y_l y))) \<le> os_bytesOutStanding (l_strs (y_l y) r)"
proof -
  have inv: "loopy_ok (y_held y) (y_l y)" "waits (y_l y)"
    using loopy.reachable_inv [OF assms(1)] by (simp_all add: loopy_inv_def)
  have "os_state (l_strs (y_l y) r) \<noteq> empty_state"
    using loopy_stream(1) [OF inv(1) assms(2)] assms(3) by (simp add: stream_ok_def)
  moreover have "waits_ok (y_l y) r" using inv(2) assms(2) by (auto simp: waits_def)
  ultimately show ?thesis
    using active_iff [OF inv(1) assms(2)] by (cases "os_state (l_strs (y_l y) r)") (simp_all add: waits_ok_def)
qed

theorem no_stream_stuck_witness: "(1, 0) \<in> set (l_estdStreams (y_l demo_y2)) \<and>
  (0 \<in> set (l_activeStreams (y_l demo_y2)) \<or> os_state (l_strs (y_l demo_y2) 0) = waitingOnStreamQuota \<and>
    int (unat (l_oiws (y_l demo_y2))) \<le> os_bytesOutStanding (l_strs (y_l demo_y2) 0))"
  using no_stream_stuck [OF demo_loopy_reach, of 1 0] demo_y2_facts(3,5) by simp

text \<open>
  C4: The loopy writer never panics: in every reachable state handling any item its producers may
  queue and writing data both return, possibly with an error.
\<close>

theorem loopy_never_panics:
  assumes "reach (loopy_start E) (loopy_step E) y" and "fits (y_used y) (y_held y) it"
  shows "(\<exists>err l'. handle (observed E) it (y_l y) = Some (err, l')) \<and>
    (\<exists>b err l'. processData (observed E) (y_l y) = Some (b, err, l'))"
proof
  have ok: "loopy_ok (y_held y) (y_l y)" "map_order (observed E)" "fst ` set (l_estdStreams (y_l y)) \<subseteq> y_used y"
    using loopy.reachable_inv [OF assms(1)] by (simp_all add: loopy_inv_def)
  from obs.handle_ok [OF ok(1,2) assms(2) ok(3)] show "\<exists>err l'. handle (observed E) it (y_l y) = Some (err, l')" by blast
  show "\<exists>b err l'. processData (observed E) (y_l y) = Some (b, err, l')"
  proof (cases "l_sendQuota (y_l y) = 0 \<or> l_activeStreams (y_l y) = []")
    case False
    then obtain r rest where "l_activeStreams (y_l y) = r # rest" "l_sendQuota (y_l y) \<noteq> 0"
      by (cases "l_activeStreams (y_l y)") auto
    then show ?thesis by (rule obs.processData_ok [OF ok(1)]) blast
  qed (auto simp: processData_def)
qed

theorem loopy_never_panics_witness:
  "\<exists>err l'. handle (observed demo_env) (IncomingWindowUpdate 1 4) (y_l demo_y2) = Some (err, l')"
  using loopy_never_panics [OF demo_loopy_reach, of "IncomingWindowUpdate 1 4"] by simp



text \<open>
  C6: The inner loop of \<open>run\<close> ends: from every reachable state, if no more control items arrive,
  the loop writes what the windows allow and then flushes and goes back to the blocking \<open>get\<close>, or
  exits with an error, after a number of rounds bounded by the bytes, messages and active streams
  that are left.
\<close>

theorem inner_loop_terminates:
  assumes "reach (loopy_start E) (loopy_step E) y"
  shows "\<exists>k res l'. k \<le> weight (y_l y) + 2 \<and>
    loopy_run (observed E) (HasData g) (replicate k GotNil) (y_l y) = Some (res, l') \<and>
    (res = Running Outer \<or> (\<exists>e. res = Exited (Some e)))"
  using loopy_run_ends loopy.reachable_inv [OF assms] by (auto simp: loopy_inv_def)

theorem inner_loop_terminates_witness:
  "\<exists>k res l'. loopy_run (observed demo_env) (HasData True) (replicate k GotNil) (y_l demo_y2) = Some (res, l')"
  using inner_loop_terminates [OF demo_loopy_reach, of True] by blast

text \<open>
  C7: \<open>writeHeader\<close> is equivalent to writing the HPACK block cut into pieces of 16384 bytes, the
  first as a HEADERS frame and the others as CONTINUATION frames of the same stream, END_HEADERS
  on the last one only, up to the first write error. The pieces make up the block.
\<close>

theorem header_block_in_frames:
  "let l0 = (case onWrite of None \<Rightarrow> l | Some cb \<Rightarrow> ev (EvOnWrite cb) l);
       (block, h) = encode_fields E hf [] (l_hEnc l0)
   in writeHeader E i es hf onWrite l = write_frames E (map (header_frame i es block) [0..<n_fragments block]) (l0\<lparr>l_hEnc := h\<rparr>) \<and>
      concat (map (fragment block) [0..<n_fragments block]) = block \<and> length (fragment block k) \<le> 16384"
proof -
  have upt: "[0..<n_fragments block] = 0 # [1..<n_fragments block]" for block
    by (simp add: n_fragments_def upt_conv_Cons)
  have "head_frame i es True block # tail_frames i block = map (header_frame i es block) [0..<n_fragments block]" for block
    unfolding upt by (auto simp: head_frame_def tail_frames_def header_frame_def)
  moreover have "length (fragment block k) \<le> 16384" for block by (simp add: fragment_def)
  ultimately show ?thesis
    by (auto simp: writeHeader_def write_fragments_eq fragments_concat Let_def split: prod.splits option.splits)
qed



text \<open>
  A data frame for a stream that is not established is dropped without releasing its buffers,
  whose references the writing goroutine took for it.
\<close>

lemma dropped_data_not_freed:
  assumes "map_of (l_estdStreams l) (df_streamID d) = None"
  shows "handle E (DataFrame d) l = Some (None, l)"
  using assms by (simp add: preprocessData_def)

end
