(* ===== verification/Http_Util.thy ===== *)
theory Http_Util
  imports Go_Prelude
begin

text \<open>
  Header handling shared by both transports (\<^verbatim>\<open>internal/transport/http_util.go\<close> and
  \<^verbatim>\<open>internal/grpcutil\<close>): which headers are reserved, binary header values, the grpc-timeout and
  grpc-message encodings, method names and content types. Go strings are byte sequences, so they
  are \<open>string\<close>s here; the functions of the standard library that are used (\<open>strconv\<close>, \<open>strings\<close>,
  \<open>encoding/base64\<close>, \<open>unicode/utf8\<close>) are modelled as far as they are used.
\<close>

section \<open>Numbers and strings\<close>

type_synonym 'a go_result = "string + 'a"

text \<open>\<open>strconv.FormatInt\<close> in base 10 for numbers that are not negative.\<close>

function FormatInt :: "nat \<Rightarrow> string" where
  "FormatInt n = (if n < 10 then [char_of (48 + n)] else FormatInt (n div 10) @ [char_of (48 + n mod 10)])"
  by pat_completeness auto
termination
  by (relation "measure id") auto

declare FormatInt.simps [simp del]

definition digit_val :: "char \<Rightarrow> nat option" where
  "digit_val c = (let n = of_char c in if 48 \<le> n \<and> n \<le> 57 then Some (n - 48) else None)"

fun parse_digits :: "string \<Rightarrow> nat \<Rightarrow> nat option" where
  "parse_digits [] acc = Some acc"
| "parse_digits (c # cs) acc = (case digit_val c of None \<Rightarrow> None | Some d \<Rightarrow> parse_digits cs (acc * 10 + d))"

text \<open>\<open>strconv.ParseUint(s, 10, 64)\<close>: digits only, at least one, and a value of 64 bits.\<close>

definition ParseUint :: "string \<Rightarrow> nat go_result" where
  "ParseUint s =
     (case (if s = [] then None else parse_digits s 0) of
        None \<Rightarrow> Inl ''strconv.ParseUint: invalid syntax''
      | Some n \<Rightarrow> if n < 2 ^ 64 then Inr n else Inl ''strconv.ParseUint: value out of range'')"

definition HasPrefix :: "string \<Rightarrow> string \<Rightarrow> bool" where
  "HasPrefix s p = (take (length p) s = p)"

definition HasSuffix :: "string \<Rightarrow> string \<Rightarrow> bool" where
  "HasSuffix s p = (length p \<le> length s \<and> drop (length s - length p) s = p)"

text \<open>\<open>strconv.ParseInt(s, 10, bits)\<close>: an optional sign and digits, and a value in the range.\<close>

definition ParseInt :: "nat \<Rightarrow> string \<Rightarrow> int go_result" where
  "ParseInt bits s =
     (let neg = HasPrefix s ''-''; digits = (if neg \<or> HasPrefix s ''+'' then drop 1 s else s)
      in case (if digits = [] then None else parse_digits digits 0) of
           None \<Rightarrow> Inl ''strconv.ParseInt: invalid syntax''
         | Some n \<Rightarrow>
             let i = (if neg then - int n else int n)
             in if - (2 ^ (bits - 1)) \<le> i \<and> i < 2 ^ (bits - 1) then Inr i else Inl ''strconv.ParseInt: value out of range'')"

section \<open>Classes of headers\<close>

definition isReservedHeader :: "string \<Rightarrow> bool" where
  "isReservedHeader hdr =
     (if hdr \<noteq> [] \<and> hd hdr = CHR '':'' then True
      else hdr \<in> set [''content-type'', ''user-agent'', ''grpc-message-type'', ''grpc-encoding'', ''grpc-message'',
        ''grpc-status'', ''grpc-timeout'', ''te''])"

definition isWhitelistedHeader :: "string \<Rightarrow> bool" where
  "isWhitelistedHeader hdr = (hdr \<in> set ['':authority'', ''user-agent''])"

section \<open>Binary headers\<close>

text \<open>The standard base64 alphabet, and \<open>RawStdEncoding.EncodeToString\<close>, without padding.\<close>

definition b64_char :: "nat \<Rightarrow> char" where
  "b64_char n =
     char_of (if n < 26 then 65 + n else if n < 52 then 71 + n else if n < 62 then n - 4 else if n = 62 then 43 else 47)"

definition b64_val :: "char \<Rightarrow> nat option" where
  "b64_val c =
     (let n = of_char c in
      if 65 \<le> n \<and> n \<le> 90 then Some (n - 65) else if 97 \<le> n \<and> n \<le> 122 then Some (n - 71)
      else if 48 \<le> n \<and> n \<le> 57 then Some (n + 4) else if n = 43 then Some 62 else if n = 47 then Some 63 else None)"

fun raw_encode :: "string \<Rightarrow> string" where
  "raw_encode (a # b # c # cs) =
     (let n = of_char a * 65536 + of_char b * 256 + of_char c
      in b64_char (n div 262144) # b64_char (n div 4096 mod 64) # b64_char (n div 64 mod 64) # b64_char (n mod 64) # raw_encode cs)"
| "raw_encode [a, b] =
     (let n = of_char a * 65536 + of_char b * 256
      in [b64_char (n div 262144), b64_char (n div 4096 mod 64), b64_char (n div 64 mod 64)])"
| "raw_encode [a] = (let n = of_char a * 65536 in [b64_char (n div 262144), b64_char (n div 4096 mod 64)])"
| "raw_encode [] = []"

text \<open>
  Decoding, for padded and for raw input: carriage returns and newlines are skipped; a last quantum
  is padded to four characters in the padded encoding and is not in the raw one; bits beyond the
  last full byte are ignored.
\<close>

definition quantum :: "nat \<Rightarrow> nat \<Rightarrow> nat \<Rightarrow> nat \<Rightarrow> string" where
  "quantum p q r s =
     (let n = p * 262144 + q * 4096 + r * 64 + s in [char_of (n div 65536), char_of (n div 256 mod 256), char_of (n mod 256)])"

fun b64_decode :: "bool \<Rightarrow> string \<Rightarrow> string option" where
  "b64_decode padded [] = Some []"
| "b64_decode padded (a # b # c # d # cs) =
     (case (b64_val a, b64_val b, b64_val c, b64_val d) of
        (Some p, Some q, Some r, Some s) \<Rightarrow> map_option ((@) (quantum p q r s)) (b64_decode padded cs)
      | (Some p, Some q, Some r, None) \<Rightarrow>
          if padded \<and> d = CHR ''='' \<and> cs = [] then Some (take 2 (quantum p q r 0)) else None
      | (Some p, Some q, None, _) \<Rightarrow>
          if padded \<and> c = CHR ''='' \<and> d = CHR ''='' \<and> cs = [] then Some (take 1 (quantum p q 0 0)) else None
      | _ \<Rightarrow> None)"
| "b64_decode padded [a, b, c] =
     (case (b64_val a, b64_val b, b64_val c) of
        (Some p, Some q, Some r) \<Rightarrow> if padded then None else Some (take 2 (quantum p q r 0))
      | _ \<Rightarrow> None)"
| "b64_decode padded [a, b] =
     (case (b64_val a, b64_val b) of
        (Some p, Some q) \<Rightarrow> if padded then None else Some (take 1 (quantum p q 0 0))
      | _ \<Rightarrow> None)"
| "b64_decode padded [a] = None"

definition DecodeString :: "bool \<Rightarrow> string \<Rightarrow> string go_result" where
  "DecodeString padded v =
     (case b64_decode padded (filter (\<lambda>c. of_char c \<noteq> (13 :: nat) \<and> of_char c \<noteq> (10 :: nat)) v) of
        None \<Rightarrow> Inl ''illegal base64 data'' | Some b \<Rightarrow> Inr b)"

definition encodeBinHeader :: "string \<Rightarrow> string" where
  "encodeBinHeader v = raw_encode v"

definition decodeBinHeader :: "string \<Rightarrow> string go_result" where
  "decodeBinHeader v = (if length v mod 4 = 0 then DecodeString True v else DecodeString False v)"

definition binHdrSuffix :: string where
  "binHdrSuffix = ''-bin''"

definition encodeMetadataHeader :: "string \<Rightarrow> string \<Rightarrow> string" where
  "encodeMetadataHeader k v = (if HasSuffix k binHdrSuffix then encodeBinHeader v else v)"

definition decodeMetadataHeader :: "string \<Rightarrow> string \<Rightarrow> string go_result" where
  "decodeMetadataHeader k v = (if HasSuffix k binHdrSuffix then decodeBinHeader v else Inr v)"

lemma b64_val_char [simp]: "n < 64 \<Longrightarrow> b64_val (b64_char n) = Some n"
  by (auto simp: b64_val_def b64_char_def Let_def of_char_of)

lemma b64_char_ok: "n < 64 \<Longrightarrow> of_char (b64_char n) \<noteq> (13 :: nat) \<and> of_char (b64_char n) \<noteq> (10 :: nat)"
  by (auto simp: b64_char_def)

text \<open>Decoding undoes encoding, quantum by quantum.\<close>

lemma of_char_bound [simp]: "of_char (c :: char) < (256 :: nat)"
  by (cases c) (simp add: of_char_def)

lemma quantum_split:
  shows "quantum (n div 262144) (n div 4096 mod 64) (n div 64 mod 64) (n mod 64) =
    [char_of (n div 65536), char_of (n div 256 mod 256), char_of (n mod 256)]"
proof -
  have "n div 4096 = n div 64 div 64" "n div 262144 = n div 64 div 64 div 64" by (simp_all flip: div_mult2_eq)
  moreover have "z * 262144 + q * 4096 + r * 64 + t = n"
    if "n = x * 64 + t" "x = y * 64 + r" "y = z * 64 + q" for z q r t x y :: nat using that by simp
  from this [of "n div 64" "n mod 64" "n div 64 div 64" "n div 64 mod 64" "n div 64 div 64 div 64" "n div 64 div 64 mod 64"]
  have "n div 64 div 64 div 64 * 262144 + n div 64 div 64 mod 64 * 4096 + n div 64 mod 64 * 64 + n mod 64 = n" by simp
  ultimately have "n div 262144 * 262144 + n div 4096 mod 64 * 4096 + n div 64 mod 64 * 64 + n mod 64 = n" by simp
  then show ?thesis by (simp add: quantum_def Let_def)
qed

lemma sixbits: "n < 16777216 \<Longrightarrow> n div 262144 < (64 :: nat)"
  by auto

lemma three_bytes:
  assumes "a < 256" and "b < 256" and "c < (256 :: nat)"
  shows "(a * 65536 + b * 256 + c) div 65536 = a" "(a * 65536 + b * 256 + c) div 256 mod 256 = b"
    "(a * 65536 + b * 256 + c) mod 256 = c" "a * 65536 + b * 256 + c < 16777216"
proof -
  let ?n = "a * 65536 + b * 256 + c"
  have n: "?n = (a * 256 + b) * 256 + c" by simp
  have q: "?n div 256 = a * 256 + b" unfolding n using assms(3) by simp
  have "?n div 65536 = ?n div 256 div 256" by (simp flip: div_mult2_eq)
  then show "?n div 65536 = a" using q assms(2) by simp
  show "?n div 256 mod 256 = b" using q assms(2) by simp
  show "?n mod 256 = c" unfolding n using assms(3) mod_mult_self3 [of "a * 256 + b" 256 c] by simp
  show "?n < 16777216" using assms by linarith
qed

lemma decode_raw_encode:
  "length v mod 3 = 0 \<or> \<not> padded \<Longrightarrow> b64_decode padded (raw_encode v) = Some v"
proof (induction v rule: raw_encode.induct)
  case (1 a b c cs)
  define n :: nat where "n = of_char a * 65536 + of_char b * 256 + of_char c"
  have n: "n < 16777216" "n div 65536 = of_char a" "n div 256 mod 256 = of_char b" "n mod 256 = of_char c"
    using three_bytes [of "of_char a" "of_char b" "of_char c"] by (simp_all add: n_def)
  have "length cs mod 3 = 0 \<or> \<not> padded" using "1.prems" by (simp add: mod_Suc split: if_splits)
  then have "b64_decode padded (raw_encode cs) = Some cs" using "1.IH" [OF refl] by auto
  then show ?case using quantum_split [of n] sixbits [OF n(1)] n(2-4)
    by (simp add: Let_def flip: n_def)
next
  case (2 a b)
  define n :: nat where "n = of_char a * 65536 + of_char b * 256"
  have n: "n < 16777216" "n div 65536 = of_char a" "n div 256 mod 256 = of_char b" "n mod 64 = 0"
    using three_bytes [of "of_char a" "of_char b" 0] by (simp_all add: n_def)
  show ?case using "2.prems" quantum_split [of n] sixbits [OF n(1)] n(2-4)
    by (simp add: Let_def flip: n_def)
next
  case (3 a)
  define n :: nat where "n = of_char a * 65536"
  have n: "n < 16777216" "n div 65536 = of_char a" "n mod 64 = 0" "n div 64 mod 64 = 0"
    using three_bytes [of "of_char a" 0 0] by (simp_all add: n_def)
  show ?case using "3.prems" quantum_split [of n] sixbits [OF n(1)] n(2-4)
    by (simp add: Let_def flip: n_def)
qed simp

lemma raw_encode_clean:
  "c \<in> set (raw_encode v) \<Longrightarrow> of_char c \<noteq> (13 :: nat) \<and> of_char c \<noteq> (10 :: nat)"
proof (induction v rule: raw_encode.induct)
  case (1 a b c' cs)
  define n :: nat where "n = of_char a * 65536 + of_char b * 256 + of_char c'"
  have "n < 16777216" using three_bytes(4) [of "of_char a" "of_char b" "of_char c'"] by (simp add: n_def)
  then show ?case using 1 sixbits by (auto simp: Let_def b64_char_ok simp flip: n_def)
next
  case (2 a b)
  define n :: nat where "n = of_char a * 65536 + of_char b * 256"
  have "n < 16777216" using three_bytes(4) [of "of_char a" "of_char b" 0] by (simp add: n_def)
  then show ?case using 2 sixbits by (auto simp: Let_def b64_char_ok simp flip: n_def)
next
  case (3 a)
  define n :: nat where "n = of_char a * 65536"
  have "n < 16777216" using three_bytes(4) [of "of_char a" 0 0] by (simp add: n_def)
  then show ?case using 3 sixbits by (auto simp: Let_def b64_char_ok simp flip: n_def)
qed simp

lemma length_raw_encode: "length (raw_encode v) mod 4 = 0 \<longleftrightarrow> length v mod 3 = 0"
proof (induction v rule: raw_encode.induct)
  case (1 a b c cs)
  have "length (raw_encode (a # b # c # cs)) = length (raw_encode cs) + 4" "length (a # b # c # cs) = length cs + 3"
    by (simp_all add: Let_def)
  then show ?case using "1.IH" [OF refl] by (simp only: mod_add_self2)
qed (simp_all add: Let_def)

section \<open>Timeouts\<close>

definition Nanosecond :: int where
  "Nanosecond = 1"

definition Microsecond :: int where
  "Microsecond = 1000 * Nanosecond"

definition Millisecond :: int where
  "Millisecond = 1000 * Microsecond"

definition Second :: int where
  "Second = 1000 * Millisecond"

definition Minute :: int where
  "Minute = 60 * Second"

definition Hour :: int where
  "Hour = 60 * Minute"

definition maxInt64 :: int where
  "maxInt64 = 2 ^ 63 - 1"

text \<open>Arithmetic of \<open>int64\<close> wraps around.\<close>

definition wrap64 :: "int \<Rightarrow> int" where
  "wrap64 n = (n + 2 ^ 63) mod 2 ^ 64 - 2 ^ 63"

definition timeoutUnitToDuration :: "char \<Rightarrow> int option" where
  "timeoutUnitToDuration u =
     (if u = CHR ''H'' then Some Hour
      else if u = CHR ''M'' then Some Minute
      else if u = CHR ''S'' then Some Second
      else if u = CHR ''m'' then Some Millisecond
      else if u = CHR ''u'' then Some Microsecond
      else if u = CHR ''n'' then Some Nanosecond
      else None)"

definition decodeTimeout :: "string \<Rightarrow> int go_result" where
  "decodeTimeout s =
     (if length s < 2 then Inl ''transport: timeout string is too short''
      else if 9 < length s then Inl ''transport: timeout string is too long''
      else
        (case timeoutUnitToDuration (last s) of
           None \<Rightarrow> Inl ''transport: timeout unit is not recognized''
         | Some d \<Rightarrow>
             (case ParseUint (butlast s) of
                Inl err \<Rightarrow> Inl err
              | Inr t \<Rightarrow> if d = Hour \<and> int t > maxInt64 div Hour then Inr maxInt64 else Inr (wrap64 (d * int t)))))"

definition maxTimeoutValue :: int where
  "maxTimeoutValue = 100000000 - 1"

text \<open>\<open>div\<close> of \<^verbatim>\<open>encode_duration.go\<close>; it is only used for positive durations.\<close>

definition div_up :: "int \<Rightarrow> int \<Rightarrow> int" where
  "div_up d r = (if 0 < d mod r then d div r + 1 else d div r)"

definition EncodeDuration :: "int \<Rightarrow> string" where
  "EncodeDuration t =
     (if t \<le> 0 then ''0n''
      else if div_up t Nanosecond \<le> maxTimeoutValue then FormatInt (nat (div_up t Nanosecond)) @ ''n''
      else if div_up t Microsecond \<le> maxTimeoutValue then FormatInt (nat (div_up t Microsecond)) @ ''u''
      else if div_up t Millisecond \<le> maxTimeoutValue then FormatInt (nat (div_up t Millisecond)) @ ''m''
      else if div_up t Second \<le> maxTimeoutValue then FormatInt (nat (div_up t Second)) @ ''S''
      else if div_up t Minute \<le> maxTimeoutValue then FormatInt (nat (div_up t Minute)) @ ''M''
      else FormatInt (nat (div_up t Hour)) @ ''H'')"

lemmas time_units = Hour_def Minute_def Second_def Millisecond_def Microsecond_def Nanosecond_def

lemma digit_val_char [simp]: "n < 10 \<Longrightarrow> digit_val (char_of (48 + n)) = Some n"
  by (simp add: digit_val_def Let_def of_char_of)

lemma parse_digits_append:
  "parse_digits (a @ b) acc = (case parse_digits a acc of None \<Rightarrow> None | Some n \<Rightarrow> parse_digits b n)"
  by (induction a arbitrary: acc) (auto split: option.splits)

lemma FormatInt_nonempty [simp]: "FormatInt n \<noteq> []"
  by (subst FormatInt.simps) simp

lemma parse_FormatInt: "parse_digits (FormatInt n) 0 = Some n"
proof (induction n rule: FormatInt.induct)
  case (1 n)
  then show ?case by (subst FormatInt.simps) (simp add: parse_digits_append)
qed

lemma ParseUint_FormatInt: "n < 2 ^ 64 \<Longrightarrow> ParseUint (FormatInt n) = Inr n"
  by (simp add: ParseUint_def parse_FormatInt)

lemma length_FormatInt: "n < 10 ^ k \<Longrightarrow> 0 < k \<Longrightarrow> length (FormatInt n) \<le> k"
proof (induction n arbitrary: k rule: FormatInt.induct)
  case (1 n)
  show ?case
  proof (cases "n < 10")
    case True
    then show ?thesis using "1.prems" by (subst FormatInt.simps) simp
  next
    case False
    then have "1 < k" using "1.prems" by (cases k; cases "k - 1") auto
    then have "10 ^ k = 10 * (10 :: nat) ^ (k - 1)" by (cases k) simp_all
    then have "n div 10 < 10 ^ (k - 1)" using "1.prems"(1) by simp
    from "1.IH" [OF False this] show ?thesis using \<open>1 < k\<close> False by (subst FormatInt.simps) simp
  qed
qed

lemma div_up_bounds:
  assumes "0 < t" and "0 < r"
  shows "0 < div_up t r" and "t \<le> r * div_up t r" and "r * div_up t r < t + r"
proof -
  have t: "t = r * (t div r) + t mod r" "0 \<le> t mod r" "t mod r < r" using assms(2) by simp_all
  have "0 \<le> t div r" using assms by (simp add: pos_imp_zdiv_nonneg_iff)
  moreover have "t mod r = 0 \<Longrightarrow> 0 < t div r" using t(1) assms by (metis add.right_neutral zero_less_mult_pos)
  ultimately show "0 < div_up t r" using t(2) by (auto simp: div_up_def)
  show "t \<le> r * div_up t r" "r * div_up t r < t + r"
    unfolding div_up_def using t assms(2) by (simp_all only: distrib_left mult_1_right split: if_split) linarith+
qed

lemma wrap64_id: "0 \<le> n \<Longrightarrow> n \<le> maxInt64 \<Longrightarrow> wrap64 n = n"
  by (simp add: wrap64_def maxInt64_def)

lemma decode_FormatInt:
  assumes "0 < v" and "v \<le> maxTimeoutValue" and "timeoutUnitToDuration u = Some d"
  shows "decodeTimeout (FormatInt (nat v) @ [u]) =
      Inr (if d = Hour \<and> v > maxInt64 div Hour then maxInt64 else wrap64 (d * v)) \<and>
    length (FormatInt (nat v) @ [u]) \<le> 9"
proof -
  have "nat v < 10 ^ 8" using assms(1,2) by (simp add: maxTimeoutValue_def)
  then have "length (FormatInt (nat v)) \<le> 8" "ParseUint (FormatInt (nat v)) = Inr (nat v)"
    using length_FormatInt [of "nat v" 8] ParseUint_FormatInt [of "nat v"] by simp_all
  moreover have "0 < length (FormatInt (nat v))" by simp
  ultimately show ?thesis using assms(1,3) by (simp add: decodeTimeout_def Suc_le_eq del: length_greater_0_conv)
qed

text \<open>A unit is used when the next finer one does not fit, so the rounding error is relatively small.\<close>

lemma unit_roundtrip:
  assumes "0 < t" and "t \<le> maxInt64" and "timeoutUnitToDuration u = Some d" and "div_up t d \<le> maxTimeoutValue"
    and "0 < d" and "d * maxTimeoutValue \<le> maxInt64 \<or> d = Hour" and "0 < f" and "d \<le> 1000 * f" and "maxTimeoutValue < div_up t f"
  shows "\<exists>e. decodeTimeout (FormatInt (nat (div_up t d)) @ [u]) = Inr e \<and> t \<le> e \<and> e \<le> maxInt64 \<and>
    (e - t) * maxTimeoutValue < 1000 * t \<and> length (FormatInt (nat (div_up t d)) @ [u]) \<le> 9"
proof -
  let ?v = "div_up t d"
  note v = div_up_bounds [OF assms(1,5)] and w = div_up_bounds [OF assms(1,7)]
  have "f * maxTimeoutValue < t"
  proof -
    have "f * (maxTimeoutValue + 1) \<le> f * div_up t f" using assms(7,9) by (intro mult_left_mono) simp_all
    then show ?thesis using w(3) by (simp add: distrib_left)
  qed
  moreover have "d * maxTimeoutValue \<le> 1000 * f * maxTimeoutValue"
    using assms(8) by (intro mult_right_mono) (simp_all add: maxTimeoutValue_def)
  ultimately have err: "(e - t) * maxTimeoutValue < 1000 * t" if "e \<le> d * ?v" for e
    using that v(3) mult_right_mono [of "e - t" d maxTimeoutValue] by (simp add: maxTimeoutValue_def)
  note dec = decode_FormatInt [OF v(1) assms(4,3)]
  have hr: "0 < Hour" by (simp add: time_units)
  show ?thesis
  proof (cases "d = Hour \<and> ?v > maxInt64 div Hour")
    case True
    have "maxInt64 \<le> Hour * ?v"
    proof -
      have "maxInt64 < Hour * (maxInt64 div Hour + 1)" by (simp add: time_units maxInt64_def)
      also have "\<dots> \<le> Hour * ?v" using True hr by (intro mult_left_mono) auto
      finally show ?thesis by simp
    qed
    then show ?thesis using True dec err [of maxInt64] assms(2) by auto
  next
    case False
    have "d * ?v \<le> maxInt64"
    proof (cases "d = Hour")
      case True
      then have "Hour * ?v \<le> Hour * (maxInt64 div Hour)" using False hr by (intro mult_left_mono) auto
      also have "\<dots> \<le> maxInt64" by (simp add: time_units maxInt64_def)
      finally show ?thesis using True by simp
    next
      case False
      have "d * ?v \<le> d * maxTimeoutValue" using assms(4,5) by (intro mult_left_mono) simp_all
      then show ?thesis using False assms(6) by simp
    qed
    then have "wrap64 (d * ?v) = d * ?v" using assms(5) v(1) by (intro wrap64_id) simp_all
    then show ?thesis using dec False err [of "d * ?v"] v(2) \<open>d * ?v \<le> maxInt64\<close> by auto
  qed
qed

section \<open>Status messages\<close>

definition char_ord :: "char \<Rightarrow> nat" where
  "char_ord c = of_char c"

text \<open>The bytes that stand for themselves in a grpc-message header.\<close>

definition plain_char :: "char \<Rightarrow> bool" where
  "plain_char c = (32 \<le> char_ord c \<and> char_ord c \<le> 126 \<and> c \<noteq> CHR ''%'')"

definition hex_char :: "nat \<Rightarrow> char" where
  "hex_char n = char_of (if n < 10 then 48 + n else 55 + n)"

text \<open>\<open>fmt.Fprintf\<close> with the format of a percent sign and two upper-case hexadecimal digits.\<close>

definition percent_encode :: "char \<Rightarrow> string" where
  "percent_encode c = [CHR ''%'', hex_char (char_ord c div 16), hex_char (char_ord c mod 16)]"

text \<open>
  \<open>utf8.DecodeRuneInString\<close>: the length of the first encoded rune, \<open>None\<close> if the encoding is
  invalid, and then the bytes of \<open>string(r)\<close> for the rune with the size consumed; an invalid
  encoding has size 1 and gives the replacement character.
\<close>

definition cont :: "nat \<Rightarrow> nat \<Rightarrow> string \<Rightarrow> bool" where
  "cont lo hi s = (s \<noteq> [] \<and> lo \<le> char_ord (hd s) \<and> char_ord (hd s) \<le> hi)"

definition rune_len :: "string \<Rightarrow> nat option" where
  "rune_len s =
     (let b = char_ord (hd s); s1 = tl s; s2 = tl s1; s3 = tl s2;
          lo = (if b = 0xE0 then 0xA0 else if b = 0xF0 then 0x90 else 0x80);
          hi = (if b = 0xED then 0x9F else if b = 0xF4 then 0x8F else 0xBF)
      in if b < 0x80 then Some 1
         else if 0xC2 \<le> b \<and> b \<le> 0xDF \<and> cont lo hi s1 then Some 2
         else if 0xE0 \<le> b \<and> b \<le> 0xEF \<and> cont lo hi s1 \<and> cont 0x80 0xBF s2 then Some 3
         else if 0xF0 \<le> b \<and> b \<le> 0xF4 \<and> cont lo hi s1 \<and> cont 0x80 0xBF s2 \<and> cont 0x80 0xBF s3 then Some 4
         else None)"

definition runeError :: string where
  "runeError = [char_of (0xEF :: nat), char_of (0xBF :: nat), char_of (0xBD :: nat)]"

definition DecodeRuneInString :: "string \<Rightarrow> string \<times> nat" where
  "DecodeRuneInString s = (case rune_len s of Some k \<Rightarrow> (take k s, k) | None \<Rightarrow> (runeError, 1))"

lemma decode_rune_size [simp]: "0 < snd (DecodeRuneInString s)"
  by (auto simp: DecodeRuneInString_def rune_len_def Let_def split: option.splits if_splits)

definition encode_rune :: "string \<Rightarrow> nat \<Rightarrow> string" where
  "encode_rune r sz = concat (map (\<lambda>b. if 1 < sz then percent_encode b else if plain_char b then [b] else percent_encode b) r)"

function encodeGrpcMessageUnchecked :: "string \<Rightarrow> string" where
  "encodeGrpcMessageUnchecked msg =
     (if msg = [] then []
      else let (r, sz) = DecodeRuneInString msg in encode_rune r sz @ encodeGrpcMessageUnchecked (drop sz msg))"
  by pat_completeness auto
termination
proof (relation "measure length")
  fix msg r sz x
  assume "msg \<noteq> []" "x = DecodeRuneInString msg" "(r, sz) = x"
  moreover from this have "0 < sz" using decode_rune_size [of msg] by (metis snd_conv)
  ultimately show "(drop sz msg, msg) \<in> measure length" by simp
qed simp

declare encodeGrpcMessageUnchecked.simps [simp del]

definition encodeGrpcMessage :: "string \<Rightarrow> string" where
  "encodeGrpcMessage msg = (if list_all plain_char msg then msg else encodeGrpcMessageUnchecked msg)"

definition hex_val :: "char \<Rightarrow> nat option" where
  "hex_val c =
     (let n = char_ord c in
      if 48 \<le> n \<and> n \<le> 57 then Some (n - 48) else if 65 \<le> n \<and> n \<le> 70 then Some (n - 55)
      else if 97 \<le> n \<and> n \<le> 102 then Some (n - 87) else None)"

text \<open>\<open>strconv.ParseUint(msg[i+1:i+3], 16, 8)\<close> of the two characters.\<close>

definition ParseUint_hex :: "char \<Rightarrow> char \<Rightarrow> nat option" where
  "ParseUint_hex a b = (case (hex_val a, hex_val b) of (Some x, Some y) \<Rightarrow> Some (x * 16 + y) | _ \<Rightarrow> None)"

fun decodeGrpcMessageUnchecked :: "string \<Rightarrow> string" where
  "decodeGrpcMessageUnchecked [] = []"
| "decodeGrpcMessageUnchecked (c # a # b # cs) =
     (if c = CHR ''%'' then
        (case ParseUint_hex a b of
           None \<Rightarrow> c # decodeGrpcMessageUnchecked (a # b # cs)
         | Some n \<Rightarrow> char_of n # decodeGrpcMessageUnchecked cs)
      else c # decodeGrpcMessageUnchecked (a # b # cs))"
| "decodeGrpcMessageUnchecked (c # cs) = c # decodeGrpcMessageUnchecked cs"

text \<open>The scan of \<open>decodeGrpcMessage\<close> for a percent sign with two bytes after it.\<close>

fun has_escape :: "string \<Rightarrow> bool" where
  "has_escape [] = False"
| "has_escape (c # cs) = (c = CHR ''%'' \<and> 2 \<le> length cs \<or> has_escape cs)"

definition decodeGrpcMessage :: "string \<Rightarrow> string" where
  "decodeGrpcMessage msg = (if has_escape msg then decodeGrpcMessageUnchecked msg else msg)"

lemmas utf8_defs = DecodeRuneInString_def rune_len_def Let_def

lemma percent_not_plain [simp]: "\<not> plain_char CHR ''%''"
  by (simp add: plain_char_def)

lemma char_ord_bound [simp]: "char_ord c < 256"
  by (simp add: char_ord_def)

lemma hex_val_char: "n < 16 \<Longrightarrow> hex_val (hex_char n) = Some n"
  by (auto simp: hex_val_def hex_char_def char_ord_def Let_def of_char_of)

lemma ParseUint_percent [simp]:
  "ParseUint_hex (hex_char (char_ord c div 16)) (hex_char (char_ord c mod 16)) = Some (char_ord c)"
proof -
  have "char_ord c div 16 < 16" using char_ord_bound [of c] by linarith
  then show ?thesis by (simp add: ParseUint_hex_def hex_val_char)
qed

lemma hex_char_plain: "n < 16 \<Longrightarrow> 32 \<le> char_ord (hex_char n) \<and> char_ord (hex_char n) \<le> 126"
  by (simp add: hex_char_def char_ord_def of_char_of)

text \<open>Decoding byte by byte; a percent sign only has an effect with two bytes after it.\<close>

lemma decode_plain: "c \<noteq> CHR ''%'' \<Longrightarrow> decodeGrpcMessageUnchecked (c # cs) = c # decodeGrpcMessageUnchecked cs"
  by (cases cs; cases "tl cs") auto

lemma decode_percent: "decodeGrpcMessageUnchecked (percent_encode c @ cs) = c # decodeGrpcMessageUnchecked cs"
  by (simp add: percent_encode_def) (simp add: char_ord_def)

lemma decode_unchecked: "\<not> has_escape msg \<Longrightarrow> decodeGrpcMessageUnchecked msg = msg"
  by (induction msg rule: decodeGrpcMessageUnchecked.induct) auto

lemma decodeGrpcMessage_eq: "decodeGrpcMessage msg = decodeGrpcMessageUnchecked msg"
  by (simp add: decodeGrpcMessage_def decode_unchecked)

lemma decode_bytes: "decodeGrpcMessageUnchecked (encode_rune r sz @ cs) = r @ decodeGrpcMessageUnchecked cs"
proof (induction r)
  case (Cons b r)
  then show ?case using decode_plain [of b] decode_percent
    by (auto simp: encode_rune_def plain_char_def)
qed (simp add: encode_rune_def)

text \<open>A message with every invalid byte replaced by the replacement character.\<close>

function ToValidUTF8 :: "string \<Rightarrow> string" where
  "ToValidUTF8 msg = (if msg = [] then [] else let (r, sz) = DecodeRuneInString msg in r @ ToValidUTF8 (drop sz msg))"
  by pat_completeness auto
termination
proof (relation "measure length")
  fix msg r sz x
  assume "msg \<noteq> []" "x = DecodeRuneInString msg" "(r, sz) = x"
  moreover from this have "0 < sz" using decode_rune_size [of msg] by (metis snd_conv)
  ultimately show "(drop sz msg, msg) \<in> measure length" by simp
qed simp

function utf8_valid :: "string \<Rightarrow> bool" where
  "utf8_valid msg = (if msg = [] then True else case rune_len msg of None \<Rightarrow> False | Some k \<Rightarrow> utf8_valid (drop k msg))"
  by pat_completeness auto
termination
proof (relation "measure length")
  fix msg k
  assume "msg \<noteq> []" "rune_len msg = Some k"
  then show "(drop k msg, msg) \<in> measure length" using decode_rune_size [of msg] by (simp add: DecodeRuneInString_def)
qed simp

declare ToValidUTF8.simps [simp del] utf8_valid.simps [simp del]

lemma valid_unchanged: "utf8_valid msg \<Longrightarrow> ToValidUTF8 msg = msg"
proof (induction msg rule: utf8_valid.induct)
  case (1 msg)
  show ?case
  proof (cases "msg = []")
    case False
    then obtain k where k: "rune_len msg = Some k" "utf8_valid (drop k msg)"
      using "1.prems" by (subst (asm) utf8_valid.simps) (auto split: option.splits)
    then have "ToValidUTF8 (drop k msg) = drop k msg" using "1.IH" False by blast
    then show ?thesis using False k(1) by (subst ToValidUTF8.simps) (simp add: DecodeRuneInString_def)
  qed (simp add: ToValidUTF8.simps)
qed

lemma decode_encode_unchecked: "decodeGrpcMessageUnchecked (encodeGrpcMessageUnchecked msg) = ToValidUTF8 msg"
proof (induction msg rule: encodeGrpcMessageUnchecked.induct)
  case (1 msg)
  obtain r sz where d: "DecodeRuneInString msg = (r, sz)" by fastforce
  show ?case
  proof (cases "msg = []")
    case False
    then have "decodeGrpcMessageUnchecked (encodeGrpcMessageUnchecked (drop sz msg)) = ToValidUTF8 (drop sz msg)"
      using "1.IH" [OF False d [symmetric] refl] by simp
    then show ?thesis using False d decode_bytes
      by (subst encodeGrpcMessageUnchecked.simps, subst ToValidUTF8.simps) simp
  qed (simp add: encodeGrpcMessageUnchecked.simps ToValidUTF8.simps)
qed

lemma encode_safe: "list_all (\<lambda>c. 32 \<le> char_ord c \<and> char_ord c \<le> 126) (encodeGrpcMessageUnchecked msg)"
proof (induction msg rule: encodeGrpcMessageUnchecked.induct)
  case (1 msg)
  obtain r sz where d: "DecodeRuneInString msg = (r, sz)" by fastforce
  have "char_ord b div 16 < 16" for b using char_ord_bound [of b] by linarith
  then have "list_all (\<lambda>c. 32 \<le> char_ord c \<and> char_ord c \<le> 126) (percent_encode b)" for b
    using hex_char_plain by (simp add: percent_encode_def) (simp add: char_ord_def)
  then have "list_all (\<lambda>c. 32 \<le> char_ord c \<and> char_ord c \<le> 126) (encode_rune r sz)"
    by (induction r) (auto simp: encode_rune_def plain_char_def)
  then show ?case using "1.IH" [OF _ d [symmetric] refl] d
    by (subst encodeGrpcMessageUnchecked.simps) (auto simp: list_all_append)
qed

lemma plain_ascii_valid: "list_all plain_char msg \<Longrightarrow> utf8_valid msg"
proof (induction msg)
  case (Cons c msg)
  then show ?case by (subst utf8_valid.simps) (simp add: rune_len_def plain_char_def)
qed (simp add: utf8_valid.simps)

section \<open>Method names and content types\<close>

text \<open>\<open>strings.LastIndex\<close> of a single character.\<close>

fun LastIndex :: "string \<Rightarrow> char \<Rightarrow> nat option" where
  "LastIndex [] c = None"
| "LastIndex (x # xs) c =
     (case LastIndex xs c of Some i \<Rightarrow> Some (Suc i) | None \<Rightarrow> if x = c then Some 0 else None)"

definition ParseMethod :: "string \<Rightarrow> (string \<times> string) go_result" where
  "ParseMethod methodName =
     (if \<not> HasPrefix methodName ''/'' then Inl ''invalid method name: should start with /''
      else let name = drop 1 methodName
           in case LastIndex name CHR ''/'' of
                None \<Rightarrow> Inl ''invalid method name: suffix /method is missing''
              | Some pos \<Rightarrow> Inr (take pos name, drop (pos + 1) name))"

definition baseContentType :: string where
  "baseContentType = ''application/grpc''"

definition ContentSubtype :: "string \<Rightarrow> string option" where
  "ContentSubtype contentType =
     (if contentType = baseContentType then Some []
      else if \<not> HasPrefix contentType baseContentType then None
      else if contentType ! length baseContentType \<in> {CHR ''+'', CHR '';''}
           then Some (drop (length baseContentType + 1) contentType)
           else None)"

definition ContentType :: "string \<Rightarrow> string" where
  "ContentType contentSubtype =
     (if contentSubtype = [] then baseContentType else baseContentType @ ''+'' @ contentSubtype)"

lemma LastIndex_none: "c \<notin> set xs \<Longrightarrow> LastIndex xs c = None"
  by (induction xs) auto

lemma LastIndex_last: "c \<notin> set ys \<Longrightarrow> LastIndex (xs @ c # ys) c = Some (length xs)"
  by (induction xs) (auto simp: LastIndex_none)

section \<open>Encoding and decoding\<close>

lemma timeout_roundtrip:
  assumes "0 < t" and "t \<le> maxInt64"
  shows "\<exists>d. decodeTimeout (EncodeDuration t) = Inr d \<and> t \<le> d \<and> d \<le> maxInt64 \<and>
    (d - t) * maxTimeoutValue < 1000 * t \<and> length (EncodeDuration t) \<le> 9"
proof (cases "div_up t Nanosecond \<le> maxTimeoutValue")
  case True
  moreover have "div_up t Nanosecond = t" by (simp add: div_up_def Nanosecond_def)
  moreover have "wrap64 t = t" using assms by (intro wrap64_id) simp_all
  moreover have "timeoutUnitToDuration CHR ''n'' = Some Nanosecond" "Nanosecond \<noteq> Hour"
    by (simp_all add: timeoutUnitToDuration_def time_units)
  ultimately show ?thesis using assms decode_FormatInt [of t "CHR ''n''" Nanosecond]
    by (simp add: EncodeDuration_def) (simp add: Nanosecond_def)
next
  case ns: False
  note rt = unit_roundtrip [OF assms]
  have small: "div_up t Hour \<le> maxTimeoutValue"
  proof -
    have "Hour * div_up t Hour < maxInt64 + Hour" using div_up_bounds(3) [OF assms(1), of Hour] assms(2) by (simp add: time_units)
    then show ?thesis by (simp add: time_units maxInt64_def maxTimeoutValue_def)
  qed
  consider (u) "div_up t Microsecond \<le> maxTimeoutValue"
    | (m) "\<not> div_up t Microsecond \<le> maxTimeoutValue" "div_up t Millisecond \<le> maxTimeoutValue"
    | (s) "\<not> div_up t Microsecond \<le> maxTimeoutValue" "\<not> div_up t Millisecond \<le> maxTimeoutValue" "div_up t Second \<le> maxTimeoutValue"
    | (mi) "\<not> div_up t Microsecond \<le> maxTimeoutValue" "\<not> div_up t Millisecond \<le> maxTimeoutValue" "\<not> div_up t Second \<le> maxTimeoutValue"
        "div_up t Minute \<le> maxTimeoutValue"
    | (h) "\<not> div_up t Microsecond \<le> maxTimeoutValue" "\<not> div_up t Millisecond \<le> maxTimeoutValue" "\<not> div_up t Second \<le> maxTimeoutValue"
        "\<not> div_up t Minute \<le> maxTimeoutValue" by blast
  then show ?thesis
  proof cases
    case u
    then show ?thesis using rt [of "CHR ''u''" Microsecond Nanosecond] ns assms(1)
      by (simp add: EncodeDuration_def) (simp add: timeoutUnitToDuration_def time_units maxTimeoutValue_def maxInt64_def)
  next
    case m
    then show ?thesis using rt [of "CHR ''m''" Millisecond Microsecond] ns assms(1)
      by (simp add: EncodeDuration_def) (simp add: timeoutUnitToDuration_def time_units maxTimeoutValue_def maxInt64_def)
  next
    case s
    then show ?thesis using rt [of "CHR ''S''" Second Millisecond] ns assms(1)
      by (simp add: EncodeDuration_def) (simp add: timeoutUnitToDuration_def time_units maxTimeoutValue_def maxInt64_def)
  next
    case mi
    then show ?thesis using rt [of "CHR ''M''" Minute Second] ns assms(1)
      by (simp add: EncodeDuration_def) (simp add: timeoutUnitToDuration_def time_units maxTimeoutValue_def maxInt64_def)
  next
    case h
    then show ?thesis using rt [of "CHR ''H''" Hour Minute] ns assms(1) small
      by (simp add: EncodeDuration_def) (simp add: timeoutUnitToDuration_def time_units maxTimeoutValue_def maxInt64_def)
  qed
qed

lemma header_roundtrip: "decodeMetadataHeader k (encodeMetadataHeader k v) = Inr v"
proof (cases "HasSuffix k binHdrSuffix")
  case True
  have "filter (\<lambda>c. of_char c \<noteq> (13 :: nat) \<and> of_char c \<noteq> (10 :: nat)) (raw_encode v) = raw_encode v"
    using raw_encode_clean by (simp add: filter_id_conv)
  then have "DecodeString padded (raw_encode v) = Inr v" if "length v mod 3 = 0 \<or> \<not> padded" for padded
    using decode_raw_encode [OF that] by (simp add: DecodeString_def)
  then show ?thesis using True
    by (simp add: decodeMetadataHeader_def encodeMetadataHeader_def encodeBinHeader_def decodeBinHeader_def length_raw_encode)
qed (simp add: decodeMetadataHeader_def encodeMetadataHeader_def)

lemma message_roundtrip:
  "decodeGrpcMessage (encodeGrpcMessage msg) = ToValidUTF8 msg \<and> (utf8_valid msg \<longrightarrow> ToValidUTF8 msg = msg) \<and>
   list_all (\<lambda>c. 32 \<le> char_ord c \<and> char_ord c \<le> 126) (encodeGrpcMessage msg)"
proof (cases "list_all plain_char msg")
  case True
  have "decodeGrpcMessageUnchecked msg = msg"
    using True by (induction msg) (auto simp: plain_char_def decode_plain)
  moreover have "list_all (\<lambda>c. 32 \<le> char_ord c \<and> char_ord c \<le> 126) msg" using True by (auto simp: list_all_iff plain_char_def)
  ultimately show ?thesis
    using True valid_unchanged plain_ascii_valid by (simp add: encodeGrpcMessage_def decodeGrpcMessage_eq)
next
  case False
  then have "encodeGrpcMessage msg = encodeGrpcMessageUnchecked msg" by (simp add: encodeGrpcMessage_def)
  then show ?thesis using decode_encode_unchecked encode_safe valid_unchanged by (simp add: decodeGrpcMessage_eq)
qed

section \<open>Properties\<close>

text \<open>
  C34: A grpc-timeout header never shortens a deadline and is almost exact: every positive duration
  of 64 bits is encoded in at most eight digits and a unit, and decodes without overflow to a
  duration that is not shorter and at most about one part in 100000 longer.
\<close>

theorem timeout_never_shortened:
  assumes "0 < t" and "t \<le> maxInt64"
  shows "\<exists>d. decodeTimeout (EncodeDuration t) = Inr d \<and> t \<le> d \<and> d \<le> maxInt64 \<and>
    (d - t) * maxTimeoutValue < 1000 * t \<and> length (EncodeDuration t) \<le> 9"
  using assms by (rule timeout_roundtrip)

theorem timeout_never_shortened_witness:
  "\<exists>d. decodeTimeout (EncodeDuration 123456789012) = Inr d \<and> 123456789012 \<le> d"
  using timeout_never_shortened [of 123456789012] by (auto simp: maxInt64_def)

text \<open>
  C36: Binary metadata survives the wire: whatever the key and the bytes of the value, decoding an
  encoded metadata header gives the value back. In particular the choice of the padded or the raw
  decoder by the length of the header is right for what the encoder sends.
\<close>

theorem metadata_header_roundtrip: "decodeMetadataHeader k (encodeMetadataHeader k v) = Inr v"
  by (rule header_roundtrip)

text \<open>
  C35: A status message survives the wire: for every byte sequence, decoding its grpc-message
  encoding gives the message with each invalid UTF-8 byte replaced by the replacement character,
  hence a valid message itself; and the encoding has printable ASCII characters only.
\<close>

theorem grpc_message_roundtrip:
  "decodeGrpcMessage (encodeGrpcMessage msg) = ToValidUTF8 msg \<and> (utf8_valid msg \<longrightarrow> ToValidUTF8 msg = msg) \<and>
   list_all (\<lambda>c. 32 \<le> char_ord c \<and> char_ord c \<le> 126) (encodeGrpcMessage msg)"
  by (rule message_roundtrip)

theorem grpc_message_roundtrip_witness: "decodeGrpcMessage (encodeGrpcMessage ''100% lost'') = ''100% lost''"
proof -
  have "utf8_valid ''100% lost''" by (simp add: utf8_valid.simps rune_len_def char_ord_def)
  then show ?thesis using grpc_message_roundtrip [of "''100% lost''"] by simp
qed

end
