(* ===== verification/Metadata.thy ===== *)
theory Metadata
  imports Http_Util "HOL-Library.AList" "HOL-Library.Char_ord" "HOL-Library.List_Lexorder"
begin

text \<open>
  Metadata (\<^verbatim>\<open>metadata/metadata.go\<close>) and its validation (\<^verbatim>\<open>internal/metadata/metadata.go\<close>): the
  operations on \<open>MD\<close>, the metadata of incoming and outgoing contexts, and what \<open>String\<close> reveals. A Go
  map is an association list with distinct keys whose order is the order in which a \<open>range\<close> loop
  visits it; the properties hold for every order. Keys are ASCII, as the documentation of \<open>New\<close>
  requires, so \<open>strings.ToLower\<close> and \<open>strings.EqualFold\<close> act on the letters A to Z. A nil slice is
  the empty list; a panic is \<open>None\<close>.
\<close>

section \<open>Keys and maps\<close>

definition lower_char :: "char \<Rightarrow> char" where
  "lower_char c = (let n = of_char c :: nat in if 65 \<le> n \<and> n \<le> 90 then char_of (n + 32) else c)"

definition ToLower :: "string \<Rightarrow> string" where
  "ToLower s = map lower_char s"

definition EqualFold :: "string \<Rightarrow> string \<Rightarrow> bool" where
  "EqualFold a b = (ToLower a = ToLower b)"

type_synonym MD = "(string \<times> string list) list"

text \<open>Reading and assigning \<open>md[k]\<close>, and \<open>md[k] = append(md[k], v...)\<close>.\<close>

definition md_index :: "MD \<Rightarrow> string \<Rightarrow> string list" where
  "md_index md k = (case map_of md k of None \<Rightarrow> [] | Some v \<Rightarrow> v)"

definition md_assign :: "string \<Rightarrow> string list \<Rightarrow> MD \<Rightarrow> MD" where
  "md_assign k v md = AList.update k v md"

definition md_extend :: "string \<Rightarrow> string list \<Rightarrow> MD \<Rightarrow> MD" where
  "md_extend k v md = md_assign k (md_index md k @ v) md"

section \<open>Operations\<close>

definition New :: "(string \<times> string) list \<Rightarrow> MD" where
  "New m = fold (\<lambda>(k, val) md. md_extend (ToLower k) [val] md) m []"

text \<open>Adding key and value pairs; an odd number of strings panics.\<close>

fun add_pairs :: "string list \<Rightarrow> MD \<Rightarrow> MD option" where
  "add_pairs [] md = Some md"
| "add_pairs [k] md = None"
| "add_pairs (k # v # kv) md = add_pairs kv (md_extend (ToLower k) [v] md)"

definition Pairs :: "string list \<Rightarrow> MD option" where
  "Pairs kv = (if odd (length kv) then None else add_pairs kv [])"

definition MD_Get :: "MD \<Rightarrow> string \<Rightarrow> string list" where
  "MD_Get md k = md_index md (ToLower k)"

definition MD_Set :: "string \<Rightarrow> string list \<Rightarrow> MD \<Rightarrow> MD" where
  "MD_Set k vals md = (if vals = [] then md else md_assign (ToLower k) vals md)"

definition MD_Append :: "string \<Rightarrow> string list \<Rightarrow> MD \<Rightarrow> MD" where
  "MD_Append k vals md = (if vals = [] then md else md_extend (ToLower k) vals md)"

definition MD_Delete :: "string \<Rightarrow> MD \<Rightarrow> MD" where
  "MD_Delete k md = AList.delete (ToLower k) md"

definition MD_Join :: "MD list \<Rightarrow> MD" where
  "MD_Join mds = fold (fold (\<lambda>(k, v). md_extend k v)) mds []"

text \<open>Printing: only keys of a list of protocol headers are shown, with the number of the others.\<close>

definition loggableMetadataKeys :: "string list" where
  "loggableMetadataKeys =
     [''content-type'', ''te'', ''user-agent'', ''grpc-encoding'', ''grpc-accept-encoding'', ''grpc-timeout'',
      ''grpc-status'', ''grpc-message-type'', ''grpc-previous-rpc-attempts'', ''grpc-retry-pushback-ms'']"

fun joined :: "string \<Rightarrow> string list \<Rightarrow> string" where
  "joined sep [] = []"
| "joined sep [x] = x"
| "joined sep (x # y # xs) = x @ sep @ joined sep (y # xs)"

definition loggable :: "string \<Rightarrow> bool" where
  "loggable k = (ToLower k \<in> set loggableMetadataKeys)"

definition MD_String :: "MD \<Rightarrow> string" where
  "MD_String md =
     (let keys = sort (filter loggable (map fst md));
          shown = joined '' '' (map (\<lambda>k. k @ '':['' @ joined '' '' (md_index md k) @ '']'') keys);
          redacted = length md - length keys
      in ''map['' @ shown @
         (if redacted > 0 then (if keys \<noteq> [] then '' '' else []) @ ''<'' @ FormatInt redacted @ '' redacted>'' else []) @ '']'')"

section \<open>Contexts\<close>

record rawMD =
  raw_md :: MD
  raw_added :: "string list list"

text \<open>The part of a context that holds metadata.\<close>

record md_context =
  mdIncomingKey :: "MD option"
  mdOutgoingKey :: "rawMD option"

definition NewIncomingContext :: "md_context \<Rightarrow> MD \<Rightarrow> md_context" where
  "NewIncomingContext ctx md = ctx\<lparr>mdIncomingKey := Some md\<rparr>"

definition NewOutgoingContext :: "md_context \<Rightarrow> MD \<Rightarrow> md_context" where
  "NewOutgoingContext ctx md = ctx\<lparr>mdOutgoingKey := Some \<lparr>raw_md = md, raw_added = []\<rparr>\<rparr>"

fun lower_keys :: "string list \<Rightarrow> string list" where
  "lower_keys (k # v # kv) = ToLower k # v # lower_keys kv"
| "lower_keys kv = []"

definition AppendToOutgoingContext :: "md_context \<Rightarrow> string list \<Rightarrow> md_context option" where
  "AppendToOutgoingContext ctx kv =
     (if odd (length kv) then None
      else let md = (case mdOutgoingKey ctx of None \<Rightarrow> \<lparr>raw_md = [], raw_added = []\<rparr> | Some r \<Rightarrow> r)
           in Some (ctx\<lparr>mdOutgoingKey := Some \<lparr>raw_md = raw_md md, raw_added = raw_added md @ [lower_keys kv]\<rparr>\<rparr>))"

definition lowered :: "MD \<Rightarrow> MD" where
  "lowered md = fold (\<lambda>(k, v). md_assign (ToLower k) v) md []"

definition FromIncomingContext :: "md_context \<Rightarrow> MD option" where
  "FromIncomingContext ctx = map_option lowered (mdIncomingKey ctx)"

text \<open>An exact match of the key, or else the first that differs in case only.\<close>

definition matched_value :: "MD \<Rightarrow> string \<Rightarrow> string list" where
  "matched_value md key =
     (case map_of md key of
        Some v \<Rightarrow> v
      | None \<Rightarrow> (case find (\<lambda>(k, v). EqualFold k key) md of None \<Rightarrow> [] | Some (k, v) \<Rightarrow> v))"

definition ValueFromIncomingContext :: "md_context \<Rightarrow> string \<Rightarrow> string list" where
  "ValueFromIncomingContext ctx key =
     (case mdIncomingKey ctx of None \<Rightarrow> [] | Some md \<Rightarrow> matched_value md key)"

definition fromOutgoingContextRaw :: "md_context \<Rightarrow> (MD \<times> string list list) option" where
  "fromOutgoingContextRaw ctx = map_option (\<lambda>r. (raw_md r, raw_added r)) (mdOutgoingKey ctx)"

fun merge_added :: "string list list \<Rightarrow> MD \<Rightarrow> MD option" where
  "merge_added [] out = Some out"
| "merge_added (added # rest) out =
     (if odd (length added) then None else Option.bind (add_pairs added out) (merge_added rest))"

definition FromOutgoingContext :: "md_context \<Rightarrow> MD option option" where
  "FromOutgoingContext ctx =
     (case mdOutgoingKey ctx of
        None \<Rightarrow> Some None
      | Some raw \<Rightarrow> map_option Some (merge_added (raw_added raw) (lowered (raw_md raw))))"

text \<open>\<open>vals\<close> is \<open>None\<close> until a pair matches, and starts with the values of the map then.\<close>

fun match_pairs :: "string \<Rightarrow> string list \<Rightarrow> string list \<Rightarrow> string list option \<Rightarrow> string list option" where
  "match_pairs key matchedMD (k # v # kv) vals =
     match_pairs key matchedMD kv
       (if k = key \<or> EqualFold k key then Some ((case vals of None \<Rightarrow> matchedMD | Some vs \<Rightarrow> vs) @ [v]) else vals)"
| "match_pairs key matchedMD kv vals = vals"

fun match_added :: "string \<Rightarrow> string list \<Rightarrow> string list list \<Rightarrow> string list option \<Rightarrow> string list option option" where
  "match_added key matchedMD [] vals = Some vals"
| "match_added key matchedMD (added # rest) vals =
     (if odd (length added) then None else match_added key matchedMD rest (match_pairs key matchedMD added vals))"

definition ValueFromOutgoingContext :: "md_context \<Rightarrow> string \<Rightarrow> string list option" where
  "ValueFromOutgoingContext ctx key0 =
     (case mdOutgoingKey ctx of
        None \<Rightarrow> Some []
      | Some raw \<Rightarrow>
          let key = ToLower key0; matchedMD = matched_value (raw_md raw) key
          in map_option (\<lambda>vals. case vals of None \<Rightarrow> matchedMD | Some vs \<Rightarrow> vs)
               (match_added key matchedMD (raw_added raw) None))"

section \<open>Validation\<close>

definition hasNotPrintable :: "string \<Rightarrow> bool" where
  "hasNotPrintable msg = list_ex (\<lambda>c. char_ord c < 32 \<or> char_ord c > 126) msg"

definition key_char :: "char \<Rightarrow> bool" where
  "key_char r =
     (let n = char_ord r in 97 \<le> n \<and> n \<le> 122 \<or> 48 \<le> n \<and> n \<le> 57 \<or> r = CHR ''.'' \<or> r = CHR ''-'' \<or> r = CHR ''_'')"

definition ValidateKey :: "string \<Rightarrow> string option" where
  "ValidateKey key =
     (if key = [] then Some ''there is an empty key in the header''
      else if hd key = CHR '':'' then None
      else if list_ex (\<lambda>r. \<not> key_char r) key then Some ''header key contains illegal characters not in [0-9a-z-_.]''
      else None)"

definition ValidatePair :: "string \<Rightarrow> string list \<Rightarrow> string option" where
  "ValidatePair key vals =
     (case ValidateKey key of
        Some err \<Rightarrow> Some err
      | None \<Rightarrow>
          if HasSuffix key ''-bin'' then None
          else if list_ex hasNotPrintable vals then Some ''header key contains value with non-printable ASCII characters''
          else None)"

fun Validate :: "MD \<Rightarrow> string option" where
  "Validate [] = None"
| "Validate ((k, vals) # md) = (case ValidatePair k vals of Some err \<Rightarrow> Some err | None \<Rightarrow> Validate md)"

section \<open>Lemmas\<close>

lemma lower_char_idem [simp]: "lower_char (lower_char c) = lower_char c"
  by (auto simp: lower_char_def Let_def)

lemma ToLower_idem [simp]: "ToLower (ToLower k) = ToLower k"
  by (simp add: ToLower_def)

lemma md_index_assign [simp]: "md_index (md_assign k v md) k' = (if k' = k then v else md_index md k')"
  by (simp add: md_index_def md_assign_def update_conv')

lemma md_index_extend [simp]: "md_index (md_extend k v md) k' = md_index md k' @ (if k' = k then v else [])"
  by (simp add: md_extend_def)

text \<open>A map is well formed when its keys are distinct and in lower case.\<close>

definition md_wf :: "MD \<Rightarrow> bool" where
  "md_wf md = (distinct (map fst md) \<and> list_all (\<lambda>(k, v). ToLower k = k) md)"

lemma md_wf_nil [simp]: "md_wf []"
  by (simp add: md_wf_def)

lemma set_update_fst: "fst ` set (AList.update k v md) = insert k (fst ` set md)"
  by (induction md) auto

lemma md_wf_keys: "md_wf md \<longleftrightarrow> distinct (map fst md) \<and> (\<forall>k \<in> fst ` set md. ToLower k = k)"
  by (auto simp: md_wf_def list_all_iff)

lemma md_wf_assign: "md_wf md \<Longrightarrow> ToLower k = k \<Longrightarrow> md_wf (md_assign k v md)"
  by (auto simp: md_wf_keys md_assign_def set_update_fst distinct_update)

lemma md_wf_extend: "md_wf md \<Longrightarrow> ToLower k = k \<Longrightarrow> md_wf (md_extend k v md)"
  by (simp add: md_extend_def md_wf_assign)

lemma fold_wf: "(\<And>x md. x \<in> set xs \<Longrightarrow> md_wf md \<Longrightarrow> md_wf (f x md)) \<Longrightarrow> md_wf md \<Longrightarrow> md_wf (fold f xs md)"
  by (induction xs arbitrary: md) auto

lemma add_pairs_ok:
  "even (length kv) \<Longrightarrow> \<exists>out. add_pairs kv md = Some out \<and> (md_wf md \<longrightarrow> md_wf out)"
  by (induction kv md rule: add_pairs.induct) (auto simp: md_wf_extend)

text \<open>The values of a key in a list of pairs, in order.\<close>

fun pair_values :: "string \<Rightarrow> string list \<Rightarrow> string list" where
  "pair_values key (k # v # kv) = (if ToLower k = key then [v] else []) @ pair_values key kv"
| "pair_values key kv = []"

lemma add_pairs_index: "add_pairs kv md = Some out \<Longrightarrow> md_index out k = md_index md k @ pair_values k kv"
  by (induction kv md rule: add_pairs.induct) auto

lemma merge_added_index:
  "\<forall>a \<in> set added. even (length a) \<Longrightarrow>
     \<exists>out. merge_added added md = Some out \<and> (md_wf md \<longrightarrow> md_wf out) \<and>
       (\<forall>k. md_index out k = md_index md k @ concat (map (pair_values k) added))"
proof (induction added arbitrary: md)
  case (Cons a added)
  then obtain out where out: "add_pairs a md = Some out" "md_wf md \<longrightarrow> md_wf out" using add_pairs_ok [of a md] by auto
  show ?case using Cons.IH [of out] Cons.prems out add_pairs_index [OF out(1)] by auto
qed simp

lemma match_pairs_values:
  "ToLower key = key \<Longrightarrow> case_option m id (match_pairs key m kv vals) = case_option m id vals @ pair_values key kv"
  by (induction key kv arbitrary: vals rule: pair_values.induct) (auto simp: EqualFold_def split: option.splits)

lemma match_added_values:
  "\<forall>a \<in> set added. even (length a) \<Longrightarrow> ToLower key = key \<Longrightarrow>
     \<exists>r. match_added key m added vals = Some r \<and>
       case_option m id r = case_option m id vals @ concat (map (pair_values key) added)"
proof (induction added arbitrary: vals)
  case (Cons a added)
  then show ?case using Cons.IH [of "match_pairs key m a vals"] match_pairs_values [of key m a vals] by auto
qed simp

lemma map_of_lowered:
  "map_of (fold (\<lambda>(k, v). md_assign (ToLower k) v) md acc) k =
     (case map_of (rev (map (\<lambda>(k, v). (ToLower k, v)) md)) k of None \<Rightarrow> map_of acc k | Some v \<Rightarrow> Some v)"
  by (induction md arbitrary: acc) (auto simp: md_assign_def update_conv' map_add_def split: option.splits)

lemma matched_lowered:
  assumes "distinct (map (ToLower \<circ> fst) md)" and "ToLower key = key"
  shows "md_index (lowered md) key = matched_value md key"
proof -
  let ?l = "map (\<lambda>(k, v). (ToLower k, v)) md"
  have d: "distinct (map fst ?l)" using assms(1) by (simp add: comp_def case_prod_unfold)
  have "map_of (rev ?l) = map_of ?l" using d by (subst map_of_inject_set) (simp_all only: rev_map [symmetric] distinct_rev set_rev)
  then have l: "map_of (lowered md) key = map_of ?l key"
    using map_of_lowered [of md "[]" key] by (simp add: lowered_def split: option.splits)
  have f: "map_of ?l key = (case find (\<lambda>(k, v). EqualFold k key) md of None \<Rightarrow> None | Some (k, v) \<Rightarrow> Some v)"
    using assms(2) by (induction md) (auto simp: EqualFold_def)
  have "map_of ?l key = Some v" if "map_of md key = Some v" for v
  proof -
    have "(key, v) \<in> set ?l" using map_of_SomeD [OF that] assms(2) by force
    then show ?thesis using d by simp
  qed
  then show ?thesis using l f by (auto simp: md_index_def matched_value_def split: option.splits)
qed

section \<open>Properties\<close>


definition md_demo :: md_context where
  "md_demo = \<lparr>mdIncomingKey = None, mdOutgoingKey = Some \<lparr>raw_md = [(''User'', [''a''])], raw_added = [[''USER'', ''b'']]\<rparr>\<rparr>"


text \<open>
  C37: The type of metadata: every constructor yields, and every operation keeps, a map whose keys are
  distinct and in lower case; both context readers return such a map whatever map was attached; and
  the operations read back, for keys in any case, as an array of lists would.
\<close>

theorem metadata_well_typed:
  "md_wf (New m) \<and> (even (length kv) \<longrightarrow> (\<exists>md. Pairs kv = Some md \<and> md_wf md)) \<and>
   (md_wf md \<longrightarrow> md_wf (MD_Set k vs md) \<and> md_wf (MD_Append k vs md) \<and> md_wf (MD_Delete k md)) \<and>
   (list_all md_wf mds \<longrightarrow> md_wf (MD_Join mds)) \<and>
   (FromIncomingContext ctx = Some inc \<longrightarrow> md_wf inc) \<and> (FromOutgoingContext ctx = Some (Some out) \<longrightarrow> md_wf out) \<and>
   MD_Get (MD_Append k vs md) k' = MD_Get md k' @ (if EqualFold k' k then vs else [])"
proof (intro conjI impI)
  show "md_wf (New m)" unfolding New_def by (rule fold_wf) (auto intro: md_wf_extend)
  show "\<exists>md. Pairs kv = Some md \<and> md_wf md" if "even (length kv)"
    using add_pairs_ok [OF that, of "[]"] that by (auto simp: Pairs_def)
  have low: "md_wf (lowered x)" for x unfolding lowered_def by (rule fold_wf) (auto intro: md_wf_assign)
  then show "md_wf inc" if "FromIncomingContext ctx = Some inc" using that by (auto simp: FromIncomingContext_def)
  show "md_wf out" if o: "FromOutgoingContext ctx = Some (Some out)"
  proof -
    obtain raw :: rawMD where raw: "merge_added (raw_added raw) (lowered (raw_md raw)) = Some out"
      using o by (auto simp: FromOutgoingContext_def split: option.splits)
    have "merge_added added x = Some y \<Longrightarrow> \<forall>a \<in> set added. even (length a)" for added x y
      by (induction added arbitrary: x) (auto split: if_splits Option.bind_splits)
    from merge_added_index [OF this [OF raw], of "lowered (raw_md raw)"] show ?thesis using raw low by auto
  qed
  show "md_wf (MD_Join mds)" if w: "list_all md_wf mds"
  proof -
    have "ToLower a = a" if "x \<in> set mds" "(a, b) \<in> set x" for x a b
      using w that by (auto simp: list_all_iff md_wf_def)
    then show ?thesis unfolding MD_Join_def by (intro fold_wf) (auto intro!: fold_wf md_wf_extend)
  qed
  show "md_wf (MD_Set k vs md)" if "md_wf md" using that by (simp add: MD_Set_def md_wf_assign)
  show "md_wf (MD_Append k vs md)" if "md_wf md" using that by (simp add: MD_Append_def md_wf_extend)
  show "md_wf (MD_Delete k md)" if "md_wf md"
    using that by (auto simp: MD_Delete_def md_wf_def list_all_iff AList.delete_eq intro: distinct_map_filter)
  show "MD_Get (MD_Append k vs md) k' = MD_Get md k' @ (if EqualFold k' k then vs else [])"
    by (auto simp: MD_Get_def MD_Append_def EqualFold_def)
qed

theorem metadata_well_typed_witness: "\<exists>md. Pairs [''K'', ''v''] = Some md \<and> md_wf md"
  using metadata_well_typed [of "[]" "[''K'', ''v'']"] by simp

text \<open>
  C39: Printing metadata reveals nothing but the listed protocol headers: two maps of the same size
  that agree on the keys of the list print the same, whatever their other keys and values are, and
  whatever the order in which the maps are visited.
\<close>

theorem printing_reveals_only_loggable:
  assumes "distinct (map fst md)" and "distinct (map fst md')" and "length md = length md'"
    and "\<And>k. loggable k \<Longrightarrow> map_of md k = map_of md' k"
  shows "MD_String md = MD_String md'"
proof -
  have "set (filter loggable (map fst md)) = set (filter loggable (map fst md'))"
    using assms(4) by (auto simp: image_iff) (metis fst_conv map_of_eq_None_iff not_None_eq map_of_SomeD image_iff)+
  then have "mset (filter loggable (map fst md)) = mset (filter loggable (map fst md'))"
    using assms(1,2) by (subst (asm) set_eq_iff_mset_eq_distinct) (simp_all only: distinct_filter)
  then have k: "sort (filter loggable (map fst md)) = sort (filter loggable (map fst md'))"
    by (intro properties_for_sort) (simp_all only: mset_sort sorted_sort)
  have "md_index md x = md_index md' x" if "x \<in> set (sort (filter loggable (map fst md')))" for x
    using that assms(4) by (simp add: md_index_def)
  then have "map (\<lambda>k. k @ '':['' @ joined '' '' (md_index md k) @ '']'') (sort (filter loggable (map fst md'))) =
      map (\<lambda>k. k @ '':['' @ joined '' '' (md_index md' k) @ '']'') (sort (filter loggable (map fst md')))" by simp
  then show ?thesis using k assms(3) by (simp only: MD_String_def Let_def)
qed

theorem printing_reveals_only_loggable_witness:
  "MD_String [(''te'', [''trailers'']), (''token'', [''secret''])] = MD_String [(''id'', [''x'', ''y'']), (''te'', [''trailers''])]"
  by (rule printing_reveals_only_loggable) (auto simp: loggable_def loggableMetadataKeys_def ToLower_def lower_char_def)

end
