(* ===== verification/Http2_Request.thy ===== *)
theory Http2_Request
  imports Control_Buffer Metadata
begin

text \<open>
  The headers of a request, from the client transport that makes them
  (\<open>createHeaderFields\<close> of \<^verbatim>\<open>internal/transport/http2_client.go\<close>) to the server transport that accepts or
  refuses the stream (\<open>operateHeaders\<close> of \<^verbatim>\<open>internal/transport/http2_server.go\<close>). The header compression
  and the frames in between are not part of this theory: a header frame is the list of its fields.
  Texts of messages that only quote a value are abbreviated.
\<close>

section \<open>Status codes\<close>

record status =
  st_code :: uint32
  st_message :: string

definition codes_Unknown :: uint32 where "codes_Unknown = 2"
definition codes_InvalidArgument :: uint32 where "codes_InvalidArgument = 3"
definition codes_DeadlineExceeded :: uint32 where "codes_DeadlineExceeded = 4"
definition codes_PermissionDenied :: uint32 where "codes_PermissionDenied = 7"
definition codes_Internal :: uint32 where "codes_Internal = 13"
definition codes_Unauthenticated :: uint32 where "codes_Unauthenticated = 16"

definition IsRestrictedControlPlaneCode :: "status \<Rightarrow> bool" where
  "IsRestrictedControlPlaneCode s = (st_code s \<in> set [3, 5, 6, 9, 10, 11, 15])"

definition new_status :: "uint32 \<Rightarrow> string \<Rightarrow> status" where
  "new_status c m = \<lparr>st_code = c, st_message = m\<rparr>"

section \<open>The client: making the header fields\<close>

text \<open>
  Credentials are plugins: what \<open>GetRequestMetadata\<close> returns for an audience is a parameter. A
  function of the user fails with an error that is a status or one that is not.
\<close>

datatype user_error = StatusError status | OtherError string

record PerRPCCredentials =
  RequireTransportSecurity :: bool
  GetRequestMetadata :: "string \<Rightarrow> user_error + (string \<times> string) list"

text \<open>The security of a connection: no information, none in the common form, or a level from 0 (invalid) to 3.\<close>

type_synonym auth_info = "nat option option"

definition PrivacyAndIntegrity :: nat where
  "PrivacyAndIntegrity = 3"

definition CheckSecurityLevel :: "auth_info \<Rightarrow> nat \<Rightarrow> string option" where
  "CheckSecurityLevel ai level =
     (case ai of
        None \<Rightarrow> Some ''AuthInfo is nil''
      | Some None \<Rightarrow> None
      | Some (Some l) \<Rightarrow> if l = 0 then None else if l < level then Some ''requires SecurityLevel'' else None)"

record CallHdr =
  Host :: string
  Method :: string
  SendCompress :: string
  AcceptedCompressors :: "string option"
  Creds :: "PerRPCCredentials option"
  ch_ContentSubtype :: string
  PreviousAttempts :: nat

record http2Client =
  c_scheme :: string
  c_userAgent :: string
  c_registeredCompressors :: string
  c_md :: MD
  c_perRPCCreds :: "PerRPCCredentials list"
  c_isSecure :: bool
  c_authInfo :: auth_info

definition createAudience :: "http2Client \<Rightarrow> CallHdr \<Rightarrow> string" where
  "createAudience t callHdr =
     (if c_perRPCCreds t = [] \<and> Creds callHdr = None then []
      else let host = (if HasSuffix (Host callHdr) '':443'' then take (length (Host callHdr) - 4) (Host callHdr) else Host callHdr);
               pos = (case LastIndex (Method callHdr) CHR ''/'' of None \<Rightarrow> length (Method callHdr) | Some p \<Rightarrow> p)
           in ''https://'' @ host @ take pos (Method callHdr))"

text \<open>Adding the data of one credential; \<open>other\<close> is the code of an error that is no status.\<close>

fun add_auth :: "(string \<times> string) list \<Rightarrow> (string \<times> string) list \<Rightarrow> status + (string \<times> string) list" where
  "add_auth [] authData = Inr authData"
| "add_auth ((k, v) # data) authData =
     (case ValidatePair (ToLower k) [v] of
        Some err \<Rightarrow> Inl (new_status codes_Internal err)
      | None \<Rightarrow> add_auth data (AList.update (ToLower k) v authData))"

definition cred_status :: "uint32 \<Rightarrow> user_error \<Rightarrow> status" where
  "cred_status other e =
     (case e of
        StatusError st \<Rightarrow>
          if IsRestrictedControlPlaneCode st
          then new_status codes_Internal (''transport: received per-RPC creds error with illegal status: '' @ st_message st)
          else st
      | OtherError m \<Rightarrow> new_status other (''transport: per-RPC creds failed due to error: '' @ m))"

fun getTrAuthData :: "PerRPCCredentials list \<Rightarrow> string \<Rightarrow> (string \<times> string) list \<Rightarrow> status + (string \<times> string) list" where
  "getTrAuthData [] audience authData = Inr authData"
| "getTrAuthData (c # cs) audience authData =
     (case GetRequestMetadata c audience of
        Inl e \<Rightarrow> Inl (cred_status codes_Unauthenticated e)
      | Inr data \<Rightarrow>
          (case add_auth data authData of Inl st \<Rightarrow> Inl st | Inr authData1 \<Rightarrow> getTrAuthData cs audience authData1))"

definition getCallAuthData :: "http2Client \<Rightarrow> string \<Rightarrow> CallHdr \<Rightarrow> status + (string \<times> string) list" where
  "getCallAuthData t audience callHdr =
     (case Creds callHdr of
        None \<Rightarrow> Inr []
      | Some c \<Rightarrow>
          if RequireTransportSecurity c \<and>
             (\<not> c_isSecure t \<or> CheckSecurityLevel (c_authInfo t) PrivacyAndIntegrity \<noteq> None)
          then Inl (new_status codes_Unauthenticated ''transport: cannot send secure credentials on an insecure connection'')
          else
            (case GetRequestMetadata c audience of
               Inl e \<Rightarrow> Inl (cred_status codes_Internal e)
             | Inr data \<Rightarrow> add_auth data []))"

definition auth_fields :: "(string \<times> string) list \<Rightarrow> header_fields" where
  "auth_fields authData = map (\<lambda>(k, v). (k, encodeMetadataHeader k v)) authData"

text \<open>The fields of a map, reserved headers left out; the client and the server write them alike.\<close>

definition appendHeaderFieldsFromMD :: "MD \<Rightarrow> header_fields" where
  "appendHeaderFieldsFromMD md =
     concat (map (\<lambda>(k, vv). if isReservedHeader k then [] else map (\<lambda>v. (k, encodeMetadataHeader k v)) vv) md)"

fun added_fields :: "string list \<Rightarrow> header_fields" where
  "added_fields (k # v # kv) =
     (if isReservedHeader (ToLower k) then [] else [(ToLower k, encodeMetadataHeader (ToLower k) v)]) @ added_fields kv"
| "added_fields kv = []"

text \<open>The metadata of the transport is validated as it is written.\<close>

fun transport_fields :: "MD \<Rightarrow> status + header_fields" where
  "transport_fields [] = Inr []"
| "transport_fields ((k, vv) # md) =
     (if isReservedHeader k then transport_fields md
      else
        (case ValidatePair k vv of
           Some err \<Rightarrow> Inl (new_status codes_Internal err)
         | None \<Rightarrow>
             (case transport_fields md of
                Inl st \<Rightarrow> Inl st
              | Inr hf \<Rightarrow> Inr (map (\<lambda>v. (k, encodeMetadataHeader k v)) vv @ hf))))"

definition accept_encoding :: "string list \<Rightarrow> http2Client \<Rightarrow> CallHdr \<Rightarrow> string" where
  "accept_encoding names t callHdr =
     (let registered = (case AcceptedCompressors callHdr of None \<Rightarrow> c_registeredCompressors t | Some a \<Rightarrow> a)
      in if SendCompress callHdr \<noteq> [] \<and> SendCompress callHdr \<notin> set names
         then (if registered \<noteq> [] then registered @ '','' else registered) @ SendCompress callHdr
         else registered)"

text \<open>
  \<open>names\<close> are the registered compressors, \<open>timeout\<close> is the time until the deadline of the context, if
  it has one, and \<open>ctx\<close> holds the metadata.
\<close>

definition protocol_fields :: "string list \<Rightarrow> http2Client \<Rightarrow> CallHdr \<Rightarrow> header_fields" where
  "protocol_fields names t callHdr =
     [('':method'', ''POST''), ('':scheme'', c_scheme t), ('':path'', Method callHdr), ('':authority'', Host callHdr),
      (''content-type'', ContentType (ch_ContentSubtype callHdr)), (''user-agent'', c_userAgent t), (''te'', ''trailers'')] @
     (if PreviousAttempts callHdr > 0 then [(''grpc-previous-rpc-attempts'', FormatInt (PreviousAttempts callHdr))] else []) @
     (if SendCompress callHdr \<noteq> [] then [(''grpc-encoding'', SendCompress callHdr)] else []) @
     (if accept_encoding names t callHdr \<noteq> [] then [(''grpc-accept-encoding'', accept_encoding names t callHdr)] else [])"

definition createHeaderFields ::
  "string list \<Rightarrow> http2Client \<Rightarrow> int option \<Rightarrow> md_context \<Rightarrow> CallHdr \<Rightarrow> status + header_fields"
where
  "createHeaderFields names t timeout ctx callHdr =
     (case getTrAuthData (c_perRPCCreds t) (createAudience t callHdr) [] of
        Inl st \<Rightarrow> Inl st
      | Inr authData \<Rightarrow>
     (case getCallAuthData t (createAudience t callHdr) callHdr of
        Inl st \<Rightarrow> Inl st
      | Inr callAuthData \<Rightarrow>
     (if (case timeout of None \<Rightarrow> False | Some d \<Rightarrow> d \<le> 0)
      then Inl (new_status codes_DeadlineExceeded ''context deadline exceeded'')
      else
        (case transport_fields (c_md t) of
           Inl st \<Rightarrow> Inl st
         | Inr tf \<Rightarrow>
             Inr (protocol_fields names t callHdr @
               (case timeout of None \<Rightarrow> [] | Some d \<Rightarrow> [(''grpc-timeout'', EncodeDuration d)]) @
               auth_fields authData @ auth_fields callAuthData @
               (case fromOutgoingContextRaw ctx of
                  None \<Rightarrow> []
                | Some (md, added) \<Rightarrow> appendHeaderFieldsFromMD md @ concat (map added_fields added)) @
               tf)))))"

text \<open>The validation of the metadata of a context when a stream is made (\<open>newClientStream\<close>, \<^verbatim>\<open>stream.go\<close>); an odd number of strings panics.\<close>

fun validate_pairs :: "string list \<Rightarrow> string option option" where
  "validate_pairs [] = Some None"
| "validate_pairs [k] = None"
| "validate_pairs (k # v # kvs) = (case ValidatePair k [v] of Some err \<Rightarrow> Some (Some err) | None \<Rightarrow> validate_pairs kvs)"

fun validate_added :: "string list list \<Rightarrow> string option option" where
  "validate_added [] = Some None"
| "validate_added (kvs # added) =
     (case validate_pairs kvs of
        None \<Rightarrow> None | Some (Some err) \<Rightarrow> Some (Some err) | Some None \<Rightarrow> validate_added added)"

definition validate_outgoing :: "md_context \<Rightarrow> string option option" where
  "validate_outgoing ctx =
     (case fromOutgoingContextRaw ctx of
        None \<Rightarrow> Some None
      | Some (md, added) \<Rightarrow> (case Validate md of Some err \<Rightarrow> Some (Some err) | None \<Rightarrow> validate_added added))"

section \<open>The server: accepting a stream\<close>

text \<open>HTTP/2 error codes and HTTP statuses.\<close>

definition ErrCodeProtocol :: uint32 where "ErrCodeProtocol = 1"
definition ErrCodeInternal :: uint32 where "ErrCodeInternal = 2"
definition ErrCodeFrameSize :: uint32 where "ErrCodeFrameSize = 6"
definition ErrCodeRefusedStream :: uint32 where "ErrCodeRefusedStream = 7"

record MetaHeadersFrame =
  mh_StreamID :: uint32
  mh_Truncated :: bool
  mh_StreamEnded :: bool
  mh_Fields :: header_fields

text \<open>\<open>ss_timeout\<close> is the timeout of the context of the stream, \<open>ss_md\<close> its incoming metadata.\<close>

record ServerStream =
  ss_id :: uint32
  ss_limit :: uint32
  ss_contentSubtype :: string
  ss_recvCompress :: string
  ss_clientAdvertisedCompressors :: string
  ss_method :: string
  ss_timeout :: "int option"
  ss_md :: MD
  ss_readDone :: bool

text \<open>
  The state of the server transport that the handler uses. The size of a header field is that of the
  header compression library; the in-tap handler, if any, is the user's function. \<open>t_limit\<close> is the
  bound of the control buffer on queued responses; \<open>t_idle\<close> tells whether the transport is idle.
\<close>

record http2Server =
  t_maxStreamID :: uint32
  t_initialWindowSize :: uint32
  t_maxStreams :: uint32
  t_activeStreams :: "(uint32 \<times> ServerStream) list"
  t_reachable :: bool
  t_idle :: bool
  t_inTapHandle :: "(string \<Rightarrow> MD \<Rightarrow> user_error option) option"
  t_maxSendHeaderListSize :: "uint32 option"
  t_hf_size :: "string \<times> string \<Rightarrow> nat"
  t_limit :: int
  t_controlBuf :: controlBuffer

text \<open>What the loop over the header fields collects.\<close>

record request =
  rq_isGRPC :: bool
  rq_contentType :: string
  rq_mdata :: MD
  rq_httpMethod :: string
  rq_protocolError :: bool
  rq_headerError :: "status option"
  rq_timeoutSet :: bool
  rq_timeout :: int
  rq_contentSubtype :: string
  rq_advertised :: string
  rq_recvCompress :: string
  rq_method :: string

definition empty_request :: request where
  "empty_request =
     \<lparr>rq_isGRPC = False, rq_contentType = [], rq_mdata = [], rq_httpMethod = [], rq_protocolError = False,
      rq_headerError = None, rq_timeoutSet = False, rq_timeout = 0, rq_contentSubtype = [], rq_advertised = [],
      rq_recvCompress = [], rq_method = []\<rparr>"

definition keep_field :: "string \<Rightarrow> string \<Rightarrow> request \<Rightarrow> request" where
  "keep_field name v r = r\<lparr>rq_mdata := md_extend name [v] (rq_mdata r)\<rparr>"

definition request_field :: "string \<times> string \<Rightarrow> request \<Rightarrow> request" where
  "request_field hf r =
     (let name = fst hf; v = snd hf in
      if name = ''content-type'' then
        (case ContentSubtype v of
           None \<Rightarrow> r\<lparr>rq_contentType := v\<rparr>
         | Some sub \<Rightarrow> (keep_field name v r)\<lparr>rq_contentSubtype := sub, rq_isGRPC := True\<rparr>)
      else if name = ''grpc-accept-encoding'' then
        let r1 = keep_field name v r
        in if v = [] then r1
           else r1\<lparr>rq_advertised := (if rq_advertised r1 \<noteq> [] then rq_advertised r1 @ '','' @ v else v)\<rparr>
      else if name = ''grpc-encoding'' then r\<lparr>rq_recvCompress := v\<rparr>
      else if name = '':method'' then r\<lparr>rq_httpMethod := v\<rparr>
      else if name = '':path'' then r\<lparr>rq_method := v\<rparr>
      else if name = ''grpc-timeout'' then
        (case decodeTimeout v of
           Inl err \<Rightarrow> r\<lparr>rq_timeoutSet := True, rq_timeout := 0,
             rq_headerError := Some (new_status codes_Internal (''malformed grpc-timeout: '' @ err))\<rparr>
         | Inr d \<Rightarrow> r\<lparr>rq_timeoutSet := True, rq_timeout := d\<rparr>)
      else if name = ''connection'' then r\<lparr>rq_protocolError := True\<rparr>
      else if isReservedHeader name \<and> \<not> isWhitelistedHeader name then r
      else
        (case decodeMetadataHeader name v of
           Inl err \<Rightarrow> r\<lparr>rq_headerError := Some (new_status codes_Internal (''malformed binary metadata: '' @ err))\<rparr>
         | Inr d \<Rightarrow> keep_field name d r))"

text \<open>Queueing control items; \<open>put\<close> on a closed buffer does nothing.\<close>

definition t_put :: "cbItem \<Rightarrow> http2Server \<Rightarrow> http2Server" where
  "t_put i t = t\<lparr>t_controlBuf := snd (cb_put (t_limit t) i (t_controlBuf t))\<rparr>"

definition put_rst :: "uint32 \<Rightarrow> uint32 \<Rightarrow> http2Server \<Rightarrow> http2Server" where
  "put_rst streamID rstCode =
     t_put (CleanupStream \<lparr>cs_streamID = streamID, cs_rst = True, cs_rstCode = rstCode, cs_onWrite = Some 0\<rparr>)"

fun checked_size :: "(string \<times> string \<Rightarrow> nat) \<Rightarrow> uint32 \<Rightarrow> header_fields \<Rightarrow> nat \<Rightarrow> bool" where
  "checked_size hf_size m [] sz = True"
| "checked_size hf_size m (f # hf) sz = (if sz + hf_size f > unat m then False else checked_size hf_size m hf (sz + hf_size f))"

definition checkForHeaderListSize :: "http2Server \<Rightarrow> header_fields \<Rightarrow> bool" where
  "checkForHeaderListSize t hf =
     (case t_maxSendHeaderListSize t of None \<Rightarrow> True | Some m \<Rightarrow> checked_size (t_hf_size t) m hf 0)"

text \<open>A status without details, as every status of this handler.\<close>

definition abort_fields :: "string \<Rightarrow> status \<Rightarrow> nat \<Rightarrow> header_fields" where
  "abort_fields contentSubtype stat httpStatus =
     [('':status'', FormatInt httpStatus), (''content-type'', ContentType contentSubtype),
      (''grpc-status'', FormatInt (unat (st_code stat))), (''grpc-message'', encodeGrpcMessage (st_message stat))]"

definition writeEarlyAbort :: "uint32 \<Rightarrow> string \<Rightarrow> status \<Rightarrow> nat \<Rightarrow> bool \<Rightarrow> http2Server \<Rightarrow> http2Server" where
  "writeEarlyAbort streamID contentSubtype stat httpStatus rst t =
     (let hf = abort_fields contentSubtype stat httpStatus;
          ((success, _), cb) = executeAndPut (t_limit t) (Some (checkForHeaderListSize t hf))
            (Some (EarlyAbortStream \<lparr>eas_streamID = streamID, eas_rst = rst, eas_hf = hf\<rparr>)) (t_controlBuf t);
          t1 = t\<lparr>t_controlBuf := cb\<rparr>
      in if success then t1 else put_rst streamID ErrCodeInternal t1)"

text \<open>The handling of the authority: a missing \<open>:authority\<close> is taken from \<open>host\<close>, which is removed.\<close>

definition set_authority :: "MD \<Rightarrow> MD" where
  "set_authority mdata =
     (if md_index mdata '':authority'' = [] then
        (case map_of mdata ''host'' of
           None \<Rightarrow> mdata
         | Some host \<Rightarrow> AList.delete ''host'' (md_assign '':authority'' host mdata))
      else AList.delete ''host'' mdata)"

text \<open>
  The checks of the request before the transport is locked: the status with which the stream is
  aborted, a reset, or the metadata of the stream.
\<close>

datatype refusal = Abort status nat | Reset uint32

definition check_request :: "request \<Rightarrow> refusal + MD" where
  "check_request r =
     (if length (md_index (rq_mdata r) '':authority'') > 1 \<or> length (md_index (rq_mdata r) ''host'') > 1
      then Inl (Abort (new_status codes_Internal
        ''num values of :authority and host, both must only have 1 value as per HTTP/2 spec'') 400)
      else if rq_protocolError r then Inl (Reset ErrCodeProtocol)
      else if \<not> rq_isGRPC r
      then Inl (Abort (new_status codes_InvalidArgument (''invalid gRPC request content-type '' @ rq_contentType r)) 415)
      else
        (case rq_headerError r of
           Some st \<Rightarrow> Inl (Abort st 400)
         | None \<Rightarrow>
             let mdata = set_authority (rq_mdata r)
             in if md_index mdata '':authority'' = []
                then Inl (Abort (new_status codes_Internal ''no host or :authority header present'') 400)
                else Inr mdata))"

definition refuse :: "uint32 \<Rightarrow> request \<Rightarrow> bool \<Rightarrow> refusal \<Rightarrow> http2Server \<Rightarrow> http2Server" where
  "refuse streamID r ended x =
     (case x of
        Abort st http \<Rightarrow> writeEarlyAbort streamID (rq_contentSubtype r) st http (\<not> ended)
      | Reset code \<Rightarrow> put_rst streamID code)"

text \<open>
  The checks under the lock of the transport. \<open>expired\<close> tells that the context of the stream is over
  already; a timeout that is not positive has expired at once.
\<close>

definition admit :: "bool \<Rightarrow> request \<Rightarrow> MD \<Rightarrow> http2Server \<Rightarrow> refusal option" where
  "admit expired r mdata t =
     (if of_nat (length (t_activeStreams t)) \<ge> t_maxStreams t then Some (Reset ErrCodeRefusedStream)
      else if rq_httpMethod r \<noteq> ''POST''
      then Some (Abort (new_status codes_Internal ''Received a HEADERS frame with :method which should be POST'') 405)
      else
        (case (case t_inTapHandle t of None \<Rightarrow> None | Some h \<Rightarrow> h (rq_method r) mdata) of
           Some (StatusError st) \<Rightarrow> Some (Abort st 200)
         | Some (OtherError m) \<Rightarrow> Some (Abort (new_status codes_PermissionDenied m) 200)
         | None \<Rightarrow>
             if expired \<or> rq_timeoutSet r \<and> rq_timeout r \<le> 0
             then Some (Abort (new_status codes_DeadlineExceeded ''context deadline exceeded'') 200)
             else None))"

datatype op_result = IllegalStreamID | Refused | Handled ServerStream

definition new_stream :: "http2Server \<Rightarrow> MetaHeadersFrame \<Rightarrow> request \<Rightarrow> MD \<Rightarrow> ServerStream" where
  "new_stream t frame r mdata =
     \<lparr>ss_id = mh_StreamID frame, ss_limit = t_initialWindowSize t, ss_contentSubtype = rq_contentSubtype r,
      ss_recvCompress = rq_recvCompress r, ss_clientAdvertisedCompressors = rq_advertised r, ss_method = rq_method r,
      ss_timeout = (if rq_timeoutSet r then Some (rq_timeout r) else None), ss_md = mdata, ss_readDone = mh_StreamEnded frame\<rparr>"

definition register_item :: "ServerStream \<Rightarrow> cbItem" where
  "register_item s = RegisterStream \<lparr>rs_streamID = ss_id s, rs_wq = unat (ss_id s)\<rparr>"

definition accept_stream :: "ServerStream \<Rightarrow> http2Server \<Rightarrow> http2Server" where
  "accept_stream s t =
     (let streams = AList.update (ss_id s) s (t_activeStreams t)
      in t_put (register_item s)
           (t\<lparr>t_activeStreams := streams, t_idle := (if length streams = 1 then False else t_idle t)\<rparr>))"

definition operateHeaders :: "bool \<Rightarrow> MetaHeadersFrame \<Rightarrow> http2Server \<Rightarrow> op_result \<times> http2Server" where
  "operateHeaders expired frame t0 =
     (let streamID = mh_StreamID frame in
      if streamID mod 2 \<noteq> 1 \<or> streamID \<le> t_maxStreamID t0 then (IllegalStreamID, t0)
      else
        let t = t0\<lparr>t_maxStreamID := streamID\<rparr> in
        if mh_Truncated frame then (Refused, put_rst streamID ErrCodeFrameSize t)
        else
          let r = fold request_field (mh_Fields frame) empty_request in
          (case check_request r of
             Inl x \<Rightarrow> (Refused, refuse streamID r (mh_StreamEnded frame) x t)
           | Inr mdata \<Rightarrow>
               if \<not> t_reachable t then (Refused, t)
               else
                 (case admit expired r mdata t of
                    Some x \<Rightarrow> (Refused, refuse streamID r (mh_StreamEnded frame) x t)
                  | None \<Rightarrow> let s = new_stream t frame r mdata in (Handled s, accept_stream s t))))"

end
