(* ===== verification/Request_System.thy ===== *)
theory Request_System
  imports Http2_Request
begin

text \<open>
  Client and server together: what the server transport makes of the header fields that the client
  transport writes, and how it answers header frames of any kind.
\<close>

section \<open>User metadata on the wire\<close>

text \<open>Keys that carry metadata of the user from the client to the server unchanged.\<close>

definition user_key :: "string \<Rightarrow> bool" where
  "user_key k =
     (\<not> isReservedHeader k \<and>
      k \<notin> set [''connection'', ''host'', ''grpc-accept-encoding'', ''grpc-previous-rpc-attempts''])"

definition encoded :: "(string \<times> string) list \<Rightarrow> header_fields" where
  "encoded kvs = map (\<lambda>(k, v). (k, encodeMetadataHeader k v)) kvs"

definition values_of :: "string \<Rightarrow> (string \<times> string) list \<Rightarrow> string list" where
  "values_of k kvs = map snd (filter (\<lambda>p. fst p = k) kvs)"

lemma values_of_append [simp]: "values_of k (a @ b) = values_of k a @ values_of k b"
  by (simp add: values_of_def)

lemma encoded_append: "encoded a @ encoded b = encoded (a @ b)"
  by (simp add: encoded_def)

lemma reserved_fields:
  "isReservedHeader ''content-type''" "isReservedHeader ''grpc-encoding''" "isReservedHeader '':method''"
  "isReservedHeader '':path''" "isReservedHeader ''grpc-timeout''"
  by (simp_all add: isReservedHeader_def)

lemma user_key_field:
  assumes "user_key k"
  shows "request_field (k, encodeMetadataHeader k v) r = keep_field k v r"
proof -
  have r: "\<not> isReservedHeader k" "k \<noteq> ''connection''" "k \<noteq> ''grpc-accept-encoding''"
    using assms by (simp_all add: user_key_def)
  then have "k \<noteq> ''content-type''" "k \<noteq> ''grpc-encoding''" "k \<noteq> '':method''" "k \<noteq> '':path''" "k \<noteq> ''grpc-timeout''"
    using reserved_fields by metis+
  then show ?thesis using r unfolding request_field_def Let_def fst_conv snd_conv
    by (simp only: if_False header_roundtrip sum.case simp_thms)
qed

lemma fold_user_fields:
  "list_all (\<lambda>p. user_key (fst p)) kvs \<Longrightarrow>
     fold request_field (encoded kvs) r = r\<lparr>rq_mdata := fold (\<lambda>(k, v). md_extend k [v]) kvs (rq_mdata r)\<rparr>"
  by (induction kvs arbitrary: r) (auto simp: encoded_def user_key_field keep_field_def)

lemma fold_extend_index:
  "md_index (fold (\<lambda>(k, v). md_extend k [v]) kvs md) k = md_index md k @ values_of k kvs"
  by (induction kvs arbitrary: md) (auto simp: values_of_def)

text \<open>The pairs behind the fields of each source.\<close>

definition flat :: "MD \<Rightarrow> (string \<times> string) list" where
  "flat md = concat (map (\<lambda>(k, vv). if isReservedHeader k then [] else map (Pair k) vv) md)"

fun pairs_of :: "string list \<Rightarrow> (string \<times> string) list" where
  "pairs_of (k # v # kv) = (if isReservedHeader (ToLower k) then [] else [(ToLower k, v)]) @ pairs_of kv"
| "pairs_of kv = []"

lemma fields_flat: "appendHeaderFieldsFromMD md = encoded (flat md)"
  by (induction md) (auto simp: appendHeaderFieldsFromMD_def flat_def encoded_def)

lemma added_fields_pairs: "added_fields kv = encoded (pairs_of kv)"
  by (induction kv rule: pairs_of.induct) (auto simp: encoded_def)

lemma concat_added_fields: "concat (map added_fields added) = encoded (concat (map pairs_of added))"
  by (induction added) (auto simp: added_fields_pairs encoded_def)

lemma transport_fields_flat: "transport_fields md = Inr hf \<Longrightarrow> hf = encoded (flat md)"
  by (induction md arbitrary: hf rule: transport_fields.induct)
    (auto simp: flat_def encoded_def split: if_splits option.splits sum.splits)

lemma flat_values:
  assumes "distinct (map fst md)" and "\<not> isReservedHeader k"
  shows "values_of k (flat md) = md_index md k"
  using assms(1)
proof (induction md)
  case (Cons p md)
  obtain k' vv where p: "p = (k', vv)" by (cases p)
  have none: "values_of k (flat md) = []" if "k' = k"
    using Cons p that by (simp add: md_index_def map_of_eq_None_iff [symmetric] split: option.splits)
  have "values_of k (flat (p # md)) = (if k' = k then vv else []) @ values_of k (flat md)"
    using p assms(2) by (auto simp: flat_def values_of_def comp_def)
  then show ?case using Cons none p by (auto simp: md_index_def)
qed (simp add: flat_def values_of_def md_index_def)

lemma pairs_values: "\<not> isReservedHeader k \<Longrightarrow> values_of k (pairs_of kv) = pair_values k kv"
  by (induction kv rule: pairs_of.induct) (auto simp: values_of_def)

lemma concat_pairs_values:
  "\<not> isReservedHeader k \<Longrightarrow> values_of k (concat (map pairs_of added)) = concat (map (pair_values k) added)"
  by (induction added) (auto simp: pairs_values, simp add: values_of_def)

text \<open>A validated map is not changed by lowering its keys, but for pseudo-headers, which are not sent.\<close>

lemma valid_key_lower: "ValidateKey k = None \<Longrightarrow> ToLower k = k \<or> hd k = CHR '':''"
proof -
  assume "ValidateKey k = None"
  then have "list_all key_char k \<or> hd k = CHR '':''" by (auto simp: ValidateKey_def list_ex_iff list_all_iff split: if_splits)
  moreover have "lower_char c = c" if "key_char c" for c
    using that by (auto simp: key_char_def lower_char_def char_ord_def Let_def)
  ultimately show ?thesis by (auto simp: ToLower_def list_all_iff intro: map_idI)
qed

lemma lowered_values:
  assumes "distinct (map fst md)" and "Validate md = None" and "\<not> isReservedHeader k"
  shows "md_index (lowered md) k = md_index md k"
proof -
  have key: "ToLower k' = k \<longleftrightarrow> k' = k" if "(k', v) \<in> set md" for k' v
  proof -
    have "ValidatePair k' v = None" using assms(2) that by (induction md rule: Validate.induct) (auto split: option.splits)
    then have v: "ValidateKey k' = None" by (auto simp: ValidatePair_def split: option.splits)
    then have "k' \<noteq> []" by (auto simp: ValidateKey_def)
    show ?thesis
    proof (cases "hd k' = CHR '':''")
      case True
      have "lower_char CHR '':'' = CHR '':''" by (simp add: lower_char_def)
      then have "hd (ToLower k') = CHR '':''" "ToLower k' \<noteq> []" using True \<open>k' \<noteq> []\<close> by (simp_all add: ToLower_def hd_map)
      then show ?thesis using True \<open>k' \<noteq> []\<close> assms(3) by (auto simp: isReservedHeader_def)
    next
      case False
      then show ?thesis using valid_key_lower [OF v] by auto
    qed
  qed
  have "(\<forall>(k', v) \<in> set xs. ToLower k' = k \<longleftrightarrow> k' = k) \<Longrightarrow> map_of (map (\<lambda>(k, v). (ToLower k, v)) xs) k = map_of xs k" for xs :: MD
    by (induction xs) auto
  from this [of "rev md"] have "map_of (lowered md) k = map_of (rev md) k"
    using key map_of_lowered [of md "[]" k] by (auto simp: lowered_def rev_map split: option.splits)
  moreover have "map_of (rev md) = map_of md"
    using assms(1) by (subst map_of_inject_set) (simp_all only: rev_map [symmetric] distinct_rev set_rev)
  ultimately show ?thesis by (simp add: md_index_def)
qed

lemma validated_even: "validate_added added = Some None \<Longrightarrow> \<forall>a \<in> set added. even (length a)"
proof (induction added)
  case (Cons a added)
  have "validate_pairs a = Some None \<Longrightarrow> even (length a)"
    by (induction a rule: validate_pairs.induct) (auto split: option.splits)
  then show ?case using Cons by (auto split: option.splits)
qed simp

text \<open>The metadata of the call that a context holds.\<close>

definition outgoing_md :: "md_context \<Rightarrow> MD" where
  "outgoing_md ctx = (case FromOutgoingContext ctx of Some (Some out) \<Rightarrow> out | _ \<Rightarrow> [])"

definition context_pairs :: "md_context \<Rightarrow> (string \<times> string) list" where
  "context_pairs ctx =
     (case fromOutgoingContextRaw ctx of None \<Rightarrow> [] | Some (md, added) \<Rightarrow> flat md @ concat (map pairs_of added))"

lemma context_values:
  assumes "validate_outgoing ctx = Some None" and "\<And>raw. mdOutgoingKey ctx = Some raw \<Longrightarrow> distinct (map fst (raw_md raw))"
    and "\<not> isReservedHeader k"
  shows "values_of k (context_pairs ctx) = md_index (outgoing_md ctx) k"
proof (cases "mdOutgoingKey ctx")
  case None
  then show ?thesis
    by (simp add: context_pairs_def fromOutgoingContextRaw_def outgoing_md_def FromOutgoingContext_def values_of_def md_index_def)
next
  case (Some raw)
  then have v: "Validate (raw_md raw) = None" "validate_added (raw_added raw) = Some None"
    using assms(1) by (auto simp: validate_outgoing_def fromOutgoingContextRaw_def split: option.splits)
  obtain out where "merge_added (raw_added raw) (lowered (raw_md raw)) = Some out"
    "\<And>k. md_index out k = md_index (lowered (raw_md raw)) k @ concat (map (pair_values k) (raw_added raw))"
    using merge_added_index [OF validated_even [OF v(2)]] by blast
  then show ?thesis
    using Some assms(2,3) flat_values [of "raw_md raw" k] lowered_values [OF _ v(1), of k] concat_pairs_values [of k]
    by (simp add: context_pairs_def fromOutgoingContextRaw_def outgoing_md_def FromOutgoingContext_def)
qed

section \<open>The fields of the protocol\<close>

lemma content_subtype_of_type: "ContentSubtype (ContentType sub) = Some sub"
  by (auto simp: ContentSubtype_def ContentType_def HasPrefix_def nth_append)

lemma request_literal:
  "request_field ('':method'', v) r = r\<lparr>rq_httpMethod := v\<rparr>"
  "request_field ('':scheme'', v) r = r"
  "request_field ('':path'', v) r = r\<lparr>rq_method := v\<rparr>"
  "request_field ('':authority'', v) r = keep_field '':authority'' v r"
  "request_field (''content-type'', ContentType sub) r =
     (keep_field ''content-type'' (ContentType sub) r)\<lparr>rq_contentSubtype := sub, rq_isGRPC := True\<rparr>"
  "request_field (''user-agent'', v) r = keep_field ''user-agent'' v r"
  "request_field (''te'', v) r = r"
  "request_field (''grpc-previous-rpc-attempts'', v) r = keep_field ''grpc-previous-rpc-attempts'' v r"
  "request_field (''grpc-encoding'', v) r = r\<lparr>rq_recvCompress := v\<rparr>"
  "v \<noteq> [] \<Longrightarrow> rq_advertised r = [] \<Longrightarrow>
     request_field (''grpc-accept-encoding'', v) r = (keep_field ''grpc-accept-encoding'' v r)\<lparr>rq_advertised := v\<rparr>"
  by (simp_all add: request_field_def isReservedHeader_def isWhitelistedHeader_def decodeMetadataHeader_def HasSuffix_def
    binHdrSuffix_def keep_field_def content_subtype_of_type)

lemma fold_if: "fold f (if b then xs else []) r = (if b then fold f xs r else r)"
  by simp

lemma protocol_request:
  fixes names :: "string list" and c :: http2Client and h :: CallHdr
  defines "r \<equiv> fold request_field (protocol_fields names c h) empty_request"
  shows "rq_isGRPC r" "\<not> rq_protocolError r" "rq_headerError r = None" "\<not> rq_timeoutSet r" "rq_httpMethod r = ''POST''"
    "rq_method r = Method h" "rq_contentSubtype r = ch_ContentSubtype h" "rq_recvCompress r = SendCompress h"
    "rq_advertised r = accept_encoding names c h"
    "md_index (rq_mdata r) '':authority'' = [Host h]" "md_index (rq_mdata r) ''host'' = []"
    "user_key k \<Longrightarrow> md_index (rq_mdata r) k = []"
proof -
  let ?m = "[('':authority'', Host h), (''content-type'', ContentType (ch_ContentSubtype h)), (''user-agent'', c_userAgent c)] @
     (if PreviousAttempts h > 0 then [(''grpc-previous-rpc-attempts'', FormatInt (PreviousAttempts h))] else []) @
     (if accept_encoding names c h \<noteq> [] then [(''grpc-accept-encoding'', accept_encoding names c h)] else [])"
  have m: "rq_mdata r = fold (\<lambda>(k, v). md_extend k [v]) ?m []"
    unfolding r_def protocol_fields_def
    by (simp add: request_literal fold_if empty_request_def keep_field_def del: fold_append)
  show "md_index (rq_mdata r) '':authority'' = [Host h]" "md_index (rq_mdata r) ''host'' = []"
    unfolding m fold_extend_index by (simp_all add: md_index_def values_of_def)
  show "md_index (rq_mdata r) k = []" if "user_key k"
  proof -
    have "isReservedHeader '':authority''" "isReservedHeader ''user-agent''" "isReservedHeader ''content-type''"
      by (simp_all add: isReservedHeader_def)
    then have "k \<noteq> '':authority''" "k \<noteq> ''content-type''" "k \<noteq> ''user-agent''" "k \<noteq> ''grpc-previous-rpc-attempts''"
      "k \<noteq> ''grpc-accept-encoding''" using that unfolding user_key_def by (metis list.set_intros)+
    then show ?thesis unfolding m fold_extend_index by (auto simp: md_index_def values_of_def)
  qed
qed (simp_all add: r_def protocol_fields_def request_literal fold_if empty_request_def keep_field_def)

lemma created_fields:
  assumes "createHeaderFields names c timeout ctx h = Inr hfs"
    and "getTrAuthData (c_perRPCCreds c) (createAudience c h) [] = Inr auth"
    and "getCallAuthData c (createAudience c h) h = Inr cauth"
  shows "(case timeout of None \<Rightarrow> True | Some d \<Rightarrow> 0 < d)"
    and "hfs = protocol_fields names c h @
      (case timeout of None \<Rightarrow> [] | Some d \<Rightarrow> [(''grpc-timeout'', EncodeDuration d)]) @
      encoded (auth @ cauth @ context_pairs ctx @ flat (c_md c))"
proof -
  obtain tf where tf: "transport_fields (c_md c) = Inr tf" and t: "\<not> (case timeout of None \<Rightarrow> False | Some d \<Rightarrow> d \<le> 0)"
    and f: "hfs = protocol_fields names c h @
      (case timeout of None \<Rightarrow> [] | Some d \<Rightarrow> [(''grpc-timeout'', EncodeDuration d)]) @
      auth_fields auth @ auth_fields cauth @
      (case fromOutgoingContextRaw ctx of
         None \<Rightarrow> [] | Some (md, added) \<Rightarrow> appendHeaderFieldsFromMD md @ concat (map added_fields added)) @ tf"
    using assms unfolding createHeaderFields_def by (auto split: sum.splits if_splits)
  show "case timeout of None \<Rightarrow> True | Some d \<Rightarrow> 0 < d" using t by (auto split: option.splits)
  have a: "auth_fields x = encoded x" for x by (simp add: auth_fields_def encoded_def)
  have e: "encoded [] = []" by (simp add: encoded_def)
  have "(case fromOutgoingContextRaw ctx of
      None \<Rightarrow> [] | Some (md, added) \<Rightarrow> appendHeaderFieldsFromMD md @ concat (map added_fields added)) =
    encoded (context_pairs ctx)"
    by (simp add: context_pairs_def fields_flat concat_added_fields encoded_append e split: option.splits)
  then show "hfs = protocol_fields names c h @
      (case timeout of None \<Rightarrow> [] | Some d \<Rightarrow> [(''grpc-timeout'', EncodeDuration d)]) @
      encoded (auth @ cauth @ context_pairs ctx @ flat (c_md c))"
    unfolding f by (simp only: a encoded_append transport_fields_flat [OF tf])
qed

lemma timeout_field:
  assumes "0 < d" and "d \<le> maxInt64"
  shows "\<exists>e. request_field (''grpc-timeout'', EncodeDuration d) r = r\<lparr>rq_timeoutSet := True, rq_timeout := e\<rparr> \<and>
    d \<le> e \<and> (e - d) * maxTimeoutValue < 1000 * d"
  using timeout_roundtrip [OF assms] by (auto simp: request_field_def)

lemma fold_protocol_timeout:
  assumes "case timeout of None \<Rightarrow> True | Some d \<Rightarrow> 0 < d \<and> d \<le> maxInt64"
  obtains e where "fold request_field (case timeout of None \<Rightarrow> [] | Some d \<Rightarrow> [(''grpc-timeout'', EncodeDuration d)]) r =
      (case timeout of None \<Rightarrow> r | Some d \<Rightarrow> r\<lparr>rq_timeoutSet := True, rq_timeout := e\<rparr>)"
    and "case timeout of None \<Rightarrow> True | Some d \<Rightarrow> d \<le> e \<and> (e - d) * maxTimeoutValue < 1000 * d"
  using assms timeout_field [of _ r] that by (cases timeout) fastforce+

text \<open>A request whose fields passed the loop with one authority, a content type and no error.\<close>

lemma check_request_ok:
  assumes "md_index (rq_mdata r) '':authority'' = [a]" and "md_index (rq_mdata r) ''host'' = []"
    and "\<not> rq_protocolError r" and "rq_isGRPC r" and "rq_headerError r = None"
  shows "check_request r = Inr (AList.delete ''host'' (rq_mdata r))"
  using assms by (simp add: check_request_def set_authority_def md_index_def AList.delete_conv')

lemma md_index_delete: "md_index (AList.delete k md) k' = (if k' = k then [] else md_index md k')"
  by (simp add: md_index_def AList.delete_conv')

text \<open>What the loop of the server collects from the fields of the client.\<close>

lemma received_request:
  fixes names :: "string list" and c :: http2Client and h :: CallHdr and hfs :: header_fields
  assumes "createHeaderFields names c timeout ctx h = Inr hfs"
    and "getTrAuthData (c_perRPCCreds c) (createAudience c h) [] = Inr auth"
    and "getCallAuthData c (createAudience c h) h = Inr cauth"
    and "list_all (\<lambda>p. user_key (fst p)) (auth @ cauth @ context_pairs ctx @ flat (c_md c))"
    and "case timeout of None \<Rightarrow> True | Some d \<Rightarrow> d \<le> maxInt64"
  defines "r \<equiv> fold request_field hfs empty_request"
  obtains e where "\<not> rq_protocolError r" "rq_isGRPC r" "rq_headerError r = None" "rq_httpMethod r = ''POST''"
    "rq_method r = Method h" "rq_contentSubtype r = ch_ContentSubtype h" "rq_recvCompress r = SendCompress h"
    "rq_advertised r = accept_encoding names c h" "rq_timeoutSet r = (timeout \<noteq> None)" "timeout \<noteq> None \<longrightarrow> rq_timeout r = e"
    "case timeout of None \<Rightarrow> True | Some d \<Rightarrow> 0 < d \<and> d \<le> e \<and> (e - d) * maxTimeoutValue < 1000 * d"
    "md_index (rq_mdata r) '':authority'' = [Host h]" "md_index (rq_mdata r) ''host'' = []"
    "\<And>k. user_key k \<Longrightarrow> md_index (rq_mdata r) k = values_of k (auth @ cauth @ context_pairs ctx @ flat (c_md c))"
proof -
  note cf = created_fields [OF assms(1-3)]
  define kvs where "kvs = auth @ cauth @ context_pairs ctx @ flat (c_md c)"
  define r0 where "r0 = fold request_field (protocol_fields names c h) empty_request"
  note r0 = protocol_request [where names = names and c = c and h = h, folded r0_def]
  obtain e where e: "fold request_field (case timeout of None \<Rightarrow> [] | Some d \<Rightarrow> [(''grpc-timeout'', EncodeDuration d)]) r0 =
      (case timeout of None \<Rightarrow> r0 | Some d \<Rightarrow> r0\<lparr>rq_timeoutSet := True, rq_timeout := e\<rparr>)"
    "case timeout of None \<Rightarrow> True | Some d \<Rightarrow> d \<le> e \<and> (e - d) * maxTimeoutValue < 1000 * d"
    using cf(1) assms(5) by (elim fold_protocol_timeout [of timeout r0, rotated]) (auto split: option.splits)
  define r1 where "r1 = (case timeout of None \<Rightarrow> r0 | Some d \<Rightarrow> r0\<lparr>rq_timeoutSet := True, rq_timeout := e\<rparr>)"
  have r: "r = r1\<lparr>rq_mdata := fold (\<lambda>(k, v). md_extend k [v]) kvs (rq_mdata r1)\<rparr>"
    using fold_user_fields [OF assms(4), folded kvs_def, of r1] e(1) unfolding r_def cf(2)
    by (simp add: kvs_def r0_def r1_def)
  have same: "rq_mdata r1 = rq_mdata r0" by (simp add: r1_def split: option.splits)
  have idx: "md_index (rq_mdata r) k = md_index (rq_mdata r0) k @ values_of k kvs" for k
    using fold_extend_index [of kvs "rq_mdata r0" k] by (simp add: r same)
  have none: "values_of k kvs = []" if "\<not> user_key k" for k
    using assms(4) that unfolding kvs_def [symmetric] by (auto simp: values_of_def list_all_iff filter_empty_conv)
  show ?thesis
  proof (rule that)
    show "md_index (rq_mdata r) '':authority'' = [Host h]" "md_index (rq_mdata r) ''host'' = []"
      using idx none r0(10,11) by (simp_all add: user_key_def isReservedHeader_def)
    show "md_index (rq_mdata r) k = values_of k (auth @ cauth @ context_pairs ctx @ flat (c_md c))" if "user_key k" for k
      using idx r0(12) [OF that] by (simp add: kvs_def)
    show "case timeout of None \<Rightarrow> True | Some d \<Rightarrow> 0 < d \<and> d \<le> e \<and> (e - d) * maxTimeoutValue < 1000 * d"
      using e(2) cf(1) by (auto split: option.splits)
  qed (use r0 in \<open>simp_all add: r r1_def split: option.splits\<close>)
qed

section \<open>Properties\<close>

text \<open>
  C9: A request arrives at the server as the client made it. For every call whose metadata passed
  validation and uses no key of the HTTP/2 protocol, the fields that \<open>createHeaderFields\<close> writes make
  \<open>operateHeaders\<close> of a server that has room for the stream accept it, with the method, the
  content-subtype, the compressors and the authority of the call, a timeout that is not shorter and at
  most about one part in 100000 longer, and for every key exactly the values of the credentials, of the
  outgoing context and of the transport, in this order.
\<close>

theorem request_reaches_server:
  assumes "createHeaderFields names c timeout ctx h = Inr (mh_Fields frame)"
    and "getTrAuthData (c_perRPCCreds c) (createAudience c h) [] = Inr auth"
    and "getCallAuthData c (createAudience c h) h = Inr cauth"
    and "validate_outgoing ctx = Some None"
    and "\<And>raw. mdOutgoingKey ctx = Some raw \<Longrightarrow> distinct (map fst (raw_md raw))" and "distinct (map fst (c_md c))"
    and "list_all (\<lambda>p. user_key (fst p)) (auth @ cauth @ context_pairs ctx @ flat (c_md c))"
    and "case timeout of None \<Rightarrow> True | Some d \<Rightarrow> d \<le> maxInt64"
    and "mh_StreamID frame mod 2 = 1" and "t_maxStreamID t < mh_StreamID frame" and "\<not> mh_Truncated frame"
    and "t_reachable t" and "of_nat (length (t_activeStreams t)) < t_maxStreams t" and "t_inTapHandle t = None"
  shows "\<exists>s t'. operateHeaders False frame t = (Handled s, t') \<and>
    ss_method s = Method h \<and> ss_contentSubtype s = ch_ContentSubtype h \<and> ss_recvCompress s = SendCompress h \<and>
    ss_clientAdvertisedCompressors s = accept_encoding names c h \<and> md_index (ss_md s) '':authority'' = [Host h] \<and>
    (case timeout of
       None \<Rightarrow> ss_timeout s = None
     | Some d \<Rightarrow> \<exists>e. ss_timeout s = Some e \<and> d \<le> e \<and> (e - d) * maxTimeoutValue < 1000 * d) \<and>
    (\<forall>k. user_key k \<longrightarrow> md_index (ss_md s) k =
       values_of k auth @ values_of k cauth @ md_index (outgoing_md ctx) k @ md_index (c_md c) k)"
proof -
  define r where "r = fold request_field (mh_Fields frame) empty_request"
  obtain e where other: "\<not> rq_protocolError r" "rq_isGRPC r" "rq_headerError r = None" "rq_httpMethod r = ''POST''"
    "rq_method r = Method h" "rq_contentSubtype r = ch_ContentSubtype h" "rq_recvCompress r = SendCompress h"
    "rq_advertised r = accept_encoding names c h" "rq_timeoutSet r = (timeout \<noteq> None)" "timeout \<noteq> None \<longrightarrow> rq_timeout r = e"
    and e: "case timeout of None \<Rightarrow> True | Some d \<Rightarrow> 0 < d \<and> d \<le> e \<and> (e - d) * maxTimeoutValue < 1000 * d"
    and auth: "md_index (rq_mdata r) '':authority'' = [Host h]" "md_index (rq_mdata r) ''host'' = []"
    and idx: "\<And>k. user_key k \<Longrightarrow> md_index (rq_mdata r) k = values_of k (auth @ cauth @ context_pairs ctx @ flat (c_md c))"
    using received_request [OF assms(1-3,7,8), folded r_def] by blast
  let ?t = "t\<lparr>t_maxStreamID := mh_StreamID frame\<rparr>" and ?md = "AList.delete ''host'' (rq_mdata r)"
  let ?s = "new_stream ?t frame r ?md"
  have pos: "timeout \<noteq> None \<longrightarrow> 0 < e" using e by (auto split: option.splits)
  then have "admit False r ?md ?t = None" using assms(13,14) other(4,9,10) by (auto simp: admit_def)
  then have "operateHeaders False frame t = (Handled ?s, accept_stream ?s ?t)"
    using check_request_ok [OF auth other(1-3)] assms(9-12) by (simp add: operateHeaders_def Let_def flip: r_def)
  moreover have "md_index ?md k = values_of k auth @ values_of k cauth @ md_index (outgoing_md ctx) k @ md_index (c_md c) k"
    if k: "user_key k" for k
  proof -
    have "\<not> isReservedHeader k" "k \<noteq> ''host''" using k by (simp_all add: user_key_def)
    then show ?thesis using idx [OF k] context_values [OF assms(4,5), of k] flat_values [OF assms(6), of k]
      by (simp add: md_index_delete)
  qed
  ultimately show ?thesis using other auth e
    by (auto simp: new_stream_def md_index_delete split: option.splits)
qed

definition demo_client :: http2Client where
  "demo_client = \<lparr>c_scheme = ''http'', c_userAgent = ''ua'', c_registeredCompressors = ''gzip'', c_md = [],
     c_perRPCCreds = [], c_isSecure = False, c_authInfo = None\<rparr>"

definition demo_call :: CallHdr where
  "demo_call = \<lparr>Host = ''h'', Method = ''/s/m'', SendCompress = [], AcceptedCompressors = None, Creds = None,
     ch_ContentSubtype = ''proto'', PreviousAttempts = 0\<rparr>"

definition demo_ctx :: md_context where
  "demo_ctx = \<lparr>mdIncomingKey = None, mdOutgoingKey = Some \<lparr>raw_md = [(''id'', [''a''])], raw_added = [[''id'', ''b'']]\<rparr>\<rparr>"

definition demo_frame :: MetaHeadersFrame where
  "demo_frame = \<lparr>mh_StreamID = 1, mh_Truncated = False, mh_StreamEnded = True,
     mh_Fields = projr (createHeaderFields [] demo_client (Some 5) demo_ctx demo_call)\<rparr>"

definition demo_server :: http2Server where
  "demo_server = \<lparr>t_maxStreamID = 0, t_initialWindowSize = 65535, t_maxStreams = 100, t_activeStreams = [],
     t_reachable = True, t_idle = True, t_inTapHandle = None, t_maxSendHeaderListSize = None, t_hf_size = (\<lambda>f. 0),
     t_limit = 50, t_controlBuf = newControlBuffer False serverSide\<rparr>"

lemma demo_user: "user_key ''id''" "ToLower ''id'' = ''id''"
  by (simp_all add: user_key_def isReservedHeader_def ToLower_def lower_char_def)

lemma demo_valid: "ValidatePair ''id'' [''a''] = None" "ValidatePair ''id'' [''b''] = None"
  by (simp_all add: ValidatePair_def ValidateKey_def key_char_def char_ord_def hasNotPrintable_def HasSuffix_def)

theorem request_reaches_server_witness:
  "\<exists>s t'. operateHeaders False demo_frame demo_server = (Handled s, t') \<and> ss_method s = ''/s/m'' \<and>
     md_index (ss_md s) ''id'' = [''a'', ''b'']"
proof -
  have out: "md_index (outgoing_md demo_ctx) ''id'' = [''a'', ''b'']"
    by (simp add: outgoing_md_def FromOutgoingContext_def demo_ctx_def lowered_def demo_user)
  have pairs: "context_pairs demo_ctx = [(''id'', ''a''), (''id'', ''b'')]"
    using demo_user by (simp add: context_pairs_def fromOutgoingContextRaw_def demo_ctx_def flat_def user_key_def)
  have created: "createHeaderFields [] demo_client (Some 5) demo_ctx demo_call = Inr (mh_Fields demo_frame)"
    by (simp add: demo_frame_def createHeaderFields_def demo_client_def demo_call_def getCallAuthData_def)
  have "\<exists>s t'. operateHeaders False demo_frame demo_server = (Handled s, t') \<and>
    ss_method s = Method demo_call \<and> ss_contentSubtype s = ch_ContentSubtype demo_call \<and> ss_recvCompress s = SendCompress demo_call \<and>
    ss_clientAdvertisedCompressors s = accept_encoding [] demo_client demo_call \<and> md_index (ss_md s) '':authority'' = [Host demo_call] \<and>
    (case Some 5 of
       None \<Rightarrow> ss_timeout s = None
     | Some d \<Rightarrow> \<exists>e. ss_timeout s = Some e \<and> d \<le> e \<and> (e - d) * maxTimeoutValue < 1000 * d) \<and>
    (\<forall>k. user_key k \<longrightarrow> md_index (ss_md s) k =
       values_of k [] @ values_of k [] @ md_index (outgoing_md demo_ctx) k @ md_index (c_md demo_client) k)"
  proof (rule request_reaches_server [OF created])
    show "validate_outgoing demo_ctx = Some None"
      by (simp add: validate_outgoing_def fromOutgoingContextRaw_def demo_ctx_def demo_valid)
    show "list_all (\<lambda>p. user_key (fst p)) ([] @ [] @ context_pairs demo_ctx @ flat (c_md demo_client))"
      by (simp add: pairs demo_user demo_client_def flat_def)
  qed (simp_all add: demo_client_def demo_call_def demo_ctx_def demo_frame_def demo_server_def getCallAuthData_def maxInt64_def)
  then show ?thesis using out demo_user(1) by (auto simp: demo_call_def demo_client_def values_of_def md_index_def)
qed

section \<open>Answers of the server\<close>

text \<open>
  The state of the streams: no identifier is used twice or is above the last one seen, and there are
  no more streams than allowed; the control buffer is in order.
\<close>

definition server_ok :: "http2Server \<Rightarrow> bool" where
  "server_ok t =
     (distinct (map fst (t_activeStreams t)) \<and> list_all (\<lambda>(i, s). i \<le> t_maxStreamID t \<and> ss_id s = i) (t_activeStreams t) \<and>
      length (t_activeStreams t) \<le> unat (t_maxStreams t) \<and> cb_ok (t_limit t) (t_controlBuf t))"

text \<open>An item that tells the peer that its stream is refused.\<close>

fun refuses :: "uint32 \<Rightarrow> cbItem \<Rightarrow> bool" where
  "refuses i (EarlyAbortStream e) = (eas_streamID e = i)"
| "refuses i (CleanupStream c) = (cs_streamID c = i \<and> cs_rst c)"
| "refuses i _ = False"

abbreviation t_queued :: "http2Server \<Rightarrow> cbItem list" where
  "t_queued t \<equiv> queued (t_controlBuf t)"

lemma put_succeeds:
  assumes "cb_ok l c" and "\<not> cb_closed c" and "f \<noteq> Some False"
  obtains c' where "executeAndPut l f (Some i) c = ((True, None), c')" and "cb_ok l c'" and "queued c' = queued c @ [i]"
proof -
  obtain c' where c': "executeAndPut l f (Some i) c = ((True, None), c')"
    using assms(2,3) by (simp add: executeAndPut_def Let_def)
  show ?thesis using that [OF c'] executeAndPut_ok(1,2) [OF assms(1) c'] by simp
qed

lemma t_put_ok:
  assumes "cb_ok (t_limit t) (t_controlBuf t)" and "\<not> cb_closed (t_controlBuf t)"
  obtains c where "t_put i t = t\<lparr>t_controlBuf := c\<rparr>" and "cb_ok (t_limit t) c" and "queued c = t_queued t @ [i]"
proof -
  obtain c where "executeAndPut (t_limit t) None (Some i) (t_controlBuf t) = ((True, None), c)" "cb_ok (t_limit t) c"
    "queued c = t_queued t @ [i]" using put_succeeds [OF assms, of None] by auto
  then show ?thesis by (intro that) (simp_all add: t_put_def cb_put_def)
qed

text \<open>Refusing a stream queues one answer and changes nothing else.\<close>

lemma refuse_ok:
  assumes ok: "cb_ok (t_limit t) (t_controlBuf t)" "\<not> cb_closed (t_controlBuf t)"
  obtains c i where "refuse streamID r ended x t = t\<lparr>t_controlBuf := c\<rparr>" and "cb_ok (t_limit t) c"
    and "queued c = t_queued t @ [i]" and "refuses streamID i"
proof (cases x)
  case (Abort st http)
  define hf where "hf = abort_fields (rq_contentSubtype r) st http"
  let ?i = "EarlyAbortStream \<lparr>eas_streamID = streamID, eas_rst = \<not> ended, eas_hf = hf\<rparr>"
  show ?thesis
  proof (cases "checkForHeaderListSize t hf")
    case True
    obtain c where "executeAndPut (t_limit t) (Some True) (Some ?i) (t_controlBuf t) = ((True, None), c)"
      "cb_ok (t_limit t) c" "queued c = t_queued t @ [?i]" using put_succeeds [OF ok, of "Some True"] by auto
    then show ?thesis using Abort True
      by (intro that [of c ?i]) (simp_all add: refuse_def writeEarlyAbort_def flip: hf_def)
  next
    case False
    let ?j = "CleanupStream \<lparr>cs_streamID = streamID, cs_rst = True, cs_rstCode = ErrCodeInternal, cs_onWrite = Some 0\<rparr>"
    obtain c where "t_put ?j t = t\<lparr>t_controlBuf := c\<rparr>" "cb_ok (t_limit t) c" "queued c = t_queued t @ [?j]"
      using t_put_ok [OF ok] by blast
    then show ?thesis using Abort False ok(2)
      by (intro that [of c ?j]) (simp_all add: refuse_def writeEarlyAbort_def executeAndPut_def put_rst_def flip: hf_def)
  qed
next
  case (Reset code)
  let ?j = "CleanupStream \<lparr>cs_streamID = streamID, cs_rst = True, cs_rstCode = code, cs_onWrite = Some 0\<rparr>"
  obtain c where "t_put ?j t = t\<lparr>t_controlBuf := c\<rparr>" "cb_ok (t_limit t) c" "queued c = t_queued t @ [?j]"
    using t_put_ok [OF ok] by blast
  then show ?thesis using Reset by (intro that [of c ?j]) (simp_all add: refuse_def put_rst_def)
qed

lemma server_refuses:
  assumes "server_ok t" and "\<not> cb_closed (t_controlBuf t)"
  shows "server_ok (refuse streamID r ended x t) \<and> t_activeStreams (refuse streamID r ended x t) = t_activeStreams t \<and>
    (\<exists>i. t_queued (refuse streamID r ended x t) = t_queued t @ [i] \<and> refuses streamID i)"
proof -
  have "cb_ok (t_limit t) (t_controlBuf t)" using assms(1) by (simp add: server_ok_def)
  from refuse_ok [OF this assms(2)] obtain c i where "refuse streamID r ended x t = t\<lparr>t_controlBuf := c\<rparr>"
    "cb_ok (t_limit t) c" "queued c = t_queued t @ [i]" "refuses streamID i" by metis
  then show ?thesis using assms(1) by (auto simp: server_ok_def)
qed

lemma update_new: "map_of xs k = None \<Longrightarrow> AList.update k v xs = xs @ [(k, v)]"
  by (induction xs) (auto split: if_splits)

lemma server_accepts:
  assumes "server_ok t" and "\<not> cb_closed (t_controlBuf t)" and "map_of (t_activeStreams t) (ss_id s) = None"
    and "ss_id s \<le> t_maxStreamID t" and "of_nat (length (t_activeStreams t)) < t_maxStreams t"
  shows "server_ok (accept_stream s t) \<and> t_activeStreams (accept_stream s t) = t_activeStreams t @ [(ss_id s, s)] \<and>
    (\<exists>i. t_queued (accept_stream s t) = t_queued t @ [RegisterStream i] \<and> rs_streamID i = ss_id s)"
proof -
  let ?i = "\<lparr>rs_streamID = ss_id s, rs_wq = unat (ss_id s)\<rparr>" and ?streams = "t_activeStreams t @ [(ss_id s, s)]"
  define t1 where "t1 = t\<lparr>t_activeStreams := ?streams, t_idle := (if length ?streams = 1 then False else t_idle t)\<rparr>"
  have t1: "cb_ok (t_limit t1) (t_controlBuf t1)" "\<not> cb_closed (t_controlBuf t1)"
    using assms(1,2) by (simp_all add: t1_def server_ok_def)
  obtain c where c: "t_put (RegisterStream ?i) t1 = t1\<lparr>t_controlBuf := c\<rparr>" "cb_ok (t_limit t1) c"
    "queued c = t_queued t1 @ [RegisterStream ?i]" using t_put_ok [OF t1] by blast
  have "unat (t_maxStreams t) < 2 ^ LENGTH(32)" by (rule unsigned_less)
  then have "unat (of_nat (length (t_activeStreams t)) :: uint32) = length (t_activeStreams t)"
    using assms(1) by (simp add: server_ok_def unat_of_nat)
  then have "length (t_activeStreams t) < unat (t_maxStreams t)" using assms(5) by (simp add: word_less_nat_alt)
  moreover have "accept_stream s t = t1\<lparr>t_controlBuf := c\<rparr>"
    using c(1) update_new [OF assms(3)] by (simp add: accept_stream_def register_item_def t1_def Let_def)
  ultimately show ?thesis
    using assms c(2,3) by (auto simp: server_ok_def t1_def map_of_eq_None_iff)
qed

lemma refuse_reset: "refuse streamID r ended (Reset code) = put_rst streamID code"
  by (simp add: refuse_def)

lemma checked_authority: "check_request r = Inr mdata \<Longrightarrow> md_index mdata '':authority'' \<noteq> []"
  by (auto simp: check_request_def Let_def split: if_splits option.splits)

lemma admitted_room: "admit expired r mdata t = None \<Longrightarrow> of_nat (length (t_activeStreams t)) < t_maxStreams t"
  by (auto simp: admit_def not_le split: if_splits)

text \<open>
  C10: Every header frame is answered exactly once and the streams stay in order. For a server whose
  control buffer is open: a frame with an even or old identifier is an error and changes nothing; any
  other that is refused, for whatever reason, changes no stream and queues one early abort or reset of
  its stream, unless the transport is draining; and one that is accepted adds exactly this stream,
  which has an authority and was not known, registers it with the writer, and never exceeds the limit
  of streams.
\<close>

theorem header_frame_answered_once:
  assumes "server_ok t" and "\<not> cb_closed (t_controlBuf t)" and "operateHeaders expired frame t = (res, t')"
  shows "server_ok t' \<and>
    (case res of
       IllegalStreamID \<Rightarrow> t' = t \<and> (mh_StreamID frame mod 2 \<noteq> 1 \<or> mh_StreamID frame \<le> t_maxStreamID t)
     | Refused \<Rightarrow> t_activeStreams t' = t_activeStreams t \<and>
         (t_reachable t \<longrightarrow> (\<exists>i. t_queued t' = t_queued t @ [i] \<and> refuses (mh_StreamID frame) i))
     | Handled s \<Rightarrow> ss_id s = mh_StreamID frame \<and> map_of (t_activeStreams t) (ss_id s) = None \<and>
         t_activeStreams t' = t_activeStreams t @ [(ss_id s, s)] \<and> md_index (ss_md s) '':authority'' \<noteq> [] \<and>
         (\<exists>i. t_queued t' = t_queued t @ [RegisterStream i] \<and> rs_streamID i = ss_id s))"
proof (cases "mh_StreamID frame mod 2 \<noteq> 1 \<or> mh_StreamID frame \<le> t_maxStreamID t")
  case True
  then show ?thesis using assms by (auto simp: operateHeaders_def)
next
  case False
  let ?id = "mh_StreamID frame"
  define t1 where "t1 = t\<lparr>t_maxStreamID := ?id\<rparr>"
  define r where "r = fold request_field (mh_Fields frame) empty_request"
  have le: "i \<le> ?id \<and> i \<noteq> ?id" if "(i, s) \<in> set (t_activeStreams t)" for i s
    using assms(1) False that by (fastforce simp: server_ok_def list_all_iff)
  then have ok: "server_ok t1" and fresh: "map_of (t_activeStreams t) ?id = None"
    using assms(1) by (fastforce simp: server_ok_def t1_def list_all_iff, force simp: map_of_eq_None_iff)
  have t1: "\<not> cb_closed (t_controlBuf t1)" "t_activeStreams t1 = t_activeStreams t" "t_queued t1 = t_queued t"
    using assms(2) by (simp_all add: t1_def)
  have run: "operateHeaders expired frame t =
      (if mh_Truncated frame then (Refused, refuse ?id r True (Reset ErrCodeFrameSize) t1)
       else case check_request r of
         Inl x \<Rightarrow> (Refused, refuse ?id r (mh_StreamEnded frame) x t1)
       | Inr mdata \<Rightarrow>
           if \<not> t_reachable t then (Refused, t1)
           else case admit expired r mdata t1 of
             Some x \<Rightarrow> (Refused, refuse ?id r (mh_StreamEnded frame) x t1)
           | None \<Rightarrow> (Handled (new_stream t1 frame r mdata), accept_stream (new_stream t1 frame r mdata) t1))"
    using False unfolding t1_def r_def operateHeaders_def Let_def refuse_reset by (simp split: sum.split)
  consider (no) x ended where "(res, t') = (Refused, refuse ?id r ended x t1)"
    | (drain) "(res, t') = (Refused, t1)" "\<not> t_reachable t"
    | (yes) mdata where "(res, t') = (Handled (new_stream t1 frame r mdata), accept_stream (new_stream t1 frame r mdata) t1)"
        "check_request r = Inr mdata" "admit expired r mdata t1 = None"
    using assms(3) unfolding run by (auto split: if_splits sum.splits option.splits)
  then show ?thesis
  proof cases
    case no
    then show ?thesis using server_refuses [OF ok t1(1)] t1(2,3) by simp
  next
    case drain
    then show ?thesis using ok t1(2) by simp
  next
    case (yes mdata)
    let ?s = "new_stream t1 frame r mdata"
    have s: "ss_id ?s = ?id" "ss_md ?s = mdata" "?id = t_maxStreamID t1" by (simp_all add: new_stream_def t1_def)
    have "map_of (t_activeStreams t1) (ss_id ?s) = None" "ss_id ?s \<le> t_maxStreamID t1" using s fresh t1(2) by simp_all
    from server_accepts [OF ok t1(1) this admitted_room [OF yes(3)]] show ?thesis
      using yes(1) checked_authority [OF yes(2)] s(1,2) fresh t1(2,3) by simp
  qed
qed

theorem header_frame_answered_once_witness:
  "\<exists>res t'. operateHeaders False \<lparr>mh_StreamID = 1, mh_Truncated = False, mh_StreamEnded = True, mh_Fields = []\<rparr> demo_server =
     (res, t') \<and> server_ok t'"
proof -
  let ?f = "\<lparr>mh_StreamID = 1, mh_Truncated = False, mh_StreamEnded = True, mh_Fields = []\<rparr>"
  obtain res t' where o: "operateHeaders False ?f demo_server = (res, t')" by (cases "operateHeaders False ?f demo_server")
  have "server_ok demo_server"
    by (simp add: server_ok_def demo_server_def cb_ok_def newControlBuffer_def)
  then show ?thesis using header_frame_answered_once [OF _ _ o] o by (auto simp: demo_server_def newControlBuffer_def)
qed

end
