(* ===== verification/Http2_Response.thy ===== *)
theory Http2_Response
  imports Http2_Request
begin

text \<open>
  The headers and the status of a response: the server transport writes them (\<open>server_writeHeader\<close> and
  \<open>writeStatus\<close> of \<^verbatim>\<open>internal/transport/http2_server.go\<close>) and the client transport reads them
  (\<open>operateHeaders\<close> of \<^verbatim>\<open>internal/transport/http2_client.go\<close>). The protocol buffer encoding of a status is
  a parameter. Texts of messages that only quote a value are abbreviated.
\<close>

section \<open>Statuses\<close>

text \<open>The status protocol buffer: code, message and details.\<close>

record rpc_status =
  spb_Code :: int32
  spb_Message :: string
  spb_Details :: "string list"

definition plain_status :: "int32 \<Rightarrow> string \<Rightarrow> rpc_status" where
  "plain_status code message = \<lparr>spb_Code = code, spb_Message = message, spb_Details = []\<rparr>"

definition grpcStatusDetailsBinHeader :: string where
  "grpcStatusDetailsBinHeader = ''grpc-status-details-bin''"

definition NewWithProto :: "(string \<Rightarrow> rpc_status option) \<Rightarrow> int32 \<Rightarrow> string \<Rightarrow> string list \<Rightarrow> rpc_status" where
  "NewWithProto Unmarshal code message statusProto =
     (case statusProto of
        [p] \<Rightarrow>
          (case Unmarshal p of
             None \<Rightarrow> plain_status code message
           | Some st \<Rightarrow> if spb_Code st = code then st else plain_status codes_Internal ''grpc-status-details-bin mismatch'')
      | _ \<Rightarrow> plain_status code message)"

definition HTTPStatusConvTab :: "(int \<times> uint32) list" where
  "HTTPStatusConvTab =
     [(400, codes_Internal), (401, codes_Unauthenticated), (403, codes_PermissionDenied), (404, 12),
      (429, 14), (502, 14), (503, 14), (504, 14)]"

section \<open>The server\<close>

datatype streamState = streamActive | streamWriteDone | streamReadDone | streamDone

record sendStream =
  sd_id :: uint32
  sd_contentSubtype :: string
  sd_sendCompress :: string
  sd_header :: MD
  sd_trailer :: MD
  sd_headerSent :: bool
  sd_state :: streamState

definition deleteStream :: "uint32 \<Rightarrow> http2Server \<Rightarrow> http2Server" where
  "deleteStream streamID t =
     (if map_of (t_activeStreams t) streamID = None then t
      else let streams = AList.delete streamID (t_activeStreams t)
           in t\<lparr>t_activeStreams := streams, t_idle := (if streams = [] then True else t_idle t)\<rparr>)"

definition server_closeStream :: "sendStream \<Rightarrow> bool \<Rightarrow> uint32 \<Rightarrow> http2Server \<Rightarrow> sendStream \<times> http2Server" where
  "server_closeStream s rst rstCode t =
     (s\<lparr>sd_state := streamDone\<rparr>,
      t_put (CleanupStream \<lparr>cs_streamID = sd_id s, cs_rst = rst, cs_rstCode = rstCode, cs_onWrite = Some 0\<rparr>)
        (deleteStream (sd_id s) t))"

text \<open>The deletion of the stream is the callback of the cleanup, run when the trailers are written.\<close>

definition finishStream ::
  "sendStream \<Rightarrow> bool \<Rightarrow> uint32 \<Rightarrow> serverHeaders \<Rightarrow> http2Server \<Rightarrow> sendStream \<times> http2Server"
where
  "finishStream s rst rstCode hdr t =
     (if sd_state s = streamDone then (s, t)
      else
        (s\<lparr>sd_state := streamDone\<rparr>,
         t_put (ServerHeaders (hdr\<lparr>sh_cleanup := Some \<lparr>cs_streamID = sd_id s, cs_rst = rst, cs_rstCode = rstCode, cs_onWrite = Some 0\<rparr>\<rparr>)) t))"

definition ErrHeaderListSizeLimitViolation :: go_error where
  "ErrHeaderListSizeLimitViolation = Err ''transport: trying to send header list size larger than the limit set by peer''"

definition ErrIllegalHeaderWrite :: go_error where
  "ErrIllegalHeaderWrite = Err ''transport: SendHeader called multiple times''"

definition response_head :: "sendStream \<Rightarrow> header_fields" where
  "response_head s = [('':status'', ''200''), (''content-type'', ContentType (sd_contentSubtype s))]"

definition header_item :: "uint32 \<Rightarrow> header_fields \<Rightarrow> bool \<Rightarrow> serverHeaders" where
  "header_item streamID hf ended = \<lparr>sh_streamID = streamID, sh_hf = hf, sh_endStream = ended, sh_onWrite = Some 0, sh_cleanup = None\<rparr>"

definition writeHeaderLocked :: "sendStream \<Rightarrow> http2Server \<Rightarrow> go_error option \<times> sendStream \<times> http2Server" where
  "writeHeaderLocked s t =
     (let hf = response_head s @
            (if sd_sendCompress s \<noteq> [] then [(''grpc-encoding'', sd_sendCompress s)] else []) @
            appendHeaderFieldsFromMD (sd_header s);
          ((success, err), cb) = executeAndPut (t_limit t) (Some (checkForHeaderListSize t hf))
            (Some (ServerHeaders (header_item (sd_id s) hf False))) (t_controlBuf t);
          t1 = t\<lparr>t_controlBuf := cb\<rparr>
      in if success then (None, s, t1)
         else case err of
           Some e \<Rightarrow> (Some e, s, t1)
         | None \<Rightarrow>
             let (s2, t2) = server_closeStream s True ErrCodeInternal t1
             in (Some ErrHeaderListSizeLimitViolation, s2, t2))"

text \<open>\<open>ctxErr\<close> is the error of the context of the stream (\<open>streamContextErr\<close>).\<close>

definition server_writeHeader ::
  "go_error \<Rightarrow> sendStream \<Rightarrow> MD \<Rightarrow> http2Server \<Rightarrow> go_error option \<times> sendStream \<times> http2Server"
where
  "server_writeHeader ctxErr s md t =
     (if sd_state s = streamDone then (Some ctxErr, s, t)
      else if sd_headerSent s then (Some ErrIllegalHeaderWrite, s, t)
      else
        let s1 = s\<lparr>sd_headerSent := True\<rparr>;
            s2 = (if md \<noteq> [] then s1\<lparr>sd_header := (if sd_header s1 \<noteq> [] then MD_Join [sd_header s1, md] else md)\<rparr> else s1)
        in writeHeaderLocked s2 t)"

text \<open>The status and its details; a trailer of the user with the name of the details is dropped with them.\<close>

definition status_fields :: "(rpc_status \<Rightarrow> string option) \<Rightarrow> rpc_status \<Rightarrow> header_fields" where
  "status_fields Marshal st =
     [(''grpc-status'', FormatInt (unat (spb_Code st))), (''grpc-message'', encodeGrpcMessage (spb_Message st))] @
     (if spb_Details st = [] then []
      else case Marshal st of None \<Rightarrow> [] | Some stBytes \<Rightarrow> [(grpcStatusDetailsBinHeader, encodeBinHeader stBytes)])"

definition status_trailer :: "rpc_status \<Rightarrow> MD \<Rightarrow> MD" where
  "status_trailer st trailer = (if spb_Details st = [] then trailer else AList.delete grpcStatusDetailsBinHeader trailer)"

definition writeStatus ::
  "(rpc_status \<Rightarrow> string option) \<Rightarrow> sendStream \<Rightarrow> rpc_status \<Rightarrow> http2Server \<Rightarrow> go_error option \<times> sendStream \<times> http2Server"
where
  "writeStatus Marshal s st t =
     (if sd_state s = streamDone then (None, s, t)
      else
        let s1 = s\<lparr>sd_headerSent := True\<rparr>;
            (err, s2, t2) = (if \<not> sd_headerSent s \<and> sd_header s \<noteq> [] then writeHeaderLocked s1 t else (None, s1, t));
            head = (if \<not> sd_headerSent s \<and> sd_header s = [] then response_head s else [])
        in case err of
             Some e \<Rightarrow> (Some e, s2, t2)
           | None \<Rightarrow>
               let s3 = s2\<lparr>sd_trailer := status_trailer st (sd_trailer s2)\<rparr>;
                   hf = head @ status_fields Marshal st @ appendHeaderFieldsFromMD (sd_trailer s3);
                   ((success, err2), cb) = executeAndPut (t_limit t2) (Some (checkForHeaderListSize t2 hf)) None (t_controlBuf t2);
                   t3 = t2\<lparr>t_controlBuf := cb\<rparr>
               in if \<not> success then
                    (case err2 of
                       Some e \<Rightarrow> (Some e, s3, t3)
                     | None \<Rightarrow>
                         let (s4, t4) = server_closeStream s3 True ErrCodeInternal t3
                         in (Some ErrHeaderListSizeLimitViolation, s4, t4))
                  else
                    let (s4, t4) = finishStream s3 (sd_state s3 = streamActive) 0 (header_item (sd_id s3) hf True) t3
                    in (None, s4, t4))"

section \<open>The client\<close>

text \<open>
  \<open>cl_msgs\<close> are the errors delivered to the reader of the stream; \<open>io.EOF\<close> ends a stream with a status.
\<close>

datatype recv_err = EOF | StreamErr rpc_status

record clientStream =
  cl_id :: uint32
  cl_state :: streamState
  cl_headerChanClosed :: bool
  cl_headerValid :: bool
  cl_noHeaders :: bool
  cl_bytesReceived :: bool
  cl_recvCompress :: string
  cl_header :: MD
  cl_trailer :: MD
  cl_status :: "rpc_status option"
  cl_nonGRPCStatus :: "rpc_status option"
  cl_nonGRPCDataBuf :: string
  cl_msgs :: "recv_err list"

text \<open>The connection: the quota of streams, the callers waiting for it, and the control buffer.\<close>

record client_conn =
  cn_streamQuota :: int
  cn_waitingStreams :: nat
  cn_quotaAvailable :: bool
  cn_limit :: int
  cn_controlBuf :: controlBuffer

definition addBackStreamQuota :: "client_conn \<Rightarrow> client_conn" where
  "addBackStreamQuota cn =
     (let q = cn_streamQuota cn + 1
      in cn\<lparr>cn_streamQuota := q, cn_quotaAvailable := (cn_quotaAvailable cn \<or> q > 0 \<and> cn_waitingStreams cn > 0)\<rparr>)"

text \<open>The quota is added back by the function that \<open>executeAndPut\<close> runs, so not on a closed control buffer.\<close>

definition client_closeStream ::
  "clientStream \<Rightarrow> recv_err option \<Rightarrow> bool \<Rightarrow> uint32 \<Rightarrow> rpc_status \<Rightarrow> MD \<Rightarrow> client_conn \<Rightarrow> clientStream \<times> client_conn"
where
  "client_closeStream s err rst rstCode st mdata cn =
     (if cl_state s = streamDone then (s, cn)
      else
        let s1 = s\<lparr>cl_state := streamDone, cl_status := Some st, cl_trailer := (if mdata \<noteq> [] then mdata else cl_trailer s),
                   cl_msgs := cl_msgs s @ (case err of None \<Rightarrow> [] | Some e \<Rightarrow> [e])\<rparr>;
            s2 = (if cl_headerChanClosed s1 then s1 else s1\<lparr>cl_headerChanClosed := True, cl_noHeaders := True\<rparr>);
            cleanup = CleanupStream \<lparr>cs_streamID = cl_id s, cs_rst = rst, cs_rstCode = rstCode, cs_onWrite = Some 0\<rparr>;
            cn1 = (if cb_closed (cn_controlBuf cn) then cn else addBackStreamQuota cn);
            (_, cb) = executeAndPut (cn_limit cn1) (Some True) (Some cleanup) (cn_controlBuf cn1)
        in (s2, cn1\<lparr>cn_controlBuf := cb\<rparr>))"

text \<open>Closing with an error: the stream ends with the status and its readers see it as error.\<close>

definition close_with :: "clientStream \<Rightarrow> uint32 \<Rightarrow> rpc_status \<Rightarrow> client_conn \<Rightarrow> clientStream \<times> client_conn" where
  "close_with s rstCode st = client_closeStream s (Some (StreamErr st)) True rstCode st []"

record response =
  rp_isGRPC :: bool
  rp_mdata :: MD
  rp_contentTypeErr :: string
  rp_grpcMessage :: string
  rp_recvCompress :: string
  rp_grpcStatusCode :: uint32
  rp_headerError :: string
  rp_httpStatus :: string

definition empty_response :: "bool \<Rightarrow> response" where
  "empty_response isGRPC =
     \<lparr>rp_isGRPC = isGRPC, rp_mdata = [], rp_contentTypeErr = ''malformed header: missing HTTP content-type'',
      rp_grpcMessage = [], rp_recvCompress = [], rp_grpcStatusCode = codes_Unknown, rp_headerError = [], rp_httpStatus = []\<rparr>"

text \<open>One field; a malformed status code ends the loop with an error.\<close>

definition response_field :: "string \<times> string \<Rightarrow> response \<Rightarrow> string + response" where
  "response_field hf r =
     (let name = fst hf; v = snd hf in
      if name = ''content-type'' then
        (case ContentSubtype v of
           None \<Rightarrow> Inr (r\<lparr>rp_contentTypeErr := ''transport: received unexpected content-type '' @ v\<rparr>)
         | Some _ \<Rightarrow> Inr (r\<lparr>rp_contentTypeErr := [], rp_mdata := md_extend name [v] (rp_mdata r), rp_isGRPC := True\<rparr>))
      else if name = ''grpc-encoding'' then Inr (r\<lparr>rp_recvCompress := v\<rparr>)
      else if name = ''grpc-status'' then
        (case ParseInt 32 v of
           Inl err \<Rightarrow> Inl (''transport: malformed grpc-status: '' @ err)
         | Inr code \<Rightarrow> Inr (r\<lparr>rp_grpcStatusCode := word_of_int code\<rparr>))
      else if name = ''grpc-message'' then Inr (r\<lparr>rp_grpcMessage := decodeGrpcMessage v\<rparr>)
      else if name = '':status'' then Inr (r\<lparr>rp_httpStatus := v\<rparr>)
      else if isReservedHeader name \<and> \<not> isWhitelistedHeader name then Inr r
      else
        (case decodeMetadataHeader name v of
           Inl err \<Rightarrow> Inr (r\<lparr>rp_headerError := ''transport: malformed '' @ name @ '': '' @ err\<rparr>)
         | Inr d \<Rightarrow> Inr (r\<lparr>rp_mdata := md_extend name [d] (rp_mdata r)\<rparr>)))"

fun response_fields :: "header_fields \<Rightarrow> response \<Rightarrow> string + response" where
  "response_fields [] r = Inr r"
| "response_fields (hf # hfs) r = (case response_field hf r of Inl err \<Rightarrow> Inl err | Inr r1 \<Rightarrow> response_fields hfs r1)"

text \<open>
  A response that is not gRPC: a malformed or informational HTTP status, or the status made from it.
  \<open>Informational\<close> responses are skipped unless they end the stream.
\<close>

datatype non_grpc = MalformedStatus rpc_status | Informational | NonGRPC rpc_status

definition httpErr :: "response \<Rightarrow> non_grpc" where
  "httpErr r =
     (let errs = (\<lambda>e. joined ''; '' (filter (\<lambda>x. x \<noteq> []) [e, rp_contentTypeErr r])) in
      if rp_httpStatus r = [] then NonGRPC (plain_status codes_Internal (errs ''malformed header: missing HTTP status''))
      else
        (case ParseInt 64 (rp_httpStatus r) of
           Inl err \<Rightarrow> MalformedStatus (plain_status codes_Internal (''transport: malformed http-status: '' @ err))
         | Inr statusCode \<Rightarrow>
             if 100 \<le> statusCode \<and> statusCode < 200 then Informational
             else NonGRPC (plain_status (case map_of HTTPStatusConvTab statusCode of None \<Rightarrow> codes_Unknown | Some c \<Rightarrow> c)
               (errs (''unexpected HTTP status code received from server: '' @ rp_httpStatus r)))))"

definition startNonGRPCDataCollection :: "rpc_status \<Rightarrow> clientStream \<Rightarrow> clientStream" where
  "startNonGRPCDataCollection st s = s\<lparr>cl_nonGRPCStatus := Some st, cl_nonGRPCDataBuf := []\<rparr>"

definition finalizeNonGRPCStatus :: "rpc_status \<Rightarrow> clientStream \<Rightarrow> rpc_status" where
  "finalizeNonGRPCStatus st s = plain_status (spb_Code st) (spb_Message st @ [CHR 0x0A] @ ''data: '' @ cl_nonGRPCDataBuf s)"

text \<open>Collecting the body of a response that is not gRPC, up to a limit.\<close>

definition nonGRPCDataMaxLen :: nat where
  "nonGRPCDataMaxLen = 1024"

definition handleNonGRPCData :: "rpc_status \<Rightarrow> string \<Rightarrow> bool \<Rightarrow> clientStream \<Rightarrow> rpc_status option \<times> clientStream" where
  "handleNonGRPCData st data ended s =
     (let n = min (length data) (nonGRPCDataMaxLen - length (cl_nonGRPCDataBuf s));
          s1 = s\<lparr>cl_nonGRPCDataBuf := cl_nonGRPCDataBuf s @ take n data\<rparr>
      in (if length (cl_nonGRPCDataBuf s1) \<ge> nonGRPCDataMaxLen \<or> ended then Some (finalizeNonGRPCStatus st s1) else None, s1))"

definition handle_non_grpc :: "bool \<Rightarrow> response \<Rightarrow> clientStream \<Rightarrow> client_conn \<Rightarrow> clientStream \<times> client_conn" where
  "handle_non_grpc endStream r s cn =
     (case httpErr r of
        MalformedStatus st \<Rightarrow> close_with s ErrCodeProtocol st cn
      | Informational \<Rightarrow>
          if endStream
          then close_with s ErrCodeProtocol (plain_status codes_Internal ''protocol error: informational header must not have END_STREAM set'') cn
          else (s, cn)
      | NonGRPC st \<Rightarrow> if endStream then close_with s ErrCodeProtocol st cn else (startNonGRPCDataCollection st s, cn))"

text \<open>A gRPC response without header error: initial headers, or the trailers with the status.\<close>

definition handle_grpc ::
  "(string \<Rightarrow> rpc_status option) \<Rightarrow> bool \<Rightarrow> response \<Rightarrow> clientStream \<Rightarrow> client_conn \<Rightarrow> clientStream \<times> client_conn"
where
  "handle_grpc Unmarshal endStream r s cn =
     (if \<not> endStream then
        (if cl_headerChanClosed s then s
         else s\<lparr>cl_headerChanClosed := True, cl_headerValid := True, cl_recvCompress := rp_recvCompress r,
                cl_header := (if rp_mdata r \<noteq> [] then rp_mdata r else cl_header s)\<rparr>, cn)
      else
        client_closeStream s (Some EOF) (cl_state s = streamActive) 0
          (NewWithProto Unmarshal (rp_grpcStatusCode r) (rp_grpcMessage r) (md_index (rp_mdata r) grpcStatusDetailsBinHeader))
          (rp_mdata r) cn)"

definition client_operateHeaders ::
  "(string \<Rightarrow> rpc_status option) \<Rightarrow> MetaHeadersFrame \<Rightarrow> clientStream \<Rightarrow> client_conn \<Rightarrow> clientStream \<times> client_conn"
where
  "client_operateHeaders Unmarshal frame s0 cn =
     (let endStream = mh_StreamEnded frame; s = s0\<lparr>cl_bytesReceived := True\<rparr>; initialHeader = (\<not> cl_headerChanClosed s) in
      if \<not> initialHeader \<and> \<not> endStream
      then close_with s ErrCodeProtocol (plain_status codes_Internal ''a HEADERS frame cannot appear in the middle of a stream'') cn
      else if mh_Truncated frame
      then close_with s ErrCodeFrameSize (plain_status codes_Internal ''peer header list size exceeded limit'') cn
      else
        (case cl_nonGRPCStatus s of
           Some st \<Rightarrow> if endStream then close_with s ErrCodeProtocol (finalizeNonGRPCStatus st s) cn else (s, cn)
         | None \<Rightarrow>
             (case response_fields (mh_Fields frame) (empty_response (\<not> initialHeader)) of
                Inl err \<Rightarrow> close_with s ErrCodeProtocol (plain_status codes_Unknown err) cn
              | Inr r \<Rightarrow>
                  if \<not> rp_isGRPC r then handle_non_grpc endStream r s cn
                  else if rp_headerError r \<noteq> [] then close_with s ErrCodeProtocol (plain_status codes_Internal (rp_headerError r)) cn
                  else handle_grpc Unmarshal endStream r s cn)))"

end
