(* ===== verification/Response_System.thy ===== *)
theory Response_System
  imports Request_System Http2_Response
begin

text \<open>
  Server and client together: the headers, the status and the trailers that the server transport
  queues, read by the client transport.
\<close>

section \<open>Reading what the server wrote\<close>

abbreviation sendable :: "(string \<times> string) list \<Rightarrow> bool" where
  "sendable kvs \<equiv> list_all (\<lambda>p. \<not> isReservedHeader (fst p)) kvs"

lemma response_user:
  assumes "\<not> isReservedHeader k"
  shows "response_field (k, encodeMetadataHeader k v) r = Inr (r\<lparr>rp_mdata := md_extend k [v] (rp_mdata r)\<rparr>)"
proof -
  have "isReservedHeader ''grpc-status''" "isReservedHeader ''grpc-message''" "isReservedHeader '':status''"
    by (simp_all add: isReservedHeader_def)
  then have "k \<noteq> ''content-type''" "k \<noteq> ''grpc-encoding''" "k \<noteq> ''grpc-status''" "k \<noteq> ''grpc-message''" "k \<noteq> '':status''"
    using assms reserved_fields by metis+
  then show ?thesis using assms unfolding response_field_def Let_def fst_conv snd_conv
    by (simp only: if_False header_roundtrip sum.case simp_thms)
qed

lemma response_fields_append:
  "response_fields (a @ b) r = (case response_fields a r of Inl e \<Rightarrow> Inl e | Inr r1 \<Rightarrow> response_fields b r1)"
  by (induction a arbitrary: r) (auto split: sum.splits)

lemma response_users:
  "sendable kvs \<Longrightarrow>
     response_fields (encoded kvs) r = Inr (r\<lparr>rp_mdata := fold (\<lambda>(k, v). md_extend k [v]) kvs (rp_mdata r)\<rparr>)"
  by (induction kvs arbitrary: r) (auto simp: encoded_def response_user)

lemma sendable_flat: "sendable (flat md)"
  by (auto simp: flat_def list_all_iff split: if_splits)

lemma ParseInt_FormatInt:
  assumes "int n < 2 ^ (bits - 1)"
  shows "ParseInt bits (FormatInt n) = Inr (int n)"
proof -
  have "\<not> HasPrefix (FormatInt n) [c]" if "digit_val c = None" for c
    using parse_FormatInt [of n] that by (cases "FormatInt n") (auto simp: HasPrefix_def)
  then have "\<not> HasPrefix (FormatInt n) ''-''" "\<not> HasPrefix (FormatInt n) ''+''" by (simp_all add: digit_val_def)
  moreover have "- (2 ^ (bits - 1)) \<le> int n" by (rule order_trans [of _ 0]) simp_all
  ultimately show ?thesis using assms by (simp add: ParseInt_def parse_FormatInt Let_def)
qed

lemma response_literal:
  "response_field ('':status'', v) r = Inr (r\<lparr>rp_httpStatus := v\<rparr>)"
  "response_field (''content-type'', ContentType sub) r =
     Inr (r\<lparr>rp_contentTypeErr := [], rp_mdata := md_extend ''content-type'' [ContentType sub] (rp_mdata r), rp_isGRPC := True\<rparr>)"
  "response_field (''grpc-encoding'', v) r = Inr (r\<lparr>rp_recvCompress := v\<rparr>)"
  "response_field (''grpc-message'', encodeGrpcMessage m) r = Inr (r\<lparr>rp_grpcMessage := ToValidUTF8 m\<rparr>)"
  using message_roundtrip [of m] by (simp_all add: response_field_def content_subtype_of_type)

lemma response_code:
  assumes "unat c < 2 ^ 31"
  shows "response_field (''grpc-status'', FormatInt (unat c)) r = Inr (r\<lparr>rp_grpcStatusCode := c\<rparr>)"
proof -
  have "int (unat c) < 2 ^ (32 - 1)" using assms by (simp del: of_nat_unat)
  from ParseInt_FormatInt [OF this] show ?thesis by (simp add: response_field_def)
qed

text \<open>The details of a status on the wire.\<close>

definition detail_pairs :: "(rpc_status \<Rightarrow> string option) \<Rightarrow> rpc_status \<Rightarrow> (string \<times> string) list" where
  "detail_pairs Marshal st =
     (if spb_Details st = [] then [] else case Marshal st of None \<Rightarrow> [] | Some b \<Rightarrow> [(grpcStatusDetailsBinHeader, b)])"

lemma details_key: "\<not> isReservedHeader grpcStatusDetailsBinHeader" "HasSuffix grpcStatusDetailsBinHeader binHdrSuffix"
  by (simp_all add: isReservedHeader_def grpcStatusDetailsBinHeader_def HasSuffix_def binHdrSuffix_def)

lemma status_fields_encoded:
  "status_fields Marshal st =
     [(''grpc-status'', FormatInt (unat (spb_Code st))), (''grpc-message'', encodeGrpcMessage (spb_Message st))] @
     encoded (detail_pairs Marshal st)"
  by (simp add: status_fields_def detail_pairs_def encoded_def encodeMetadataHeader_def details_key split: option.splits)

lemma read_trailers:
  assumes "unat (spb_Code st) < 2 ^ 31"
  shows "response_fields (status_fields Marshal st @ appendHeaderFieldsFromMD trailer) r =
    Inr (r\<lparr>rp_grpcStatusCode := spb_Code st, rp_grpcMessage := ToValidUTF8 (spb_Message st),
      rp_mdata := fold (\<lambda>(k, v). md_extend k [v]) (detail_pairs Marshal st @ flat trailer) (rp_mdata r)\<rparr>)"
proof -
  have "sendable (detail_pairs Marshal st @ flat trailer)"
    using sendable_flat [of trailer] details_key(1) by (auto simp: detail_pairs_def list_all_iff split: option.splits if_splits)
  from response_users [OF this] show ?thesis
    by (simp add: status_fields_encoded fields_flat encoded_append response_literal response_code [OF assms])
qed

lemma read_head:
  "response_fields (response_head s @ hfs) (empty_response b) =
     response_fields hfs ((empty_response b)\<lparr>rp_httpStatus := ''200'', rp_contentTypeErr := [],
       rp_mdata := [(''content-type'', [ContentType (sd_contentSubtype s)])], rp_isGRPC := True\<rparr>)"
  by (simp add: response_head_def response_literal empty_response_def md_extend_def md_assign_def md_index_def)

text \<open>The header frames among the items the server queues, and the client that handles them in order.\<close>

fun client_reads ::
  "(string \<Rightarrow> rpc_status option) \<Rightarrow> cbItem list \<Rightarrow> clientStream \<times> client_conn \<Rightarrow> clientStream \<times> client_conn"
where
  "client_reads U [] c = c"
| "client_reads U (ServerHeaders h # is) c =
     client_reads U is (client_operateHeaders U
       \<lparr>mh_StreamID = sh_streamID h, mh_Truncated = False, mh_StreamEnded = sh_endStream h, mh_Fields = sh_hf h\<rparr> (fst c) (snd c))"
| "client_reads U (i # is) c = client_reads U is c"

definition received_status :: "rpc_status \<Rightarrow> rpc_status" where
  "received_status st = (if spb_Details st = [] then plain_status (spb_Code st) (ToValidUTF8 (spb_Message st)) else st)"

definition response_key :: "string \<Rightarrow> bool" where
  "response_key k = (\<not> isReservedHeader k \<and> k \<noteq> grpcStatusDetailsBinHeader)"

text \<open>The client at the end of a response.\<close>

definition ended_with :: "rpc_status \<Rightarrow> MD \<Rightarrow> clientStream \<Rightarrow> clientStream \<Rightarrow> bool" where
  "ended_with st trailer c c' =
     (cl_state c' = streamDone \<and> cl_status c' = Some (received_status st) \<and> cl_msgs c' = cl_msgs c @ [EOF] \<and>
      (\<forall>k. response_key k \<longrightarrow> md_index (cl_trailer c') k = md_index trailer k))"

lemma client_ends:
  assumes "response_fields (mh_Fields f) (empty_response (cl_headerChanClosed c)) = Inr r" and "rp_isGRPC r" and "rp_headerError r = []"
    and "cl_state c \<noteq> streamDone" and "cl_nonGRPCStatus c = None" and "mh_StreamEnded f" and "\<not> mh_Truncated f"
  shows "\<exists>c' cn'. client_operateHeaders U f c cn = (c', cn') \<and> cl_state c' = streamDone \<and> cl_msgs c' = cl_msgs c @ [EOF] \<and>
    cl_status c' = Some (NewWithProto U (rp_grpcStatusCode r) (rp_grpcMessage r) (md_index (rp_mdata r) grpcStatusDetailsBinHeader)) \<and>
    cl_trailer c' = (if rp_mdata r \<noteq> [] then rp_mdata r else cl_trailer c) \<and>
    cl_header c' = cl_header c \<and> cl_headerValid c' = cl_headerValid c"
  using assms by (simp add: client_operateHeaders_def handle_grpc_def client_closeStream_def Let_def split: prod.splits)

lemma client_gets_trailers:
  assumes st: "unat (spb_Code st) < 2 ^ 31" "spb_Details st \<noteq> [] \<longrightarrow> (\<exists>b. Marshal st = Some b \<and> Unmarshal b = Some st)"
    and tr: "distinct (map fst trailer)" "map_of trailer grpcStatusDetailsBinHeader = None"
    and c: "cl_state c \<noteq> streamDone" "cl_nonGRPCStatus c = None" "cl_trailer c = []"
    and head: "head = [] \<and> cl_headerChanClosed c \<or> head = response_head s"
  shows "\<exists>c' cn'. client_operateHeaders Unmarshal \<lparr>mh_StreamID = i, mh_Truncated = False, mh_StreamEnded = True,
      mh_Fields = head @ status_fields Marshal st @ appendHeaderFieldsFromMD trailer\<rparr> c cn = (c', cn') \<and>
    ended_with st trailer c c' \<and> cl_header c' = cl_header c \<and> cl_headerValid c' = cl_headerValid c"
proof -
  let ?kvs = "detail_pairs Marshal st @ flat trailer"
  obtain r0 where r0: "response_fields (head @ status_fields Marshal st @ appendHeaderFieldsFromMD trailer)
      (empty_response (cl_headerChanClosed c)) =
      Inr (r0\<lparr>rp_grpcStatusCode := spb_Code st, rp_grpcMessage := ToValidUTF8 (spb_Message st),
        rp_mdata := fold (\<lambda>(k, v). md_extend k [v]) ?kvs (rp_mdata r0)\<rparr>)"
    "rp_isGRPC r0" "rp_headerError r0 = []" "\<And>k. \<not> isReservedHeader k \<Longrightarrow> md_index (rp_mdata r0) k = []"
  proof (cases "head = []")
    case True
    then show ?thesis using head read_trailers [OF st(1)]
      by (intro that [of "empty_response True"]) (auto simp: empty_response_def md_index_def response_head_def)
  next
    case False
    let ?r = "(empty_response (cl_headerChanClosed c))\<lparr>rp_httpStatus := ''200'', rp_contentTypeErr := [],
      rp_mdata := [(''content-type'', [ContentType (sd_contentSubtype s)])], rp_isGRPC := True\<rparr>"
    have h: "head = response_head s" using False head by simp
    show ?thesis
    proof (rule that [of ?r])
      show "response_fields (head @ status_fields Marshal st @ appendHeaderFieldsFromMD trailer)
          (empty_response (cl_headerChanClosed c)) =
        Inr (?r\<lparr>rp_grpcStatusCode := spb_Code st, rp_grpcMessage := ToValidUTF8 (spb_Message st),
          rp_mdata := fold (\<lambda>(k, v). md_extend k [v]) ?kvs (rp_mdata ?r)\<rparr>)"
        unfolding h read_head read_trailers [OF st(1)] ..
    qed (use reserved_fields(1) in \<open>auto simp: empty_response_def md_index_def\<close>)
  qed
  define md where "md = fold (\<lambda>(k, v). md_extend k [v]) ?kvs (rp_mdata r0)"
  have idx: "md_index md k = values_of k (detail_pairs Marshal st) @ md_index trailer k" if "\<not> isReservedHeader k" for k
    using r0(4) [OF that] flat_values [OF tr(1) that] by (simp add: md_def fold_extend_index del: fold_append)
  have "md_index trailer grpcStatusDetailsBinHeader = []" using tr(2) by (simp add: md_index_def)
  then have "NewWithProto Unmarshal (spb_Code st) (ToValidUTF8 (spb_Message st)) (md_index md grpcStatusDetailsBinHeader) = received_status st"
    using idx [OF details_key(1)] st(2)
    by (auto simp: NewWithProto_def received_status_def detail_pairs_def values_of_def split: option.splits)
  moreover have "md_index md k = md_index trailer k" if "response_key k" for k
    using that idx [of k] by (auto simp: response_key_def detail_pairs_def values_of_def split: option.splits)
  moreover obtain c' cn' where "client_operateHeaders Unmarshal \<lparr>mh_StreamID = i, mh_Truncated = False, mh_StreamEnded = True,
      mh_Fields = head @ status_fields Marshal st @ appendHeaderFieldsFromMD trailer\<rparr> c cn = (c', cn')"
    "cl_state c' = streamDone" "cl_msgs c' = cl_msgs c @ [EOF]" "cl_header c' = cl_header c" "cl_headerValid c' = cl_headerValid c"
    "cl_status c' = Some (NewWithProto Unmarshal (spb_Code st) (ToValidUTF8 (spb_Message st)) (md_index md grpcStatusDetailsBinHeader))"
    "cl_trailer c' = (if md \<noteq> [] then md else cl_trailer c)"
    using client_ends [of "\<lparr>mh_StreamID = i, mh_Truncated = False, mh_StreamEnded = True,
      mh_Fields = head @ status_fields Marshal st @ appendHeaderFieldsFromMD trailer\<rparr>" c _ Unmarshal cn] r0(1-3) c(1,2)
    unfolding md_def [symmetric] by fastforce
  ultimately show ?thesis using c(3) unfolding ended_with_def by (cases "md = []") auto
qed

definition header_fields_of :: "sendStream \<Rightarrow> header_fields" where
  "header_fields_of s = response_head s @
     (if sd_sendCompress s \<noteq> [] then [(''grpc-encoding'', sd_sendCompress s)] else []) @ appendHeaderFieldsFromMD (sd_header s)"

lemma client_gets_header:
  assumes c: "cl_state c \<noteq> streamDone" "cl_nonGRPCStatus c = None" "\<not> cl_headerChanClosed c" and d: "distinct (map fst (sd_header s))"
  shows "\<exists>c'. client_operateHeaders U \<lparr>mh_StreamID = i, mh_Truncated = False, mh_StreamEnded = False, mh_Fields = header_fields_of s\<rparr> c cn =
      (c', cn) \<and> cl_headerChanClosed c' \<and> cl_headerValid c' \<and> cl_recvCompress c' = sd_sendCompress s \<and>
    (\<forall>k. \<not> isReservedHeader k \<longrightarrow> md_index (cl_header c') k = md_index (sd_header s) k) \<and>
    cl_state c' = cl_state c \<and> cl_nonGRPCStatus c' = None \<and> cl_trailer c' = cl_trailer c \<and> cl_msgs c' = cl_msgs c"
proof -
  let ?r = "(empty_response False)\<lparr>rp_httpStatus := ''200'', rp_contentTypeErr := [],
    rp_mdata := [(''content-type'', [ContentType (sd_contentSubtype s)])], rp_isGRPC := True, rp_recvCompress := sd_sendCompress s\<rparr>"
  define md where "md = fold (\<lambda>(k, v). md_extend k [v]) (flat (sd_header s)) (rp_mdata ?r)"
  have "response_fields (header_fields_of s) (empty_response False) = Inr (?r\<lparr>rp_mdata := md\<rparr>)"
    using response_users [OF sendable_flat, of "sd_header s"]
    by (simp add: header_fields_of_def read_head response_literal fields_flat md_def)
      (simp add: empty_response_def)
  moreover have idx: "md_index md k = md_index (rp_mdata ?r) k @ md_index (sd_header s) k" if "\<not> isReservedHeader k" for k
    using flat_values [OF d that] by (simp only: md_def fold_extend_index)
  moreover have "md_index (rp_mdata ?r) k = []" if "\<not> isReservedHeader k" for k
    using that reserved_fields(1) by (auto simp: md_index_def)
  moreover have "md \<noteq> []"
    using fold_extend_index [of "flat (sd_header s)" "rp_mdata ?r" "''content-type''"] by (auto simp: md_def md_index_def)
  ultimately show ?thesis using c by (simp add: client_operateHeaders_def handle_grpc_def empty_response_def)
qed

section \<open>What the server queues\<close>

lemma header_queued:
  assumes "cb_ok (t_limit t) (t_controlBuf t)" and "\<not> cb_closed (t_controlBuf t)" and "t_maxSendHeaderListSize t = None"
  obtains cb where "writeHeaderLocked s t = (None, s, t\<lparr>t_controlBuf := cb\<rparr>)" and "cb_ok (t_limit t) cb" and "\<not> cb_closed cb"
    and "queued cb = t_queued t @ [ServerHeaders (header_item (sd_id s) (header_fields_of s) False)]"
proof -
  let ?i = "ServerHeaders (header_item (sd_id s) (header_fields_of s) False)"
  obtain cb where cb: "executeAndPut (t_limit t) (Some True) (Some ?i) (t_controlBuf t) = ((True, None), cb)"
    using put_succeeds [OF assms(1,2), of "Some True"] by auto
  have "checkForHeaderListSize t hf" for hf using assms(3) by (simp add: checkForHeaderListSize_def)
  then have "writeHeaderLocked s t = (None, s, t\<lparr>t_controlBuf := cb\<rparr>)"
    using cb by (simp add: writeHeaderLocked_def header_fields_of_def)
  then show ?thesis using that executeAndPut_ok(1,2,4) [OF assms(1) cb] by blast
qed

lemma status_queued:
  assumes "cb_ok (t_limit t) (t_controlBuf t)" and "\<not> cb_closed (t_controlBuf t)" and "t_maxSendHeaderListSize t = None"
    and "sd_state s \<noteq> streamDone"
  obtains s' t' items clean where "writeStatus Marshal s st t = (None, s', t')" and "sd_state s' = streamDone"
    and "t_queued t' = t_queued t @ items"
    and "items = (if \<not> sd_headerSent s \<and> sd_header s \<noteq> []
        then [ServerHeaders (header_item (sd_id s) (header_fields_of s) False)] else []) @
      [ServerHeaders ((header_item (sd_id s) ((if \<not> sd_headerSent s \<and> sd_header s = [] then response_head s else []) @
        status_fields Marshal st @ appendHeaderFieldsFromMD (status_trailer st (sd_trailer s))) True)\<lparr>sh_cleanup := clean\<rparr>)]"
proof -
  let ?s = "s\<lparr>sd_headerSent := True\<rparr>" and ?b = "\<not> sd_headerSent s \<and> sd_header s \<noteq> []"
  let ?pre = "if ?b then [ServerHeaders (header_item (sd_id s) (header_fields_of s) False)] else []"
  have f: "header_fields_of ?s = header_fields_of s" by (simp add: header_fields_of_def response_head_def)
  obtain cb where cb: "(if ?b then writeHeaderLocked ?s t else (None, ?s, t)) = (None, ?s, t\<lparr>t_controlBuf := cb\<rparr>)"
    "cb_ok (t_limit t) cb" "\<not> cb_closed cb" "queued cb = t_queued t @ ?pre"
  proof (cases ?b)
    case True
    obtain cb where "writeHeaderLocked ?s t = (None, ?s, t\<lparr>t_controlBuf := cb\<rparr>)" "cb_ok (t_limit t) cb" "\<not> cb_closed cb"
      "queued cb = t_queued t @ [ServerHeaders (header_item (sd_id ?s) (header_fields_of ?s) False)]"
      by (rule header_queued [OF assms(1-3), of ?s])
    then show ?thesis by (intro that [of cb]) (use True f in simp_all)
  next
    case False
    then show ?thesis using assms(1,2) by (intro that [of "t_controlBuf t"]) auto
  qed
  define hf where "hf = (if \<not> sd_headerSent s \<and> sd_header s = [] then response_head s else []) @
    status_fields Marshal st @ appendHeaderFieldsFromMD (status_trailer st (sd_trailer s))"
  define t2 where "t2 = t\<lparr>t_controlBuf := cb\<rparr>"
  let ?h = "(header_item (sd_id s) hf True)\<lparr>sh_cleanup := Some \<lparr>cs_streamID = sd_id s, cs_rst = sd_state s = streamActive,
    cs_rstCode = 0, cs_onWrite = Some 0\<rparr>\<rparr>"
  have t2: "cb_ok (t_limit t2) (t_controlBuf t2)" "\<not> cb_closed (t_controlBuf t2)" "t_queued t2 = t_queued t @ ?pre"
    "checkForHeaderListSize t2 x" for x using cb(2-4) assms(3) by (simp_all add: t2_def checkForHeaderListSize_def)
  obtain cb3 where cb3: "t_put (ServerHeaders ?h) t2 = t2\<lparr>t_controlBuf := cb3\<rparr>" "queued cb3 = t_queued t2 @ [ServerHeaders ?h]"
    using t_put_ok [OF t2(1,2)] by metis
  have "writeStatus Marshal s st t = (None, ?s\<lparr>sd_trailer := status_trailer st (sd_trailer s), sd_state := streamDone\<rparr>, t2\<lparr>t_controlBuf := cb3\<rparr>)"
    unfolding writeStatus_def Let_def cb(1) using assms(4) t2(2,4) cb3(1) unfolding hf_def
    by (cases "sd_headerSent s"; cases "sd_header s = []") (simp_all add: executeAndPut_def finishStream_def flip: t2_def)
  then show ?thesis by (rule that [where clean = "sh_cleanup ?h"]) (use cb3(2) t2(3) in \<open>simp_all add: hf_def\<close>)
qed

lemma status_trailer_ok:
  assumes "distinct (map fst tr)" and "spb_Details st = [] \<Longrightarrow> map_of tr grpcStatusDetailsBinHeader = None"
  shows "distinct (map fst (status_trailer st tr))" "map_of (status_trailer st tr) grpcStatusDetailsBinHeader = None"
    "response_key k \<Longrightarrow> md_index (status_trailer st tr) k = md_index tr k"
proof -
  have "distinct (map fst (AList.delete k tr))" for k
    using assms(1) unfolding AList.delete_eq by (rule distinct_map_filter)
  then show "distinct (map fst (status_trailer st tr))" using assms(1) by (simp add: status_trailer_def)
qed (use assms in \<open>auto simp: status_trailer_def AList.delete_conv' response_key_def md_index_delete\<close>)

section \<open>Property\<close>

text \<open>
  C11: The result of a call arrives at the client as the server gave it. Whatever was sent before, when
  \<open>writeStatus\<close> ends a stream on an open transport without a limit for header lists, the frames it
  queues make the client transport end the stream normally, with the code and the message of the
  status (each invalid byte of UTF-8 replaced), or with the complete status when it has details, and
  with the values of every trailer in order; and when no headers had been sent before, with those of
  every header. The encoding of a status with details is only assumed to be decodable.
\<close>

theorem response_reaches_client:
  assumes server: "cb_ok (t_limit t) (t_controlBuf t)" "\<not> cb_closed (t_controlBuf t)" "t_maxSendHeaderListSize t = None"
      "sd_state s \<noteq> streamDone" "distinct (map fst (sd_header s))" "distinct (map fst (sd_trailer s))"
      "spb_Details st = [] \<Longrightarrow> map_of (sd_trailer s) grpcStatusDetailsBinHeader = None"
    and status: "unat (spb_Code st) < 2 ^ 31" "spb_Details st \<noteq> [] \<Longrightarrow> \<exists>b. Marshal st = Some b \<and> Unmarshal b = Some st"
    and client: "cl_state c \<noteq> streamDone" "cl_nonGRPCStatus c = None" "cl_trailer c = []" "cl_headerChanClosed c = sd_headerSent s"
  shows "\<exists>s' t' items c' cn'. writeStatus Marshal s st t = (None, s', t') \<and> sd_state s' = streamDone \<and>
    t_queued t' = t_queued t @ items \<and> client_reads Unmarshal items (c, cn) = (c', cn') \<and>
    cl_state c' = streamDone \<and> cl_status c' = Some (received_status st) \<and> cl_msgs c' = cl_msgs c @ [EOF] \<and>
    (\<forall>k. response_key k \<longrightarrow> md_index (cl_trailer c') k = md_index (sd_trailer s) k) \<and>
    (\<not> sd_headerSent s \<and> sd_header s \<noteq> [] \<longrightarrow> cl_headerValid c' \<and>
      (\<forall>k. \<not> isReservedHeader k \<longrightarrow> md_index (cl_header c') k = md_index (sd_header s) k))"
proof -
  obtain s' t' items clean where w: "writeStatus Marshal s st t = (None, s', t')" "sd_state s' = streamDone"
    "t_queued t' = t_queued t @ items"
    and items: "items = (if \<not> sd_headerSent s \<and> sd_header s \<noteq> []
        then [ServerHeaders (header_item (sd_id s) (header_fields_of s) False)] else []) @
      [ServerHeaders ((header_item (sd_id s) ((if \<not> sd_headerSent s \<and> sd_header s = [] then response_head s else []) @
        status_fields Marshal st @ appendHeaderFieldsFromMD (status_trailer st (sd_trailer s))) True)\<lparr>sh_cleanup := clean\<rparr>)]"
    by (rule status_queued [OF server(1-4)])
  let ?tr = "status_trailer st (sd_trailer s)"
  have tr: "distinct (map fst ?tr)" "map_of ?tr grpcStatusDetailsBinHeader = None"
    "\<And>k. response_key k \<Longrightarrow> md_index ?tr k = md_index (sd_trailer s) k"
    using status_trailer_ok [OF server(6), of st] server(7) by blast+
  note last = client_gets_trailers [where Marshal = Marshal and Unmarshal = Unmarshal and trailer = ?tr and s = s and i = "sd_id s" and cn = cn,
    OF status(1) _ tr(1,2)]
  have "\<exists>c' cn'. client_reads Unmarshal items (c, cn) = (c', cn') \<and> ended_with st (status_trailer st (sd_trailer s)) c c' \<and>
    (\<not> sd_headerSent s \<and> sd_header s \<noteq> [] \<longrightarrow> cl_headerValid c' \<and>
      (\<forall>k. \<not> isReservedHeader k \<longrightarrow> md_index (cl_header c') k = md_index (sd_header s) k))"
  proof (cases "\<not> sd_headerSent s \<and> sd_header s \<noteq> []")
    case True
    then obtain c1 where c1: "client_operateHeaders Unmarshal \<lparr>mh_StreamID = sd_id s, mh_Truncated = False, mh_StreamEnded = False,
        mh_Fields = header_fields_of s\<rparr> c cn = (c1, cn)" "cl_headerChanClosed c1" "cl_headerValid c1"
      "\<forall>k. \<not> isReservedHeader k \<longrightarrow> md_index (cl_header c1) k = md_index (sd_header s) k"
      "cl_state c1 = cl_state c" "cl_nonGRPCStatus c1 = None" "cl_trailer c1 = cl_trailer c" "cl_msgs c1 = cl_msgs c"
      using client_gets_header [OF client(1,2) _ server(5)] client(4) by metis
    have "cl_state c1 \<noteq> streamDone" "cl_trailer c1 = []" using c1(5,7) client(1,3) by simp_all
    from last [OF _ this(1) c1(6) this(2), of "[]"] status(2) show ?thesis
      using True c1 unfolding items by (auto simp: header_item_def ended_with_def)
  next
    case False
    then show ?thesis using status(2) last [OF _ client(1-3),
        of "if \<not> sd_headerSent s \<and> sd_header s = [] then response_head s else []"] client(4)
      unfolding items by (auto simp: header_item_def)
  qed
  then show ?thesis using w tr(3) unfolding ended_with_def by fastforce
qed

definition demo_send :: sendStream where
  "demo_send = \<lparr>sd_id = 1, sd_contentSubtype = [], sd_sendCompress = [], sd_header = [(''a'', [''x''])], sd_trailer = [(''b'', [''y''])],
     sd_headerSent = False, sd_state = streamReadDone\<rparr>"

definition demo_recv :: clientStream where
  "demo_recv = \<lparr>cl_id = 1, cl_state = streamWriteDone, cl_headerChanClosed = False, cl_headerValid = False, cl_noHeaders = False,
     cl_bytesReceived = False, cl_recvCompress = [], cl_header = [], cl_trailer = [], cl_status = None, cl_nonGRPCStatus = None,
     cl_nonGRPCDataBuf = [], cl_msgs = []\<rparr>"

definition demo_conn :: client_conn where
  "demo_conn = \<lparr>cn_streamQuota = 0, cn_waitingStreams = 1, cn_quotaAvailable = False, cn_limit = 50,
     cn_controlBuf = newControlBuffer False clientSide\<rparr>"

theorem response_reaches_client_witness:
  "\<exists>s' t' items c' cn'. writeStatus (\<lambda>st. None) demo_send (plain_status 5 ''gone'') demo_server = (None, s', t') \<and>
     t_queued t' = t_queued demo_server @ items \<and> client_reads (\<lambda>b. None) items (demo_recv, demo_conn) = (c', cn') \<and>
     cl_status c' = Some (received_status (plain_status 5 ''gone'')) \<and> md_index (cl_trailer c') ''b'' = [''y'']"
proof -
  have "cb_ok (t_limit demo_server) (t_controlBuf demo_server)" "\<not> cb_closed (t_controlBuf demo_server)"
    by (simp_all add: demo_server_def cb_ok_def newControlBuffer_def)
  moreover have "response_key ''b''" "md_index (sd_trailer demo_send) ''b'' = [''y'']"
    by (simp_all add: response_key_def isReservedHeader_def grpcStatusDetailsBinHeader_def demo_send_def md_index_def)
  ultimately show ?thesis
    using response_reaches_client [of demo_server demo_send "plain_status 5 ''gone''" "\<lambda>st. None" "\<lambda>b. None" demo_recv demo_conn]
    by (fastforce simp: demo_server_def demo_send_def demo_recv_def plain_status_def grpcStatusDetailsBinHeader_def)
qed

end
