(* ===== verification/Idle_Manager.thy ===== *)
theory Idle_Manager
  imports Go_Prelude
begin

text \<open>
  The idleness manager of a client channel (\<^verbatim>\<open>internal/idle/idle.go\<close>). Its methods are called
  concurrently by every call on the channel, by the timer, by the user and by \<open>Close\<close>; they share
  atomic variables and a mutex. Each method is a step function from a program counter, one step for
  each atomic access, each acquisition of the mutex and each call of the \<open>ClientConn\<close>; a step that
  waits for the mutex is \<open>None\<close>. The step relation runs any number of these threads in any order.
\<close>

section \<open>State\<close>

type_synonym int64 = "64 word"

definition MaxInt32 :: int where
  "MaxInt32 = 2 ^ 31 - 1"

text \<open>
  The timer is absent or has a duration and is armed or not. The mutex records the thread that
  holds it. \<open>cc_idle\<close> is the mode of the \<open>ClientConn\<close>, which changes with the two calls of its
  interface only, and \<open>cc_calls\<close> the calls it received; \<open>stopped\<close> records that \<open>Close\<close> has returned.
\<close>

datatype cc_call = EnterIdleMode | ExitIdleMode

record manager =
  lastCallEndTime :: int64
  activeCallsCount :: int32
  activeSinceLastTimerCheck :: bool
  closed :: bool
  timeout :: int64
  actuallyIdle :: bool
  timer :: "(int64 \<times> bool) option"
  idleMu :: "nat option"
  cc_idle :: bool
  cc_calls :: "cc_call list"
  stopped :: bool

definition NewManager :: "int64 \<Rightarrow> manager" where
  "NewManager t =
     \<lparr>lastCallEndTime = 0, activeCallsCount = word_of_int (- MaxInt32), activeSinceLastTimerCheck = False, closed = False,
      timeout = t, actuallyIdle = True, timer = None, idleMu = None, cc_idle = True, cc_calls = [], stopped = False\<rparr>"

definition lock :: "nat \<Rightarrow> manager \<Rightarrow> manager option" where
  "lock i m = (if idleMu m = None then Some (m\<lparr>idleMu := Some i\<rparr>) else None)"

definition unlock :: "manager \<Rightarrow> manager" where
  "unlock m = m\<lparr>idleMu := None\<rparr>"

text \<open>\<open>atomic.AddInt32(&m.activeCallsCount, d)\<close>.\<close>

definition add_count :: "int \<Rightarrow> manager \<Rightarrow> manager" where
  "add_count d m = m\<lparr>activeCallsCount := activeCallsCount m + word_of_int d\<rparr>"

definition cc_enter :: "manager \<Rightarrow> manager" where
  "cc_enter m = m\<lparr>cc_idle := True, cc_calls := cc_calls m @ [EnterIdleMode]\<rparr>"

definition cc_exit :: "manager \<Rightarrow> manager" where
  "cc_exit m = m\<lparr>cc_idle := False, cc_calls := cc_calls m @ [ExitIdleMode]\<rparr>"

section \<open>The methods, step by step\<close>

text \<open>
  A method continues at a new program counter (\<open>Inl\<close>) or returns (\<open>Inr\<close>). Starting a new timer
  stops the one before, so at most the timer of the field is armed.
\<close>

datatype locked_pc = ReadClosed | SetTimer

fun resetIdleTimerLocked :: "int64 \<Rightarrow> locked_pc \<Rightarrow> manager \<Rightarrow> manager \<times> (locked_pc + unit)" where
  "resetIdleTimerLocked d ReadClosed m = (m, if closed m then Inr () else Inl SetTimer)"
| "resetIdleTimerLocked d SetTimer m =
     (if timeout m = 0 \<or> actuallyIdle m then m else m\<lparr>timer := Some (d, True)\<rparr>, Inr ())"

datatype reset_pc = ResetLock | ResetLocked locked_pc

fun resetIdleTimer :: "nat \<Rightarrow> int64 \<Rightarrow> reset_pc \<Rightarrow> manager \<Rightarrow> (manager \<times> (reset_pc + unit)) option" where
  "resetIdleTimer i d ResetLock m = map_option (\<lambda>n. (n, Inl (ResetLocked ReadClosed))) (lock i m)"
| "resetIdleTimer i d (ResetLocked p) m =
     (case resetIdleTimerLocked d p m of
        (n, Inl q) \<Rightarrow> Some (n, Inl (ResetLocked q))
      | (n, Inr r) \<Rightarrow> Some (unlock n, Inr r))"

datatype try_pc = TryCas | TryLock | TryCount | TryActivity | TryUndo | TryEnter | TrySet

fun tryEnterIdleMode :: "nat \<Rightarrow> bool \<Rightarrow> try_pc \<Rightarrow> manager \<Rightarrow> (manager \<times> (try_pc + bool)) option" where
  "tryEnterIdleMode i checkActivity TryCas m =
     Some (if activeCallsCount m = 0 then (m\<lparr>activeCallsCount := word_of_int (- MaxInt32)\<rparr>, Inl TryLock)
           else (m, Inr False))"
| "tryEnterIdleMode i checkActivity TryLock m = map_option (\<lambda>n. (n, Inl TryCount)) (lock i m)"
| "tryEnterIdleMode i checkActivity TryCount m =
     Some (m, Inl (if activeCallsCount m \<noteq> word_of_int (- MaxInt32) then TryUndo
                   else if checkActivity then TryActivity else TryEnter))"
| "tryEnterIdleMode i checkActivity TryActivity m =
     Some (m, Inl (if activeSinceLastTimerCheck m then TryUndo else TryEnter))"
| "tryEnterIdleMode i checkActivity TryUndo m = Some (unlock (add_count MaxInt32 m), Inr False)"
| "tryEnterIdleMode i checkActivity TryEnter m = Some (cc_enter m, Inl TrySet)"
| "tryEnterIdleMode i checkActivity TrySet m = Some (unlock (m\<lparr>actuallyIdle := True\<rparr>), Inr True)"

datatype exit_pc = ExitLock | ExitCheck | ExitCc | ExitAdd | ExitSet | ExitTimer locked_pc

fun ExitIdleMode_step :: "nat \<Rightarrow> exit_pc \<Rightarrow> manager \<Rightarrow> (manager \<times> (exit_pc + unit)) option" where
  "ExitIdleMode_step i ExitLock m = map_option (\<lambda>n. (n, Inl ExitCheck)) (lock i m)"
| "ExitIdleMode_step i ExitCheck m =
     Some (if closed m \<or> \<not> actuallyIdle m then (unlock m, Inr ()) else (m, Inl ExitCc))"
| "ExitIdleMode_step i ExitCc m = Some (cc_exit m, Inl ExitAdd)"
| "ExitIdleMode_step i ExitAdd m = Some (add_count MaxInt32 m, Inl ExitSet)"
| "ExitIdleMode_step i ExitSet m = Some (m\<lparr>actuallyIdle := False\<rparr>, Inl (ExitTimer ReadClosed))"
| "ExitIdleMode_step i (ExitTimer p) m =
     (case resetIdleTimerLocked (timeout m) p m of
        (n, Inl q) \<Rightarrow> Some (n, Inl (ExitTimer q))
      | (n, Inr r) \<Rightarrow> Some (unlock n, Inr r))"

datatype handle_pc = HandleClosed | HandleCount | HandleSince | HandleStore | HandleTime
  | HandleTry try_pc | HandleReset int64 reset_pc

fun handleIdleTimeout :: "int64 \<Rightarrow> nat \<Rightarrow> handle_pc \<Rightarrow> manager \<Rightarrow> (manager \<times> (handle_pc + unit)) option" where
  "handleIdleTimeout now i HandleClosed m = Some (m, if closed m then Inr () else Inl HandleCount)"
| "handleIdleTimeout now i HandleCount m =
     Some (m, Inl (if 0 < sint (activeCallsCount m) then HandleReset (timeout m) ResetLock else HandleSince))"
| "handleIdleTimeout now i HandleSince m =
     Some (m, Inl (if activeSinceLastTimerCheck m then HandleStore else HandleTry TryCas))"
| "handleIdleTimeout now i HandleStore m = Some (m\<lparr>activeSinceLastTimerCheck := False\<rparr>, Inl HandleTime)"
| "handleIdleTimeout now i HandleTime m =
     Some (m, Inl (HandleReset (lastCallEndTime m - now + timeout m) ResetLock))"
| "handleIdleTimeout now i (HandleTry p) m =
     (case tryEnterIdleMode i True p m of
        None \<Rightarrow> None
      | Some (n, Inl q) \<Rightarrow> Some (n, Inl (HandleTry q))
      | Some (n, Inr entered) \<Rightarrow> Some (n, if entered then Inr () else Inl (HandleReset (timeout n) ResetLock)))"
| "handleIdleTimeout now i (HandleReset d p) m =
     (case resetIdleTimer i d p m of
        None \<Rightarrow> None
      | Some (n, Inl q) \<Rightarrow> Some (n, Inl (HandleReset d q))
      | Some (n, Inr r) \<Rightarrow> Some (n, Inr r))"

datatype begin_pc = BeginClosed | BeginAdd | BeginExit exit_pc | BeginStore

fun OnCallBegin :: "nat \<Rightarrow> begin_pc \<Rightarrow> manager \<Rightarrow> (manager \<times> (begin_pc + unit)) option" where
  "OnCallBegin i BeginClosed m = Some (m, if closed m then Inr () else Inl BeginAdd)"
| "OnCallBegin i BeginAdd m =
     (let n = add_count 1 m in Some (n, Inl (if 0 < sint (activeCallsCount n) then BeginStore else BeginExit ExitLock)))"
| "OnCallBegin i (BeginExit p) m =
     (case ExitIdleMode_step i p m of
        None \<Rightarrow> None
      | Some (n, Inl q) \<Rightarrow> Some (n, Inl (BeginExit q))
      | Some (n, Inr r) \<Rightarrow> Some (n, Inl BeginStore))"
| "OnCallBegin i BeginStore m = Some (m\<lparr>activeSinceLastTimerCheck := True\<rparr>, Inr ())"

datatype end_pc = EndClosed | EndTime | EndAdd

fun OnCallEnd :: "int64 \<Rightarrow> end_pc \<Rightarrow> manager \<Rightarrow> manager \<times> (end_pc + unit)" where
  "OnCallEnd now EndClosed m = (m, if closed m then Inr () else Inl EndTime)"
| "OnCallEnd now EndTime m = (m\<lparr>lastCallEndTime := now\<rparr>, Inl EndAdd)"
| "OnCallEnd now EndAdd m = (add_count (- 1) m, Inr ())"

datatype close_pc = CloseStore | CloseStop

fun Close_step :: "close_pc \<Rightarrow> manager \<Rightarrow> (manager \<times> (close_pc + unit)) option" where
  "Close_step CloseStore m = Some (m\<lparr>closed := True\<rparr>, Inl CloseStop)"
| "Close_step CloseStop m = (if idleMu m = None then Some (m\<lparr>timer := None, stopped := True\<rparr>, Inr ()) else None)"

definition UnsafeSetNotIdle :: "manager \<Rightarrow> manager" where
  "UnsafeSetNotIdle m =
     (let n = (add_count MaxInt32 m)\<lparr>actuallyIdle := False\<rparr>
      in if closed n then n else fst (resetIdleTimerLocked (timeout n) SetTimer n))"

section \<open>Threads\<close>

text \<open>
  A call is a thread that runs \<open>OnCallBegin\<close>, then the call itself, then \<open>OnCallEnd\<close>. \<open>counted\<close>
  records that it is part of the number of active calls.
\<close>

datatype thread_pc = Handler handle_pc | Testing try_pc | CallBegin begin_pc | CallRunning | CallEnd end_pc
  | Connecting exit_pc | Closing close_pc | Returned

record thread =
  pc :: thread_pc
  counted :: bool

fun step_pc :: "int64 \<Rightarrow> nat \<Rightarrow> thread_pc \<Rightarrow> manager \<Rightarrow> (manager \<times> thread_pc) option" where
  "step_pc now i (Handler p) m =
     map_option (map_prod id (case_sum Handler (\<lambda>_. Returned))) (handleIdleTimeout now i p m)"
| "step_pc now i (Testing p) m =
     map_option (map_prod id (case_sum Testing (\<lambda>_. Returned))) (tryEnterIdleMode i False p m)"
| "step_pc now i (CallBegin p) m =
     map_option (map_prod id (case_sum CallBegin (\<lambda>_. CallRunning))) (OnCallBegin i p m)"
| "step_pc now i CallRunning m = Some (m, CallEnd EndClosed)"
| "step_pc now i (CallEnd p) m = Some (map_prod id (case_sum CallEnd (\<lambda>_. Returned)) (OnCallEnd now p m))"
| "step_pc now i (Connecting p) m =
     map_option (map_prod id (case_sum Connecting (\<lambda>_. Returned))) (ExitIdleMode_step i p m)"
| "step_pc now i (Closing p) m = map_option (map_prod id (case_sum Closing (\<lambda>_. Returned))) (Close_step p m)"
| "step_pc now i Returned m = None"

fun recount :: "thread_pc \<Rightarrow> bool \<Rightarrow> bool" where
  "recount (CallBegin BeginAdd) c = True"
| "recount (CallEnd EndAdd) c = False"
| "recount p c = c"

definition run_thread :: "int64 \<Rightarrow> nat \<Rightarrow> thread \<Rightarrow> manager \<Rightarrow> (manager \<times> thread) option" where
  "run_thread now i t m =
     map_option (\<lambda>(n, q). (n, \<lparr>pc = q, counted = recount (pc t) (counted t)\<rparr>)) (step_pc now i (pc t) m)"

record idle_sys =
  mgr :: manager
  threads :: "thread list"

definition n_counted :: "thread list \<Rightarrow> int" where
  "n_counted ts = (\<Sum>t\<leftarrow>ts. of_bool (counted t))"

definition entry_points :: "thread_pc list" where
  "entry_points = [Testing TryCas, CallBegin BeginClosed, Connecting ExitLock, Closing CloseStore]"

text \<open>
  Threads start and run in any order, as long as fewer than \<open>MaxInt32\<close> calls are active at a time.
  The caller of \<open>UnsafeSetNotIdle\<close> ensures that the channel is idle and that nothing else runs.
\<close>

inductive idle_step :: "idle_sys \<Rightarrow> idle_sys \<Rightarrow> bool" where
  thread_runs: "i < length (threads s) \<Longrightarrow> run_thread now i (threads s ! i) (mgr s) = Some (m, t) \<Longrightarrow>
    n_counted ((threads s)[i := t]) < MaxInt32 \<Longrightarrow> idle_step s \<lparr>mgr = m, threads = (threads s)[i := t]\<rparr>"
| thread_starts: "p \<in> set entry_points \<Longrightarrow>
    idle_step s (s\<lparr>threads := threads s @ [\<lparr>pc = p, counted = False\<rparr>]\<rparr>)"
| timer_fires: "timer (mgr s) = Some (d, True) \<Longrightarrow>
    idle_step s \<lparr>mgr = (mgr s)\<lparr>timer := Some (d, False)\<rparr>, threads = threads s @ [\<lparr>pc = Handler HandleClosed, counted = False\<rparr>]\<rparr>"
| dial_exits_idle: "threads s = [] \<Longrightarrow> actuallyIdle (mgr s) \<Longrightarrow>
    idle_step s (s\<lparr>mgr := UnsafeSetNotIdle (cc_exit (mgr s))\<rparr>)"

definition idle_initial :: "idle_sys \<Rightarrow> bool" where
  "idle_initial s = (threads s = [] \<and> (\<exists>t. mgr s = NewManager t))"

section \<open>The invariant\<close>

text \<open>
  \<open>debt\<close>: how often a thread has subtracted \<open>MaxInt32\<close> from the count without having made the
  channel idle yet, or minus one when it has added it back and the channel is still marked idle.
\<close>

fun try_debt :: "try_pc \<Rightarrow> int" where
  "try_debt TryCas = 0"
| "try_debt _ = 1"

fun exit_debt :: "exit_pc \<Rightarrow> int" where
  "exit_debt ExitSet = - 1"
| "exit_debt _ = 0"

fun debt :: "thread_pc \<Rightarrow> int" where
  "debt (Handler (HandleTry p)) = try_debt p"
| "debt (Testing p) = try_debt p"
| "debt (CallBegin (BeginExit p)) = exit_debt p"
| "debt (Connecting p) = exit_debt p"
| "debt _ = 0"

text \<open>The program counters at which a thread holds the mutex.\<close>

definition try_holds :: "try_pc \<Rightarrow> bool" where
  "try_holds p = (p \<noteq> TryCas \<and> p \<noteq> TryLock)"

fun pc_holds :: "thread_pc \<Rightarrow> bool" where
  "pc_holds (Handler (HandleTry p)) = try_holds p"
| "pc_holds (Handler (HandleReset d p)) = (p \<noteq> ResetLock)"
| "pc_holds (Testing p) = try_holds p"
| "pc_holds (CallBegin (BeginExit p)) = (p \<noteq> ExitLock)"
| "pc_holds (Connecting p) = (p \<noteq> ExitLock)"
| "pc_holds _ = False"

text \<open>What the holder of the mutex knows of the fields the mutex protects.\<close>

fun exit_knows :: "exit_pc \<Rightarrow> manager \<Rightarrow> bool" where
  "exit_knows ExitCc m = (actuallyIdle m \<and> cc_idle m)"
| "exit_knows ExitAdd m = (actuallyIdle m \<and> \<not> cc_idle m)"
| "exit_knows ExitSet m = (actuallyIdle m \<and> \<not> cc_idle m)"
| "exit_knows (ExitTimer p) m = (\<not> actuallyIdle m \<and> \<not> cc_idle m)"
| "exit_knows _ m = (actuallyIdle m = cc_idle m)"

fun try_knows :: "try_pc \<Rightarrow> manager \<Rightarrow> bool" where
  "try_knows TrySet m = (\<not> actuallyIdle m \<and> cc_idle m)"
| "try_knows _ m = (\<not> actuallyIdle m \<and> \<not> cc_idle m)"

fun pc_knows :: "thread_pc \<Rightarrow> manager \<Rightarrow> bool" where
  "pc_knows (Handler (HandleTry p)) m = try_knows p m"
| "pc_knows (Testing p) m = try_knows p m"
| "pc_knows (CallBegin (BeginExit p)) m = exit_knows p m"
| "pc_knows (Connecting p) m = exit_knows p m"
| "pc_knows _ m = (actuallyIdle m = cc_idle m)"

text \<open>
  \<open>committed\<close>: a thread that has found no active call while holding the mutex and will make the
  channel idle. \<open>awaits\<close>: a call that has not returned from \<open>ExitIdleMode\<close>.
\<close>

fun try_committed :: "try_pc \<Rightarrow> bool" where
  "try_committed TryActivity = True"
| "try_committed TryEnter = True"
| "try_committed TrySet = True"
| "try_committed _ = False"

fun committed :: "thread_pc \<Rightarrow> bool" where
  "committed (Handler (HandleTry p)) = try_committed p"
| "committed (Testing p) = try_committed p"
| "committed _ = False"

definition awaits :: "thread_pc \<Rightarrow> bool" where
  "awaits p = (p \<in> {CallBegin (BeginExit ExitLock), CallBegin (BeginExit ExitCheck), CallBegin (BeginExit ExitCc)})"

text \<open>The counted threads are the calls that have begun and not ended.\<close>

fun count_ok :: "thread_pc \<Rightarrow> bool \<Rightarrow> manager \<Rightarrow> bool" where
  "count_ok (CallBegin (BeginExit p)) c m = c"
| "count_ok (CallBegin BeginStore) c m = c"
| "count_ok CallRunning c m = (c \<or> closed m)"
| "count_ok (CallEnd EndClosed) c m = (c \<or> closed m)"
| "count_ok (CallEnd _) c m = c"
| "count_ok Returned c m = (c \<longrightarrow> closed m)"
| "count_ok (Closing CloseStop) c m = (\<not> c \<and> closed m)"
| "count_ok _ c m = (\<not> c)"

definition debts :: "idle_sys \<Rightarrow> int" where
  "debts s = (\<Sum>t\<leftarrow>threads s. debt (pc t)) + of_bool (actuallyIdle (mgr s))"

definition locks_ok :: "idle_sys \<Rightarrow> bool" where
  "locks_ok s =
     ((\<forall>i < length (threads s). pc_holds (pc (threads s ! i)) \<longleftrightarrow> idleMu (mgr s) = Some i) \<and>
      (\<forall>i. idleMu (mgr s) = Some i \<longrightarrow> i < length (threads s) \<and> pc_knows (pc (threads s ! i)) (mgr s)) \<and>
      (idleMu (mgr s) = None \<longrightarrow> actuallyIdle (mgr s) = cc_idle (mgr s)))"

definition counts_ok :: "idle_sys \<Rightarrow> bool" where
  "counts_ok s =
     (activeCallsCount (mgr s) = word_of_int (n_counted (threads s) - MaxInt32 * debts s) \<and>
      n_counted (threads s) < MaxInt32 \<and> 0 \<le> debts s \<and> debts s \<le> 1 \<and>
      (\<forall>t \<in> set (threads s). count_ok (pc t) (counted t) (mgr s)))"

definition calls_ok :: "idle_sys \<Rightarrow> bool" where
  "calls_ok s =
     (\<not> closed (mgr s) \<and> (cc_idle (mgr s) \<or> (\<exists>t \<in> set (threads s). committed (pc t))) \<longrightarrow>
      (\<forall>t \<in> set (threads s). counted t \<longrightarrow> awaits (pc t)))"

text \<open>Every call of the \<open>ClientConn\<close> changes its mode: the calls alternate, beginning with an exit.\<close>

fun alternates :: "cc_call \<Rightarrow> cc_call list \<Rightarrow> bool" where
  "alternates c [] = True"
| "alternates c (d # ds) = (d = c \<and> alternates (if c = ExitIdleMode then EnterIdleMode else ExitIdleMode) ds)"

definition cc_ok :: "manager \<Rightarrow> bool" where
  "cc_ok m = (alternates ExitIdleMode (cc_calls m) \<and> (cc_idle m \<longleftrightarrow> even (length (cc_calls m))))"

lemma alternates_append:
  "alternates c (ds @ [d]) \<longleftrightarrow>
     alternates c ds \<and> d = (if even (length ds) then c else if c = ExitIdleMode then EnterIdleMode else ExitIdleMode)"
proof (induction ds arbitrary: c)
  case (Cons x ds)
  then show ?case by (cases c) auto
qed simp

text \<open>The pending checks for idleness.\<close>

fun sets_timer :: "thread_pc \<Rightarrow> bool" where
  "sets_timer (Handler (HandleReset d (ResetLocked SetTimer))) = True"
| "sets_timer (CallBegin (BeginExit (ExitTimer SetTimer))) = True"
| "sets_timer (Connecting (ExitTimer SetTimer)) = True"
| "sets_timer _ = False"

fun will_check :: "thread_pc \<Rightarrow> bool" where
  "will_check (Handler p) = True"
| "will_check (CallBegin (BeginExit (ExitTimer p))) = True"
| "will_check (Connecting (ExitTimer p)) = True"
| "will_check _ = False"

definition timer_armed :: "manager \<Rightarrow> bool" where
  "timer_armed m = (\<exists>d. timer m = Some (d, True))"

definition timers_ok :: "idle_sys \<Rightarrow> bool" where
  "timers_ok s =
     ((\<not> closed (mgr s) \<and> timeout (mgr s) \<noteq> 0 \<and> \<not> actuallyIdle (mgr s) \<longrightarrow>
        timer_armed (mgr s) \<or> (\<exists>t \<in> set (threads s). will_check (pc t))) \<and>
      (stopped (mgr s) \<longrightarrow> closed (mgr s) \<and> timer (mgr s) = None \<and> (\<forall>t \<in> set (threads s). \<not> sets_timer (pc t))))"

definition idle_inv :: "idle_sys \<Rightarrow> bool" where
  "idle_inv s = (locks_ok s \<and> counts_ok s \<and> calls_ok s \<and> cc_ok (mgr s) \<and> timers_ok s)"

section \<open>Preservation\<close>

lemmas idle_ops = lock_def unlock_def add_count_def cc_enter_def cc_exit_def

text \<open>All program counters.\<close>

lemma exit_leaf:
  obtains "p = ExitLock" | "p = ExitCheck" | "p = ExitCc" | "p = ExitAdd" | "p = ExitSet"
    | "p = ExitTimer ReadClosed" | "p = ExitTimer SetTimer"
  by (metis exit_pc.exhaust locked_pc.exhaust)

lemma reset_leaf: obtains "p = ResetLock" | "p = ResetLocked ReadClosed" | "p = ResetLocked SetTimer"
  by (metis reset_pc.exhaust locked_pc.exhaust)

lemma thread_leaf:
  obtains "p = Handler HandleClosed" | "p = Handler HandleCount" | "p = Handler HandleSince"
    | "p = Handler HandleStore" | "p = Handler HandleTime" | "p = Handler (HandleTry TryCas)"
    | "p = Handler (HandleTry TryLock)" | "p = Handler (HandleTry TryCount)"
    | "p = Handler (HandleTry TryActivity)" | "p = Handler (HandleTry TryUndo)"
    | "p = Handler (HandleTry TryEnter)" | "p = Handler (HandleTry TrySet)"
    | d where "p = Handler (HandleReset d ResetLock)"
    | d where "p = Handler (HandleReset d (ResetLocked ReadClosed))"
    | d where "p = Handler (HandleReset d (ResetLocked SetTimer))" | "p = Testing TryCas" | "p = Testing TryLock"
    | "p = Testing TryCount" | "p = Testing TryActivity" | "p = Testing TryUndo" | "p = Testing TryEnter"
    | "p = Testing TrySet" | "p = CallBegin BeginClosed" | "p = CallBegin BeginAdd" | "p = CallBegin BeginStore"
    | "p = CallBegin (BeginExit ExitLock)" | "p = CallBegin (BeginExit ExitCheck)"
    | "p = CallBegin (BeginExit ExitCc)" | "p = CallBegin (BeginExit ExitAdd)"
    | "p = CallBegin (BeginExit ExitSet)" | "p = CallBegin (BeginExit (ExitTimer ReadClosed))"
    | "p = CallBegin (BeginExit (ExitTimer SetTimer))" | "p = CallRunning" | "p = CallEnd EndClosed"
    | "p = CallEnd EndTime" | "p = CallEnd EndAdd" | "p = Connecting ExitLock" | "p = Connecting ExitCheck"
    | "p = Connecting ExitCc" | "p = Connecting ExitAdd" | "p = Connecting ExitSet"
    | "p = Connecting (ExitTimer ReadClosed)" | "p = Connecting (ExitTimer SetTimer)" | "p = Closing CloseStore"
    | "p = Closing CloseStop" | "p = Returned"
proof (cases p)
  case (Handler h)
  with that show ?thesis
  proof (cases h)
    case (HandleTry t)
    with Handler that show ?thesis by (cases t) simp_all
  next
    case (HandleReset d r)
    with Handler that show ?thesis by (cases r rule: reset_leaf) simp_all
  qed simp_all
next
  case (Testing t)
  with that show ?thesis by (cases t) simp_all
next
  case (CallBegin b)
  with that show ?thesis
  proof (cases b)
    case (BeginExit e)
    with CallBegin that show ?thesis by (cases e rule: exit_leaf) simp_all
  qed simp_all
next
  case (CallEnd e)
  with that show ?thesis by (cases e) simp_all
next
  case (Connecting e)
  with that show ?thesis by (cases e rule: exit_leaf) simp_all
next
  case (Closing c)
  with that show ?thesis by (cases c) simp_all
qed (use that in simp_all)

text \<open>
  What one step of one thread does, from program counter \<open>p\<close> and manager \<open>m\<close> to \<open>q\<close> and \<open>n\<close>; \<open>c\<close>
  and \<open>d\<close> tell whether the thread is counted before and after. It changes what the mutex protects only
  while holding it.
\<close>

definition move_locks :: "nat \<Rightarrow> thread_pc \<Rightarrow> manager \<Rightarrow> thread_pc \<Rightarrow> manager \<Rightarrow> bool" where
  "move_locks i p m q n =
     ((pc_holds q \<longleftrightarrow> idleMu n = Some i) \<and>
      (idleMu n \<noteq> idleMu m \<longrightarrow> idleMu m \<in> {None, Some i} \<and> idleMu n \<in> {None, Some i}) \<and>
      (idleMu n = Some i \<longrightarrow> pc_knows q n) \<and> (idleMu n = None \<longrightarrow> actuallyIdle n = cc_idle n) \<and>
      (\<not> pc_holds p \<longrightarrow> actuallyIdle n = actuallyIdle m \<and> cc_idle n = cc_idle m))"

text \<open>The count follows the counted calls and the debts.\<close>

definition owed :: "thread_pc \<Rightarrow> manager \<Rightarrow> int" where
  "owed p m = debt p + of_bool (actuallyIdle m)"

definition move_counts :: "thread_pc \<Rightarrow> bool \<Rightarrow> manager \<Rightarrow> thread_pc \<Rightarrow> bool \<Rightarrow> manager \<Rightarrow> bool" where
  "move_counts p c m q d n =
     (activeCallsCount n =
        activeCallsCount m + word_of_int (of_bool d - of_bool c - MaxInt32 * (owed q n - owed p m)) \<and>
      (owed q n = owed p m \<or> owed q n = owed p m + 1 \<and> activeCallsCount m = 0 \<or>
       owed q n = owed p m - 1 \<and> pc_holds p \<and> 1 \<le> owed p m) \<and>
      count_ok q d n \<and> (closed m \<longrightarrow> closed n))"

definition move_calls :: "thread_pc \<Rightarrow> bool \<Rightarrow> manager \<Rightarrow> thread_pc \<Rightarrow> bool \<Rightarrow> manager \<Rightarrow> bool" where
  "move_calls p c m q d n =
     ((committed q \<longrightarrow> committed p \<or> activeCallsCount m = word_of_int (- MaxInt32) \<and> d = c) \<and>
      (cc_idle n \<longrightarrow> cc_idle m \<or> committed p) \<and>
      (d \<and> \<not> awaits q \<longrightarrow> c \<and> \<not> awaits p \<or> closed m \<or> 0 < sint (activeCallsCount n) \<or>
         pc_holds p \<and> \<not> cc_idle n \<and> \<not> committed q))"

definition move_timers :: "thread_pc \<Rightarrow> manager \<Rightarrow> thread_pc \<Rightarrow> manager \<Rightarrow> bool" where
  "move_timers p m q n =
     ((will_check p \<longrightarrow> will_check q \<or> closed n \<or> timeout n = 0 \<or> actuallyIdle n \<or> timer_armed n) \<and>
      (actuallyIdle m \<longrightarrow> actuallyIdle n \<or> will_check q) \<and> timeout n = timeout m \<and>
      (timer n \<noteq> timer m \<longrightarrow> sets_timer p \<and> timer_armed n \<or> timer n = None \<and> closed m) \<and>
      (sets_timer q \<longrightarrow> \<not> closed m) \<and>
      (stopped n \<longrightarrow> stopped m \<or> closed m \<and> timer n = None \<and> idleMu m = None \<and> \<not> sets_timer q))"

lemma move_locks_ok:
  assumes "step_pc now i p m = Some (n, q)"
    and "pc_holds p \<longleftrightarrow> idleMu m = Some i" and "idleMu m = Some i \<longrightarrow> pc_knows p m"
    and "idleMu m = None \<longrightarrow> actuallyIdle m = cc_idle m" and "debt p = 1 \<and> idleMu m = None \<longrightarrow> \<not> actuallyIdle m"
  shows "move_locks i p m q n"
  using assms by (cases p rule: thread_leaf) (clarsimp simp: move_locks_def idle_ops try_holds_def Let_def split: if_splits)+

lemma move_counts_ok:
  assumes "step_pc now i p m = Some (n, q)" and "count_ok p c m" and "pc_holds p \<longrightarrow> pc_knows p m"
  shows "move_counts p c m q (recount p c) n"
  using assms
  by (cases p rule: thread_leaf) (clarsimp simp: move_counts_def owed_def idle_ops try_holds_def Let_def split: if_splits)+

lemma move_calls_ok:
  assumes "step_pc now i p m = Some (n, q)" and "count_ok p c m" and "pc_holds p \<longrightarrow> pc_knows p m"
  shows "move_calls p c m q (recount p c) n"
  using assms
  by (cases p rule: thread_leaf) (clarsimp simp: move_calls_def idle_ops try_holds_def awaits_def Let_def split: if_splits)+

lemma move_timers_ok:
  assumes "step_pc now i p m = Some (n, q)" and "count_ok p c m"
  shows "move_timers p m q n"
  using assms
  by (cases p rule: thread_leaf) (clarsimp simp: move_timers_def idle_ops timer_armed_def Let_def split: if_splits)+

lemma move_cc_ok:
  assumes "step_pc now i p m = Some (n, q)" and "pc_holds p \<longrightarrow> pc_knows p m" and "cc_ok m"
  shows "cc_ok n"
proof -
  have "cc_calls n = cc_calls m \<and> cc_idle n = cc_idle m \<or>
      cc_calls n = cc_calls m @ [if cc_idle m then ExitIdleMode else EnterIdleMode] \<and> cc_idle n = (\<not> cc_idle m)"
    using assms(1,2)
    by (cases p rule: thread_leaf) (clarsimp simp: idle_ops try_holds_def Let_def split: if_splits)+
  with assms(3) show ?thesis by (auto simp: cc_ok_def alternates_append)
qed

end
