(* ===== verification/Idle_System.thy ===== *)
theory Idle_System
  imports Idle_Manager
begin

text \<open>
  The idleness manager as a system of threads: the invariant of \<^verbatim>\<open>Idle_Manager\<close> holds in every
  reachable state, and with it the properties of calls and of the idle timer.
\<close>

section \<open>The invariant is kept\<close>

text \<open>From one thread to the system.\<close>

lemma sum_update:
  "i < length xs \<Longrightarrow> (\<Sum>x\<leftarrow>xs[i := y]. f x) = (\<Sum>x\<leftarrow>xs. f x) - f (xs ! i) + (f y :: int)"
  by (induction xs arbitrary: i) (auto split: nat.split)

lemma sum_above:
  "i < length xs \<Longrightarrow> (\<And>j. j < length xs \<Longrightarrow> j \<noteq> i \<Longrightarrow> 0 \<le> (f (xs ! j) :: int)) \<Longrightarrow> f (xs ! i) \<le> (\<Sum>x\<leftarrow>xs. f x)"
proof (induction xs arbitrary: i)
  case (Cons x xs)
  show ?case
  proof (cases i)
    case 0
    have "0 \<le> f y" if "y \<in> set xs" for y
      using that Cons.prems(2) [of "Suc j" for j] 0 by (auto simp: in_set_conv_nth)
    then have "0 \<le> (\<Sum>x\<leftarrow>xs. f x)" by (intro sum_list_nonneg) auto
    then show ?thesis using 0 by simp
  next
    case (Suc k)
    have "f (xs ! k) \<le> (\<Sum>x\<leftarrow>xs. f x)"
      using Cons.prems(1) Cons.prems(2) [of "Suc j" for j] Suc by (intro Cons.IH) auto
    then show ?thesis using Cons.prems(2) [of 0] Suc by simp
  qed
qed simp

lemma negative_debt: "\<not> pc_holds p \<Longrightarrow> 0 \<le> debt p"
  by (cases p rule: thread_leaf) (simp_all add: try_holds_def)

lemma owed_le_debts:
  assumes "locks_ok s" and "i < length (threads s)" and "idleMu (mgr s) \<in> {None, Some i}"
  shows "owed (pc (threads s ! i)) (mgr s) \<le> debts s"
proof -
  have "0 \<le> debt (pc (threads s ! j))" if "j < length (threads s)" "j \<noteq> i" for j
    using negative_debt [of "pc (threads s ! j)"] assms(1,3) that by (auto simp: locks_ok_def)
  then show ?thesis using sum_above [OF assms(2), of "\<lambda>t. debt (pc t)"] by (simp add: owed_def debts_def)
qed

lemma n_counted_nonneg: "0 \<le> n_counted ts"
  unfolding n_counted_def by (rule sum_list_nonneg) auto

lemma n_counted_zero: "n_counted ts = 0 \<Longrightarrow> t \<in> set ts \<Longrightarrow> \<not> counted t"
  unfolding n_counted_def by (subst (asm) sum_list_nonneg_eq_0_iff) auto

lemma sint_small: "- (2 ^ 31) \<le> x \<Longrightarrow> x < 2 ^ 31 \<Longrightarrow> sint (word_of_int x :: int32) = x"
  by (simp add: sint_sbintrunc' signed_take_bit_int_eq_self)

text \<open>While fewer than \<open>MaxInt32\<close> calls are active, the count tells how many, and whether \<open>MaxInt32\<close> is owed.\<close>

lemma count_value:
  assumes "counts_ok s"
  shows "sint (activeCallsCount (mgr s)) = n_counted (threads s) - MaxInt32 * debts s"
proof -
  have "debts s = 0 \<or> debts s = 1" using assms by (auto simp: counts_ok_def)
  then have "- (2 ^ 31) \<le> n_counted (threads s) - MaxInt32 * debts s" "n_counted (threads s) - MaxInt32 * debts s < 2 ^ 31"
    using assms n_counted_nonneg [of "threads s"] by (auto simp: counts_ok_def MaxInt32_def)
  moreover have "activeCallsCount (mgr s) = word_of_int (n_counted (threads s) - MaxInt32 * debts s)"
    using assms unfolding counts_ok_def by (elim conjE)
  ultimately show ?thesis using sint_small by (simp only:)
qed

lemma sint_MaxInt32: "sint (word_of_int (- MaxInt32) :: int32) = - MaxInt32"
  by (rule sint_small) (simp_all add: MaxInt32_def)

lemma count_is:
  assumes "counts_ok s"
  shows "activeCallsCount (mgr s) = 0 \<Longrightarrow> debts s = 0 \<and> n_counted (threads s) = 0"
    and "activeCallsCount (mgr s) = word_of_int (- MaxInt32) \<Longrightarrow> n_counted (threads s) = 0"
    and "0 < sint (activeCallsCount (mgr s)) \<Longrightarrow> debts s = 0"
  using count_value [OF assms] assms n_counted_nonneg [of "threads s"] sint_MaxInt32
  by (auto simp: counts_ok_def MaxInt32_def)

lemma pc_knows_cong: "actuallyIdle n = actuallyIdle m \<Longrightarrow> cc_idle n = cc_idle m \<Longrightarrow> pc_knows p n = pc_knows p m"
  by (cases p rule: thread_leaf) simp_all

lemma thread_moves:
  assumes "idle_inv s" and "i < length (threads s)" and "run_thread now i (threads s ! i) (mgr s) = Some (m, t)"
  defines "p \<equiv> pc (threads s ! i)" and "c \<equiv> counted (threads s ! i)"
  shows "move_locks i p (mgr s) (pc t) m" and "move_counts p c (mgr s) (pc t) (counted t) m"
    and "move_calls p c (mgr s) (pc t) (counted t) m" and "move_timers p (mgr s) (pc t) m" and "cc_ok m"
proof -
  have st: "step_pc now i p (mgr s) = Some (m, pc t)" and d: "counted t = recount p c"
    using assms(3) by (auto simp: run_thread_def p_def c_def)
  have inv: "locks_ok s" "counts_ok s" "cc_ok (mgr s)" using assms(1) by (simp_all add: idle_inv_def)
  have h: "pc_holds p \<longleftrightarrow> idleMu (mgr s) = Some i" and k: "idleMu (mgr s) = Some i \<longrightarrow> pc_knows p (mgr s)"
    and u: "idleMu (mgr s) = None \<longrightarrow> actuallyIdle (mgr s) = cc_idle (mgr s)"
    using inv(1) assms(2) by (auto simp: locks_ok_def p_def)
  have o: "debt p = 1 \<and> idleMu (mgr s) = None \<longrightarrow> \<not> actuallyIdle (mgr s)"
    using owed_le_debts [OF inv(1) assms(2)] inv(2) by (auto simp: owed_def counts_ok_def p_def)
  have c: "count_ok p c (mgr s)" using inv(2) assms(2) by (auto simp: counts_ok_def p_def c_def)
  from h k have hk: "pc_holds p \<longrightarrow> pc_knows p (mgr s)" by simp
  show "move_locks i p (mgr s) (pc t) m" by (rule move_locks_ok [OF st h k u o])
  show "move_counts p c (mgr s) (pc t) (counted t) m" unfolding d by (rule move_counts_ok [OF st c hk])
  show "move_calls p c (mgr s) (pc t) (counted t) m" unfolding d by (rule move_calls_ok [OF st c hk])
  show "move_timers p (mgr s) (pc t) m" by (rule move_timers_ok [OF st c])
  show "cc_ok m" by (rule move_cc_ok [OF st hk inv(3)])
qed

lemma locks_kept:
  assumes "locks_ok s" and "i < length (threads s)" and "move_locks i (pc (threads s ! i)) (mgr s) (pc t) m"
  shows "locks_ok \<lparr>mgr = m, threads = (threads s)[i := t]\<rparr>"
proof -
  note m = assms(3) [unfolded move_locks_def]
  have old: "pc_holds (pc (threads s ! j)) \<longleftrightarrow> idleMu (mgr s) = Some j" if "j < length (threads s)" for j
    using assms(1) that by (simp add: locks_ok_def)
  have same: "idleMu m = Some j \<longleftrightarrow> idleMu (mgr s) = Some j" if "j \<noteq> i" for j
    using m that by (metis insertE option.distinct(1) option.inject singletonD)
  have "pc_knows (pc (threads s ! j)) m" if "idleMu m = Some j" "j \<noteq> i" for j
  proof -
    have j: "idleMu (mgr s) = Some j" using same [OF that(2)] that(1) by simp
    then have "\<not> pc_holds (pc (threads s ! i))" using old [OF assms(2)] that(2) by simp
    then show ?thesis using m j assms(1) pc_knows_cong [of m "mgr s"] by (simp add: locks_ok_def)
  qed
  moreover have "j < length (threads s)" if "idleMu m = Some j" for j
    using that same assms(1,2) by (cases "j = i") (auto simp: locks_ok_def)
  ultimately show ?thesis using m old same assms(2) by (auto simp: locks_ok_def nth_list_update)
qed

lemma debts_update:
  "i < length (threads s) \<Longrightarrow> debts \<lparr>mgr = m, threads = (threads s)[i := t]\<rparr> =
     debts s + owed (pc t) m - owed (pc (threads s ! i)) (mgr s)"
  by (simp add: debts_def owed_def sum_update)

lemma count_ok_closed: "count_ok p c m \<Longrightarrow> (closed m \<Longrightarrow> closed n) \<Longrightarrow> count_ok p c n"
  by (cases p rule: thread_leaf) auto

lemma counts_kept:
  assumes "locks_ok s" and "counts_ok s" and "i < length (threads s)"
    and m: "move_counts (pc (threads s ! i)) (counted (threads s ! i)) (mgr s) (pc t) (counted t) m"
    and "n_counted ((threads s)[i := t]) < MaxInt32"
  shows "counts_ok \<lparr>mgr = m, threads = (threads s)[i := t]\<rparr>"
proof -
  note m = m [unfolded move_counts_def]
  have n: "n_counted ((threads s)[i := t]) = n_counted (threads s) + of_bool (counted t) - of_bool (counted (threads s ! i))"
    using assms(3) by (simp add: n_counted_def sum_update)
  have "owed (pc (threads s ! i)) (mgr s) \<le> debts s" if "pc_holds (pc (threads s ! i))"
    using owed_le_debts [OF assms(1,3)] that assms(1,3) by (simp add: locks_ok_def)
  then have range: "0 \<le> debts s + owed (pc t) m - owed (pc (threads s ! i)) (mgr s)"
    "debts s + owed (pc t) m - owed (pc (threads s ! i)) (mgr s) \<le> 1"
    using m assms(2) count_is(1) [OF assms(2)] by (auto simp: counts_ok_def)
  let ?d = "of_bool (counted t) - of_bool (counted (threads s ! i)) - MaxInt32 * (owed (pc t) m - owed (pc (threads s ! i)) (mgr s))"
  have "activeCallsCount (mgr s) = word_of_int (n_counted (threads s) - MaxInt32 * debts s)"
    using assms(2) unfolding counts_ok_def by (elim conjE)
  moreover have "activeCallsCount m = activeCallsCount (mgr s) + word_of_int ?d" using m by (elim conjE)
  ultimately have "activeCallsCount m = word_of_int (n_counted (threads s) - MaxInt32 * debts s + ?d)"
    by (simp only: of_int_add)
  also have "n_counted (threads s) - MaxInt32 * debts s + ?d = n_counted ((threads s)[i := t]) -
      MaxInt32 * (debts s + owed (pc t) m - owed (pc (threads s ! i)) (mgr s))"
    unfolding n by (simp only: algebra_simps)
  finally have "activeCallsCount m = word_of_int (n_counted ((threads s)[i := t]) -
      MaxInt32 * (debts s + owed (pc t) m - owed (pc (threads s ! i)) (mgr s)))" .
  moreover have "count_ok (pc x) (counted x) m" if "x \<in> set ((threads s)[i := t])" for x
    using that set_update_subset_insert [of "threads s" i t] assms(2) m count_ok_closed [of "pc x" "counted x" "mgr s" m]
    by (auto simp: counts_ok_def)
  ultimately show ?thesis using assms(5) range unfolding counts_ok_def debts_update [OF assms(3)] by simp
qed

lemma committed_holds: "committed p \<Longrightarrow> pc_holds p \<and> debt p = 1"
  by (cases p rule: thread_leaf) (simp_all add: try_holds_def)

lemma sets_timer_holds: "sets_timer p \<Longrightarrow> pc_holds p"
  by (cases p rule: thread_leaf) simp_all

lemma knows_owed: "pc_knows p m \<Longrightarrow> pc_holds p \<Longrightarrow> cc_idle m \<Longrightarrow> 1 \<le> owed p m"
  by (cases p rule: thread_leaf) (clarsimp simp: owed_def try_holds_def)+

text \<open>An idle channel, or a thread about to make it idle, owes \<open>MaxInt32\<close>.\<close>

lemma idle_owes:
  assumes "locks_ok s" and "cc_idle (mgr s) \<or> (\<exists>t \<in> set (threads s). committed (pc t))"
  shows "1 \<le> debts s"
proof (cases "idleMu (mgr s)")
  case None
  then have "\<not> pc_holds (pc t)" if "t \<in> set (threads s)" for t
    using assms(1) that by (auto simp: locks_ok_def in_set_conv_nth)
  then have "0 \<le> (\<Sum>t\<leftarrow>threads s. debt (pc t))" "cc_idle (mgr s)"
    using negative_debt committed_holds assms(2) by (auto intro!: sum_list_nonneg)
  then show ?thesis using None assms(1) by (simp add: debts_def locks_ok_def)
next
  case (Some i)
  then have i: "i < length (threads s)" "pc_holds (pc (threads s ! i))" "pc_knows (pc (threads s ! i)) (mgr s)"
    using assms(1) by (auto simp: locks_ok_def)
  have "committed (pc (threads s ! i))" if "t \<in> set (threads s)" "committed (pc t)" for t
    using that committed_holds Some assms(1) by (auto simp: locks_ok_def in_set_conv_nth)
  then have "1 \<le> owed (pc (threads s ! i)) (mgr s)"
    using assms(2) knows_owed [OF i(3,2)] committed_holds [of "pc (threads s ! i)"] by (auto simp: owed_def)
  then show ?thesis using owed_le_debts [OF assms(1) i(1)] Some by simp
qed

lemma set_update_cases:
  assumes "x \<in> set (xs[i := y])"
  obtains "x = y" | j where "j < length xs" "j \<noteq> i" "x = xs ! j"
  using assms by (metis in_set_conv_nth length_list_update nth_list_update_eq nth_list_update_neq)

lemma calls_kept:
  assumes "idle_inv s" and "i < length (threads s)" and "closed (mgr s) \<longrightarrow> closed m"
    and m: "move_calls (pc (threads s ! i)) (counted (threads s ! i)) (mgr s) (pc t) (counted t) m"
    and new: "locks_ok \<lparr>mgr = m, threads = (threads s)[i := t]\<rparr>" "counts_ok \<lparr>mgr = m, threads = (threads s)[i := t]\<rparr>"
  shows "calls_ok \<lparr>mgr = m, threads = (threads s)[i := t]\<rparr>"
proof -
  let ?ts = "(threads s)[i := t]"
  note m = m [unfolded move_calls_def]
  have inv: "locks_ok s" "counts_ok s" "calls_ok s" using assms(1) by (simp_all add: idle_inv_def)
  have "\<forall>x \<in> set ?ts. counted x \<longrightarrow> awaits (pc x)"
    if open_m: "\<not> closed m" and idle: "cc_idle m \<or> (\<exists>x \<in> set ?ts. committed (pc x))"
  proof (cases "committed (pc t) \<and> \<not> committed (pc (threads s ! i))")
    case True
    then have "n_counted (threads s) = 0" "counted t = counted (threads s ! i)" using m count_is(2) [OF inv(2)] by auto
    then show ?thesis using n_counted_zero [of "threads s"] assms(2) by (auto elim!: set_update_cases)
  next
    case False
    have "cc_idle (mgr s) \<or> (\<exists>x \<in> set (threads s). committed (pc x))"
      using idle False m assms(2) by (auto elim!: set_update_cases)
    then have old: "\<forall>x \<in> set (threads s). counted x \<longrightarrow> awaits (pc x)"
      using inv(3) assms(3) open_m by (auto simp: calls_ok_def)
    have "awaits (pc t)" if "counted t"
    proof (rule ccontr)
      assume a: "\<not> awaits (pc t)"
      have "1 \<le> debts \<lparr>mgr = m, threads = ?ts\<rparr>" using idle_owes [OF new(1)] idle by simp
      then have "\<not> 0 < sint (activeCallsCount m)" using count_is(3) [OF new(2)] by auto
      then have r: "pc_holds (pc (threads s ! i))" "\<not> cc_idle m" "\<not> committed (pc t)"
        using m old a that assms(2,3) open_m by auto
      then obtain j where "j < length (threads s)" "j \<noteq> i" "committed (pc (threads s ! j))"
        using idle by (auto elim!: set_update_cases)
      then show False using r(1) committed_holds inv(1) assms(2) by (auto simp: locks_ok_def)
    qed
    then show ?thesis using old by (auto elim!: set_update_cases)
  qed
  then show ?thesis by (auto simp: calls_ok_def)
qed

lemma timers_kept:
  assumes "locks_ok s" and "timers_ok s" and "i < length (threads s)" and "closed (mgr s) \<longrightarrow> closed m"
    and m: "move_timers (pc (threads s ! i)) (mgr s) (pc t) m"
  shows "timers_ok \<lparr>mgr = m, threads = (threads s)[i := t]\<rparr>"
proof -
  let ?ts = "(threads s)[i := t]"
  note m = m [unfolded move_timers_def]
  have t: "t \<in> set ?ts" using assms(3) by (simp add: set_update_memI)
  have "timer_armed m \<or> (\<exists>x \<in> set ?ts. will_check (pc x))"
    if c: "\<not> closed m" "timeout m \<noteq> 0" "\<not> actuallyIdle m"
  proof (cases "actuallyIdle (mgr s)")
    case True
    then show ?thesis using m c t by auto
  next
    case False
    then consider "timer_armed (mgr s)" | j where "j < length (threads s)" "will_check (pc (threads s ! j))"
      using assms(2,4) c m by (auto simp: timers_ok_def in_set_conv_nth)
    then show ?thesis
    proof cases
      case 1
      then show ?thesis using m c assms(4) by (auto simp: timer_armed_def)
    next
      case (2 j)
      show ?thesis
      proof (cases "j = i")
        case True
        then show ?thesis using 2(2) m c t by auto
      next
        case False
        then have "threads s ! j \<in> set ?ts" using 2(1) by (metis length_list_update nth_list_update_neq nth_mem)
        then show ?thesis using 2(2) by blast
      qed
    qed
  qed
  moreover have "closed m \<and> timer m = None \<and> (\<forall>x \<in> set ?ts. \<not> sets_timer (pc x))" if "stopped m"
  proof (cases "stopped (mgr s)")
    case True
    then have o: "closed (mgr s)" "timer (mgr s) = None" "\<forall>x \<in> set (threads s). \<not> sets_timer (pc x)"
      using assms(2) by (auto simp: timers_ok_def)
    then have "\<not> sets_timer (pc (threads s ! i))" using assms(3) by simp
    then show ?thesis using m o assms(4) by (metis insert_iff set_update_subset_insert subset_iff)
  next
    case False
    then have "closed (mgr s)" "timer m = None" "idleMu (mgr s) = None" "\<not> sets_timer (pc t)" using m that by auto
    moreover have "\<not> sets_timer (pc (threads s ! j))" if "j < length (threads s)" for j
      using sets_timer_holds that assms(1) \<open>idleMu (mgr s) = None\<close> by (auto simp: locks_ok_def)
    ultimately show ?thesis using assms(4) by (auto elim!: set_update_cases)
  qed
  ultimately show ?thesis by (simp add: timers_ok_def)
qed

lemma thread_runs_inv:
  assumes "idle_inv s" and "i < length (threads s)" and "run_thread now i (threads s ! i) (mgr s) = Some (m, t)"
    and "n_counted ((threads s)[i := t]) < MaxInt32"
  shows "idle_inv \<lparr>mgr = m, threads = (threads s)[i := t]\<rparr>"
proof -
  note mv = thread_moves [OF assms(1-3)]
  have inv: "locks_ok s" "counts_ok s" "timers_ok s" using assms(1) by (simp_all add: idle_inv_def)
  have c: "closed (mgr s) \<longrightarrow> closed m" using mv(2) by (simp add: move_counts_def)
  note new = locks_kept [OF inv(1) assms(2) mv(1)] counts_kept [OF inv(1,2) assms(2) mv(2) assms(4)]
  show ?thesis
    using new calls_kept [OF assms(1,2) c mv(3) new] timers_kept [OF inv(1,3) assms(2) c mv(4)] mv(5)
    by (simp add: idle_inv_def)
qed

lemma thread_added_inv:
  assumes "idle_inv s" and "debt p = 0" and "\<not> pc_holds p" and "count_ok p False (mgr s)"
  shows "idle_inv (s\<lparr>threads := threads s @ [\<lparr>pc = p, counted = False\<rparr>]\<rparr>)"
proof -
  have p: "\<not> committed p" "\<not> sets_timer p" using assms(2,3) committed_holds sets_timer_holds by auto
  have inv: "locks_ok s" "counts_ok s" "calls_ok s" "cc_ok (mgr s)" "timers_ok s" using assms(1) by (simp_all add: idle_inv_def)
  let ?s = "s\<lparr>threads := threads s @ [\<lparr>pc = p, counted = False\<rparr>]\<rparr>"
  have "locks_ok ?s" using inv(1) assms(3) by (auto simp: locks_ok_def nth_append less_Suc_eq)
  moreover have "counts_ok ?s" using inv(2) assms(2,4) by (auto simp: counts_ok_def n_counted_def debts_def)
  moreover have "calls_ok ?s" using inv(3) p(1) by (auto simp: calls_ok_def)
  moreover have "timers_ok ?s" using inv(5) p(2) by (auto simp: timers_ok_def)
  ultimately show ?thesis using inv(4) by (simp add: idle_inv_def)
qed

lemma timer_disarmed_inv:
  assumes "idle_inv s" and "timer (mgr s) = Some t" and "x \<in> set (threads s)" and "will_check (pc x)"
  shows "idle_inv (s\<lparr>mgr := (mgr s)\<lparr>timer := Some u\<rparr>\<rparr>)"
proof -
  let ?n = "(mgr s)\<lparr>timer := Some u\<rparr>"
  have "count_ok p c ?n = count_ok p c (mgr s)" "pc_knows p ?n = pc_knows p (mgr s)" for p c
    using count_ok_closed [of p c "mgr s" ?n] count_ok_closed [of p c ?n "mgr s"] pc_knows_cong [of ?n "mgr s"] by auto
  then show ?thesis using assms
    by (auto simp: idle_inv_def locks_ok_def counts_ok_def debts_def calls_ok_def cc_ok_def timers_ok_def)
qed

lemma dial_inv:
  assumes "idle_inv s" and "threads s = []" and "actuallyIdle (mgr s)"
  shows "idle_inv (s\<lparr>mgr := UnsafeSetNotIdle (cc_exit (mgr s))\<rparr>)"
proof -
  have inv: "locks_ok s" "counts_ok s" "cc_ok (mgr s)" "timers_ok s" using assms(1) by (simp_all add: idle_inv_def)
  have l: "idleMu (mgr s) = None" "cc_idle (mgr s)" using inv(1) assms(2,3) by (auto simp: locks_ok_def)
  let ?n = "UnsafeSetNotIdle (cc_exit (mgr s))"
  have n: "idleMu ?n = None" "\<not> cc_idle ?n" "\<not> actuallyIdle ?n" "cc_calls ?n = cc_calls (mgr s) @ [ExitIdleMode]"
    "closed ?n = closed (mgr s)" "stopped ?n = stopped (mgr s)" "closed ?n \<longrightarrow> timer ?n = timer (mgr s)"
    "\<not> closed ?n \<and> timeout ?n \<noteq> 0 \<longrightarrow> timer_armed ?n"
    "activeCallsCount ?n = activeCallsCount (mgr s) + word_of_int MaxInt32"
    using l(1) by (auto simp: UnsafeSetNotIdle_def idle_ops Let_def timer_armed_def)
  have "activeCallsCount ?n = 0" "0 < MaxInt32"
    using n(9) inv(2) assms(2,3) by (simp_all add: counts_ok_def n_counted_def debts_def MaxInt32_def)
  then show ?thesis using n(1-8) inv(3,4) l(2) assms(2)
    by (auto simp: idle_inv_def locks_ok_def counts_ok_def n_counted_def debts_def calls_ok_def cc_ok_def timers_ok_def
      alternates_append)
qed

lemma idle_inv_step:
  assumes "idle_inv s" and "idle_step s s'"
  shows "idle_inv s'"
  using assms(2)
proof cases
  case (thread_runs i now m t)
  then show ?thesis using thread_runs_inv assms(1) by simp
next
  case (thread_starts p)
  then show ?thesis using thread_added_inv [OF assms(1), of p] by (auto simp: entry_points_def try_holds_def)
next
  case (timer_fires d)
  let ?t = "\<lparr>pc = Handler HandleClosed, counted = False\<rparr>"
  have "idle_inv (s\<lparr>threads := threads s @ [?t]\<rparr>)" using thread_added_inv [OF assms(1)] by simp
  from timer_disarmed_inv [OF this, of _ ?t "(d, False)"] show ?thesis using timer_fires by (cases s) simp
next
  case dial_exits_idle
  then show ?thesis using dial_inv [OF assms(1)] by simp
qed

lemma idle_inv_initial: "idle_initial s \<Longrightarrow> idle_inv s"
  by (auto simp: idle_initial_def NewManager_def idle_inv_def locks_ok_def counts_ok_def n_counted_def debts_def
    calls_ok_def cc_ok_def timers_ok_def MaxInt32_def)

interpretation idle: inductive_invariant idle_initial idle_step idle_inv
  by unfold_locales (auto intro: idle_inv_initial idle_inv_step)

lemma reach_parts:
  assumes "reach idle_initial idle_step s"
  shows "locks_ok s" "counts_ok s" "calls_ok s" "cc_ok (mgr s)" "timers_ok s"
  using idle.reachable_inv [OF assms] by (simp_all add: idle_inv_def)

lemma sum_of_bool: "(\<Sum>u\<leftarrow>us. of_bool (P u)) = int (length (filter P us))"
  by (induction us) simp_all

text \<open>When every call is running or over, the count is the number of running calls.\<close>

lemma quiescent_count:
  assumes "locks_ok s" and "counts_ok s" and "\<not> closed (mgr s)" and "\<not> cc_idle (mgr s)"
    and q: "\<forall>u \<in> set (threads s). pc u \<in> {CallRunning, Returned}"
  shows "sint (activeCallsCount (mgr s)) = int (length (filter (\<lambda>u. pc u = CallRunning) (threads s)))"
proof -
  have c: "counted u \<longleftrightarrow> pc u = CallRunning" if "u \<in> set (threads s)" for u
  proof -
    have "count_ok (pc u) (counted u) (mgr s)" using assms(2) that by (simp add: counts_ok_def)
    then show ?thesis using assms(3) q that by auto
  qed
  have n: "n_counted (threads s) = int (length (filter (\<lambda>u. pc u = CallRunning) (threads s)))"
    unfolding n_counted_def sum_of_bool using c by (simp cong: filter_cong)
  have z: "debt (pc u) = 0 \<and> \<not> pc_holds (pc u)" if "u \<in> set (threads s)" for u using q that by auto
  then have "idleMu (mgr s) = None" using assms(1) unfolding locks_ok_def by (metis not_None_eq nth_mem)
  then have "\<not> actuallyIdle (mgr s)" using assms(1,4) by (simp add: locks_ok_def)
  moreover have "map (\<lambda>u. debt (pc u)) (threads s) = map (\<lambda>u. 0) (threads s)" using z by simp
  then have "(\<Sum>u\<leftarrow>threads s. debt (pc u)) = (\<Sum>u\<leftarrow>threads s. 0)" by (simp only:)
  ultimately have "debts s = 0" by (simp add: debts_def)
  then show ?thesis using count_value [OF assms(2)] n by simp
qed

section \<open>Properties\<close>

text \<open>
  C12: A call never runs on an idle channel. Under every interleaving of calls, timer callbacks,
  explicit connection attempts and tests, as long as the manager is not closed: while some call has
  returned from \<open>OnCallBegin\<close> and has not begun \<open>OnCallEnd\<close>, the \<open>ClientConn\<close> is not in idle mode and
  no thread is about to put it there; and whenever every call is running or over, the count is
  exactly the number of running calls, in spite of the \<open>MaxInt32\<close> that is added and subtracted.
\<close>

theorem running_call_keeps_channel_active:
  assumes "reach idle_initial idle_step s" and "\<not> closed (mgr s)"
    and "t \<in> set (threads s)" and "pc t = CallRunning"
  shows "\<not> cc_idle (mgr s) \<and> (\<forall>u \<in> set (threads s). \<not> committed (pc u)) \<and>
    ((\<forall>u \<in> set (threads s). pc u \<in> {CallRunning, Returned}) \<longrightarrow>
      sint (activeCallsCount (mgr s)) = int (length (filter (\<lambda>u. pc u = CallRunning) (threads s))))"
proof -
  note inv = reach_parts [OF assms(1)]
  have "count_ok (pc t) (counted t) (mgr s)" using inv(2) assms(3) by (simp add: counts_ok_def)
  then have "counted t" "\<not> awaits (pc t)" using assms(2,4) by (auto simp: awaits_def)
  then have a: "\<not> cc_idle (mgr s)" "\<forall>u \<in> set (threads s). \<not> committed (pc u)"
    using inv(3) assms(2,3) by (auto simp: calls_ok_def)
  then show ?thesis using quiescent_count [OF inv(1,2) assms(2) a(1)] by blast
qed

text \<open>Running one thread of a small system, for concrete executions.\<close>

definition run_one :: "nat \<Rightarrow> idle_sys \<Rightarrow> idle_sys" where
  "run_one i s =
     (case run_thread 7 i (threads s ! i) (mgr s) of
        None \<Rightarrow> s | Some (m, t) \<Rightarrow> \<lparr>mgr = m, threads = (threads s)[i := t]\<rparr>)"

definition idle_demo :: "nat \<Rightarrow> idle_sys" where
  "idle_demo k = (run_one 0 ^^ k) \<lparr>mgr = NewManager 5, threads = [\<lparr>pc = CallBegin BeginClosed, counted = False\<rparr>]\<rparr>"

lemma n_counted_le: "n_counted ts \<le> int (length ts)"
  by (induction ts) (auto simp: n_counted_def)

lemma reach_run_one:
  assumes "reach idle_initial idle_step s" and "length (threads s) = 1"
  shows "reach idle_initial idle_step (run_one 0 s) \<and> length (threads (run_one 0 s)) = 1"
proof (cases "run_thread 7 0 (threads s ! 0) (mgr s)")
  case (Some mt)
  obtain m t where mt: "mt = (m, t)" by (cases mt)
  have "n_counted ((threads s)[0 := t]) < MaxInt32"
    using n_counted_le [of "(threads s)[0 := t]"] assms(2) by (simp add: MaxInt32_def)
  then have "idle_step s \<lparr>mgr = m, threads = (threads s)[0 := t]\<rparr>"
    using Some mt assms(2) by (intro idle_step.thread_runs) auto
  then show ?thesis using assms Some mt by (auto simp: run_one_def intro: reach_more)
qed (use assms in \<open>simp add: run_one_def\<close>)

lemma reach_idle_demo: "reach idle_initial idle_step (idle_demo k) \<and> length (threads (idle_demo k)) = 1"
proof (induction k)
  case 0
  let ?s = "\<lparr>mgr = NewManager 5, threads = []\<rparr>"
  have "reach idle_initial idle_step ?s" by (rule reach_start) (auto simp: idle_initial_def)
  moreover have "idle_step ?s (idle_demo 0)"
    using idle_step.thread_starts [of "CallBegin BeginClosed" ?s] by (simp add: idle_demo_def entry_points_def)
  ultimately show ?case by (auto simp: idle_demo_def intro: reach_more)
next
  case (Suc k)
  then show ?case using reach_run_one [of "idle_demo k"] by (simp add: idle_demo_def)
qed

lemma idle_demo_running: "threads (idle_demo 10) = [\<lparr>pc = CallRunning, counted = True\<rparr>]" "\<not> closed (mgr (idle_demo 10))"
  by (simp_all add: idle_demo_def eval_nat_numeral run_one_def run_thread_def NewManager_def MaxInt32_def idle_ops Let_def
    sint_word_ariths)

theorem running_call_keeps_channel_active_witness: "\<not> cc_idle (mgr (idle_demo 10))"
  using running_call_keeps_channel_active [of "idle_demo 10"] reach_idle_demo idle_demo_running by auto

text \<open>
  C13: Idleness is always checked again, and never after \<open>Close\<close>. In every reachable state in which
  the channel is not idle, the manager is open and a timeout is set, a timer is armed or a thread is
  under way that arms it or makes the channel idle; once \<open>Close\<close> has returned, no timer exists and
  none is started; and the calls of the \<open>ClientConn\<close> alternate between leaving and entering idle mode.
\<close>

theorem idle_timer_never_lost:
  assumes "reach idle_initial idle_step s"
  shows "(\<not> closed (mgr s) \<and> timeout (mgr s) \<noteq> 0 \<and> \<not> actuallyIdle (mgr s) \<longrightarrow>
      timer_armed (mgr s) \<or> (\<exists>t \<in> set (threads s). will_check (pc t))) \<and>
    (stopped (mgr s) \<longrightarrow> timer (mgr s) = None \<and> (\<forall>t \<in> set (threads s). \<not> sets_timer (pc t))) \<and>
    alternates ExitIdleMode (cc_calls (mgr s))"
  using reach_parts(4,5) [OF assms] by (auto simp: timers_ok_def cc_ok_def)

theorem idle_timer_never_lost_witness: "alternates ExitIdleMode (cc_calls (mgr (idle_demo 10)))"
  using idle_timer_never_lost [of "idle_demo 10"] reach_idle_demo by blast

end
