(* ===== verification/Spec2Isabelle.thy ===== *)
theory Spec2Isabelle
  imports Flow_Control Loopy_System Response_System Idle_System
begin

text \<open>Skeleton.\<close>

end
